(* ===== verification/Prelude.thy ===== *)
theory Prelude
  imports Main "HOL-Library.Word"
begin

unbundle bit_operations_syntax

text \<open>
  Shared vocabulary of the NG-OS development: the C integer types, the byte memory that the
  kernel's pointers address, little-endian 32-bit and 64-bit accesses with their
  read-after-write laws, C string literals, and the interface of a word-addressed store.
  The compiler target is i386 (Makefile: \<open>-m32 -march=i386\<close>): \<open>int\<close> and
  pointers have 32 bits, accesses need no alignment, \<open>char\<close> is signed.
\<close>

section \<open>C types\<close>

type_synonym u8 = "8 word"
type_synonym u16 = "16 word"
type_synonym u32 = "32 word"
type_synonym u64 = "64 word"

text \<open>The memory, indexed by pointer values.\<close>

type_synonym memory = "u32 \<Rightarrow> u8"

text \<open>
  A call either returns with the new state or halts the CPU for ever in a
  \<open>for (;;) hlt\<close> loop; the state it halts in is kept.
\<close>

datatype 's outcome = Returns 's | Halts 's

named_theorems frame \<open>state components an operation leaves alone\<close>
named_theorems run \<open>equations that evaluate an operation\<close>

section \<open>C strings\<close>

text \<open>
  A \<open>char*\<close> argument is the list of bytes found from the pointer on; functions that
  walk a string stop at the first zero byte, or at the end of the list, which stands for the
  terminator of a literal.
\<close>

definition lit :: "string \<Rightarrow> u8 list" where
  "lit s = map of_char s"

text \<open>The bytes before the terminator.\<close>

definition cstr :: "u8 list \<Rightarrow> u8 list" where
  "cstr s = takeWhile (\<lambda>c. c \<noteq> 0) s"

lemma cstr_simps [simp]:
  "cstr [] = []"
  "cstr (c # s) = (if c = 0 then [] else c # cstr s)"
  by (simp_all add: cstr_def)

lemma cstr_nonzero: "c \<in> set (cstr s) \<Longrightarrow> c \<noteq> 0"
  unfolding cstr_def by (rule set_takeWhileD [THEN conjunct2])

lemma cstr_id: "0 \<notin> set s \<Longrightarrow> cstr s = s"
  by (induction s) auto

lemma cstr_append_nul [simp]: "0 \<notin> set s \<Longrightarrow> cstr (s @ 0 # t) = s"
  by (induction s) auto

section \<open>Byte memory\<close>

definition load32 :: "memory \<Rightarrow> u32 \<Rightarrow> u32" where
  "load32 m a = ucast (m a) OR push_bit 8 (ucast (m (a + 1)))
     OR push_bit 16 (ucast (m (a + 2))) OR push_bit 24 (ucast (m (a + 3)))"

definition store32 :: "memory \<Rightarrow> u32 \<Rightarrow> u32 \<Rightarrow> memory" where
  "store32 m a v = m(a := ucast v, a + 1 := ucast (drop_bit 8 v),
     a + 2 := ucast (drop_bit 16 v), a + 3 := ucast (drop_bit 24 v))"

definition load64 :: "memory \<Rightarrow> u32 \<Rightarrow> u64" where
  "load64 m a = ucast (load32 m a) OR push_bit 32 (ucast (load32 m (a + 4)))"

text \<open>
  \<open>sep n a k b\<close>: the \<open>n\<close> bytes from \<open>a\<close> and the \<open>k\<close> bytes from \<open>b\<close> do
  not meet, addresses counted modulo the address space.
\<close>

definition sep :: "nat \<Rightarrow> u32 \<Rightarrow> nat \<Rightarrow> u32 \<Rightarrow> bool" where
  "sep n a k b \<longleftrightarrow> n \<le> unat (b - a) \<and> k \<le> unat (a - b)"

lemma sep_sym: "sep n a k b \<Longrightarrow> sep k b n a"
  by (simp add: sep_def)

lemma sep_mono: "sep n a k b \<Longrightarrow> n' \<le> n \<Longrightarrow> k' \<le> k \<Longrightarrow> sep n' a k' b"
  by (simp add: sep_def)

lemma byte_add_neq [simp]:
  "(a::u32) + 1 \<noteq> a" "a + 2 \<noteq> a" "a + 3 \<noteq> a" "a + 2 \<noteq> a + 1" "a + 3 \<noteq> a + 1" "a + 3 \<noteq> a + 2"
  by simp_all

lemma join_bytes:
  "(ucast (ucast v :: u8) :: u32) OR push_bit 8 (ucast (ucast (drop_bit 8 v) :: u8))
     OR push_bit 16 (ucast (ucast (drop_bit 16 v) :: u8))
     OR push_bit 24 (ucast (ucast (drop_bit 24 v) :: u8)) = v"
proof (rule bit_word_eqI)
  fix n assume n: "n < LENGTH(32)"
  consider "n < 8" | "8 \<le> n" "n < 16" | "16 \<le> n" "n < 24" | "24 \<le> n" by linarith
  then show "bit ((ucast (ucast v :: u8) :: u32) OR push_bit 8 (ucast (ucast (drop_bit 8 v) :: u8))
     OR push_bit 16 (ucast (ucast (drop_bit 16 v) :: u8))
     OR push_bit 24 (ucast (ucast (drop_bit 24 v) :: u8))) n = bit v n"
    using n by cases (auto simp: bit_simps)
qed

lemma load32_store32_same [simp]: "load32 (store32 m a v) a = v"
  by (simp add: load32_def store32_def join_bytes)

lemma sep_neq:
  assumes "sep n a k b" "i < n" "j < k" "n < 2 ^ 32" "k < 2 ^ 32"
  shows "a + of_nat i \<noteq> b + of_nat j"
proof
  assume eq: "a + of_nat i = b + of_nat j"
  show False
  proof (cases "j \<le> i")
    case True
    with eq have "b - a = of_nat (i - j)" by (simp add: algebra_simps)
    then have "unat (b - a) = i - j" using assms by (simp only:) (simp add: unat_of_nat del: of_nat_diff)
    with assms show False unfolding sep_def by linarith
  next
    case False
    with eq have "a - b = of_nat (j - i)" by (simp add: algebra_simps)
    then have "unat (a - b) = j - i" using assms by (simp only:) (simp add: unat_of_nat del: of_nat_diff)
    with assms show False unfolding sep_def by linarith
  qed
qed

lemma sep_neq4:
  assumes "sep 4 a 4 b" "i \<in> {0, 1, 2, 3}" "j \<in> {0, 1, 2, 3}"
  shows "a + i \<noteq> b + j"
  using sep_neq [OF assms(1), of "unat i" "unat j"] assms(2,3) by auto

lemma load32_store32_sep: "sep 4 a 4 b \<Longrightarrow> load32 (store32 m a v) b = load32 m b"
  using sep_neq4 [of a b 0 0] sep_neq4 [of a b 0 1] sep_neq4 [of a b 0 2] sep_neq4 [of a b 0 3]
    sep_neq4 [of a b 1 0] sep_neq4 [of a b 1 1] sep_neq4 [of a b 1 2] sep_neq4 [of a b 1 3]
    sep_neq4 [of a b 2 0] sep_neq4 [of a b 2 1] sep_neq4 [of a b 2 2] sep_neq4 [of a b 2 3]
    sep_neq4 [of a b 3 0] sep_neq4 [of a b 3 1] sep_neq4 [of a b 3 2] sep_neq4 [of a b 3 3]
  by (simp add: load32_def store32_def)

lemma store32_byte: "4 \<le> unat (b - a) \<Longrightarrow> store32 m a v b = m b"
proof -
  assume h: "4 \<le> unat (b - a)"
  have "b \<noteq> a + i" if "i \<in> {0, 1, 2, 3}" for i
    using that h by auto
  from this [of 0] this [of 1] this [of 2] this [of 3] show ?thesis
    by (simp add: store32_def)
qed

lemma sep_array:
  assumes "i < 2 ^ 30" "j < 2 ^ 30" "i \<noteq> j"
  shows "sep 4 (base + 4 * of_nat i) 4 (base + 4 * of_nat j)"
proof -
  have *: "4 \<le> unat (4 * of_nat j - 4 * of_nat i :: u32)" if "i < 2 ^ 30" "j < 2 ^ 30" "i \<noteq> j" for i j
  proof (cases "i \<le> j")
    case True
    then have "(4 * of_nat j - 4 * of_nat i :: u32) = of_nat (4 * (j - i))"
      by (simp add: algebra_simps)
    then have "unat (4 * of_nat j - 4 * of_nat i :: u32) = 4 * (j - i)"
      using that by (simp only:) (simp add: unat_of_nat del: of_nat_diff of_nat_mult)
    then show ?thesis using that True by simp
  next
    case False
    have z: "of_nat (2 ^ 32) = (0 :: u32)"
      by (simp only: word_of_nat_eq_0_iff) simp
    have *: "of_nat (N + 4 * j - 4 * i) = of_nat N + 4 * of_nat j - (4 * of_nat i :: u32)"
      if "4 * i \<le> N + 4 * j" for N using that by simp
    have "of_nat (2 ^ 32 + 4 * j - 4 * i) = of_nat (2 ^ 32) + 4 * of_nat j - (4 * of_nat i :: u32)"
      by (rule *) (use that in simp)
    then have "(4 * of_nat j - 4 * of_nat i :: u32) = of_nat (2 ^ 32 + 4 * j - 4 * i)"
      by (simp only: z add_0)
    then have "unat (4 * of_nat j - 4 * of_nat i :: u32) = 2 ^ 32 + 4 * j - 4 * i"
      using that False by (simp only:) (simp add: unat_of_nat del: of_nat_diff of_nat_mult)
    then show ?thesis using that False by simp
  qed
  show ?thesis using * [OF assms] * [OF assms(2,1)] assms(3) by (auto simp: sep_def)
qed

lemma unat_less_32: "unat (w :: u32) < 2 ^ 32"
  using unsigned_less [of w] by simp

lemma unat_neg:
  assumes "(w :: u32) \<noteq> 0"
  shows "unat (- w) = 2 ^ 32 - unat w"
proof -
  have "(unat w + unat (- w)) mod 2 ^ 32 = 0"
    using unat_word_ariths(1) [of w "- w"] by simp
  then obtain q where q: "unat w + unat (- w) = 2 ^ 32 * q" by auto
  moreover have "0 < unat w" using assms by (simp add: unat_gt_0)
  ultimately have "0 < q" "2 ^ 32 * q < 2 ^ 32 * 2"
    using unat_less_32 [of w] unat_less_32 [of "- w"] by (auto intro: Nat.gr0I)
  then have "q = 1" by simp
  with q show ?thesis by simp
qed

lemma sep_sub:
  assumes "sep N a k b" "i + n \<le> N" "0 < n"
  shows "sep n (a + of_nat i) k b"
proof -
  have N: "N \<le> unat (b - a)" and k: "k \<le> unat (a - b)" using assms(1) by (auto simp: sep_def)
  have ub: "unat (b - a) < 2 ^ 32" by (rule unat_less_32)
  have i: "i < 2 ^ 32" "i < unat (b - a)" using N ub assms(2,3) by linarith+
  have "unat (b - a - of_nat i) = unat (b - a) - i"
    using i by (subst unat_sub) (simp_all add: word_le_nat_alt unat_of_nat)
  then have 1: "n \<le> unat (b - (a + of_nat i))" using N assms(2) by (simp add: algebra_simps)
  have ne: "b - a \<noteq> 0" using i(2) by auto
  have ab: "unat (a - b) = 2 ^ 32 - unat (b - a)"
    using unat_neg [OF ne] by simp
  have "unat (a - b) + i < 2 ^ 32" using ab i ub by linarith
  then have "unat (a - b + of_nat i) = unat (a - b) + i"
    using i by (simp add: unat_word_ariths unat_of_nat)
  then have 2: "k \<le> unat (a + of_nat i - b)" using k by (simp add: algebra_simps)
  show ?thesis using 1 2 by (simp add: sep_def)
qed

lemma sep_interval:
  assumes "unat a + n \<le> unat b" "unat b + k \<le> 2 ^ 32"  "0 < n"
  shows "sep n a k b"
proof -
  have "unat (b - a) = unat b - unat a" using assms by (subst unat_sub) (simp_all add: word_le_nat_alt)
  moreover from this have "unat (a - b) = 2 ^ 32 - (unat b - unat a)"
    using assms unat_neg [of "b - a"] by (cases "b - a = 0") auto
  ultimately show ?thesis using assms unfolding sep_def by linarith
qed

section \<open>Regions of memory\<close>

definition span :: "u32 \<Rightarrow> nat \<Rightarrow> u32 set" where
  "span p n = (\<lambda>i. p + of_nat i) ` {..<n}"

lemma span_iff: "n \<le> 2 ^ 32 \<Longrightarrow> a \<in> span p n \<longleftrightarrow> unat (a - p) < n"
proof
  assume n: "n \<le> 2 ^ 32" "a \<in> span p n"
  then obtain i where "i < n" "a = p + of_nat i" by (auto simp: span_def)
  with n show "unat (a - p) < n" by (simp add: unat_of_nat)
next
  assume "unat (a - p) < n"
  moreover have "a = p + of_nat (unat (a - p))" by simp
  ultimately show "a \<in> span p n" unfolding span_def by blast
qed

definition agree :: "u32 set \<Rightarrow> memory \<Rightarrow> memory \<Rightarrow> bool" where
  "agree S m m' \<longleftrightarrow> (\<forall>a \<in> S. m' a = m a)"

lemma agree_mono: "agree S m m' \<Longrightarrow> T \<subseteq> S \<Longrightarrow> agree T m m'"
  by (auto simp: agree_def)

lemma agree_refl [simp]: "agree S m m"
  by (simp add: agree_def)

lemma agree_trans: "agree S m m' \<Longrightarrow> agree S m' m'' \<Longrightarrow> agree S m m''"
  by (simp add: agree_def)

lemma load32_agree: "agree (span p n) m m' \<Longrightarrow> k + 4 \<le> n \<Longrightarrow>
    load32 m' (p + of_nat k) = load32 m (p + of_nat k)"
proof -
  assume a: "agree (span p n) m m'" "k + 4 \<le> n"
  have "m' (p + of_nat (k + j)) = m (p + of_nat (k + j))" if "j < 4" for j
  proof -
    have "p + of_nat (k + j) \<in> span p n"
      unfolding span_def by (rule image_eqI [where x = "k + j"]) (use that a(2) in auto)
    with a(1) show ?thesis by (simp add: agree_def)
  qed
  from this [of 0] this [of 1] this [of 2] this [of 3] show ?thesis
    by (simp add: load32_def add_ac)
qed

section \<open>The interface of a store of cells\<close>

text \<open>
  Arrays of 32-bit entries (page tables, the frame bitmap, forged stacks) and the cells of the
  screen are read and written one cell at a time. The clients need two laws, whatever the
  cells are: a cell reads back what was written to it, and a write leaves the cells apart
  from it alone.
\<close>

locale cell_store =
  fixes rd :: "'m \<Rightarrow> 'a \<Rightarrow> 'v"
    and wr :: "'m \<Rightarrow> 'a \<Rightarrow> 'v \<Rightarrow> 'm"
    and apart :: "'a \<Rightarrow> 'a \<Rightarrow> bool"
  assumes rd_wr_same: "rd (wr m a v) a = v"
    and rd_wr_apart: "apart a b \<Longrightarrow> rd (wr m a v) b = rd m b"
begin

text \<open>The loop \<open>for (i = 0; i < n; i++) arr[i] = f(i)\<close> over the cells \<open>adr i\<close>.\<close>

lemma fill_other:
  "(\<And>i. i < n \<Longrightarrow> apart (adr i) b) \<Longrightarrow>
     rd (fold (\<lambda>i m. wr m (adr i) (f i)) [0..<n] m) b = rd m b"
  by (induction n) (auto simp: rd_wr_apart)

lemma fill_same:
  "(\<And>i j. i < n \<Longrightarrow> j < n \<Longrightarrow> i \<noteq> j \<Longrightarrow> apart (adr i) (adr j)) \<Longrightarrow> j < n \<Longrightarrow>
     rd (fold (\<lambda>i m. wr m (adr i) (f i)) [0..<n] m) (adr j) = f j"
  by (induction n) (auto simp: rd_wr_apart rd_wr_same less_Suc_eq)

end

interpretation mem32: cell_store load32 store32 "\<lambda>a b. sep 4 a 4 b"
  by unfold_locales (auto simp: load32_store32_sep)

text \<open>Entry \<open>i\<close> of the \<open>uint32_t\<close> array at \<open>base\<close>.\<close>

abbreviation entry :: "u32 \<Rightarrow> nat \<Rightarrow> u32" where
  "entry base i \<equiv> base + 4 * of_nat i"

definition fill32 :: "u32 \<Rightarrow> nat \<Rightarrow> (nat \<Rightarrow> u32) \<Rightarrow> memory \<Rightarrow> memory" where
  "fill32 base n f m = fold (\<lambda>i m. store32 m (entry base i) (f i)) [0..<n] m"

lemma load32_fill32: "n \<le> 2 ^ 30 \<Longrightarrow> j < n \<Longrightarrow> load32 (fill32 base n f m) (entry base j) = f j"
  unfolding fill32_def by (rule mem32.fill_same) (auto intro!: sep_array)

lemma load32_fill32_sep:
  assumes "sep (4 * n) base 4 b"
  shows "load32 (fill32 base n f m) b = load32 m b"
  unfolding fill32_def
proof (rule mem32.fill_other)
  fix i assume "i < n"
  with assms have "sep 4 (base + of_nat (4 * i)) 4 b" by (intro sep_sub) auto
  then show "sep 4 (entry base i) 4 b" by simp
qed

section \<open>Single bits of a 32-bit word\<close>

text \<open>\<open>1 << k\<close> with the count taken from a 32-bit operand.\<close>

definition bit32 :: "u32 \<Rightarrow> u32" where
  "bit32 k = push_bit (unat k) 1"

lemma bit_bit32: "bit (bit32 k) n \<longleftrightarrow> n = unat k \<and> n < 32"
  by (auto simp: bit32_def bit_simps)

lemma and_bit32_eq_0: "w AND bit32 k = 0 \<longleftrightarrow> \<not> bit w (unat k)"
proof
  assume "w AND bit32 k = 0"
  then have "\<not> bit (w AND bit32 k) (unat k)" by simp
  then show "\<not> bit w (unat k)"
    using bit_imp_le_length [of w "unat k"] by (simp add: bit_and_iff bit_bit32) blast
next
  assume "\<not> bit w (unat k)"
  then show "w AND bit32 k = 0"
    by (intro bit_word_eqI) (auto simp: bit_and_iff bit_bit32)
qed

lemma bit_or_bit32: "k < 32 \<Longrightarrow> bit (w OR bit32 k) n \<longleftrightarrow> bit w n \<or> n = unat k"
  by (auto simp: bit_or_iff bit_bit32 word_less_nat_alt)

lemma bit_andnot_bit32: "bit (w AND NOT (bit32 k)) n \<longleftrightarrow> bit w n \<and> n \<noteq> unat k"
proof (cases "n < 32")
  case True
  then show ?thesis by (auto simp: bit_and_iff bit_not_iff bit_bit32)
next
  case False
  then have "\<not> bit w n" using bit_imp_le_length [of w n] by auto
  then show ?thesis by (simp add: bit_and_iff)
qed

end
