(* ===== verification/Machine.thy ===== *)
theory Machine
  imports Prelude
begin

text \<open>
  The machine below the kernel: the memory its pointers address and the bytes it sends to
  I/O ports (\<open>include/io.h\<close>), with the components that are nothing but memory or port
  traffic: \<open>memcpy\<close> (\<open>memory.c\<close>), the serial port (\<open>serial.c\<close>) and the interval timer
  (\<open>pit.c\<close>). What a port answers to \<open>inb\<close> is not in the repository: it is an argument
  \<open>dev\<close> of the operations that read ports.
\<close>

section \<open>Memory and ports\<close>

record machine =
  mem :: memory
  out_log :: "(u16 \<times> u8) list"

text \<open>Every \<open>outb\<close> is kept, in program order.\<close>

definition outb :: "u16 \<Rightarrow> u8 \<Rightarrow> 'a machine_scheme \<Rightarrow> 'a machine_scheme" where
  "outb port data s = s\<lparr>out_log := out_log s @ [(port, data)]\<rparr>"

definition inb :: "(u16 \<Rightarrow> u8) \<Rightarrow> u16 \<Rightarrow> u8" where
  "inb dev port = dev port"

lemma outb_frame [frame, simp]:
  "mem (outb p d s) = mem s"
  "out_log (outb p d s) = out_log s @ [(p, d)]"
  "machine.more (outb p d s) = machine.more s"
  by (simp_all add: outb_def)

section \<open>memcpy\<close>

definition memcpy_loop :: "u32 \<Rightarrow> u32 \<Rightarrow> nat \<Rightarrow> memory \<Rightarrow> memory" where
  "memcpy_loop dest src n m = fold (\<lambda>i m. m(dest + of_nat i := m (src + of_nat i))) [0..<n] m"

definition memcpy :: "u32 \<Rightarrow> u32 \<Rightarrow> u32 \<Rightarrow> 'a machine_scheme \<Rightarrow> u32 \<times> 'a machine_scheme" where
  "memcpy dest src n s = (dest, s\<lparr>mem := memcpy_loop dest src (unat n) (mem s)\<rparr>)"

text \<open>
  The copy runs upwards, so it is right whenever the destination does not start inside the
  source after its first byte: disjoint regions, equal regions, and moves downwards.
\<close>

lemma memcpy_loop_outside:
  "k \<le> unat (a - dest) \<Longrightarrow> k \<le> 2 ^ 32 \<Longrightarrow> memcpy_loop dest src k m a = m a"
proof (induction k)
  case 0
  then show ?case by (simp add: memcpy_loop_def)
next
  case (Suc k)
  have "a \<noteq> dest + of_nat k"
  proof
    assume "a = dest + of_nat k"
    then have "unat (a - dest) = k" using Suc.prems by (simp add: unat_of_nat)
    with Suc.prems show False by simp
  qed
  with Suc show ?case by (simp add: memcpy_loop_def)
qed

lemma memcpy_loop_inside:
  assumes "dest = src \<or> n \<le> unat (dest - src)" "n < 2 ^ 32"
  shows "k \<le> n \<Longrightarrow> i < k \<Longrightarrow> memcpy_loop dest src k m (dest + of_nat i) = m (src + of_nat i)"
proof (induction k)
  case 0
  then show ?case by simp
next
  case (Suc k)
  have src: "memcpy_loop dest src k m (src + of_nat k) = m (src + of_nat k)"
  proof (cases "dest = src")
    case True
    then show ?thesis using Suc.prems assms(2)
      by (intro memcpy_loop_outside) (simp_all add: unat_of_nat)
  next
    case False
    define d where "d = dest - src"
    have d: "n \<le> unat d" "d \<noteq> 0" using False assms(1) by (auto simp: d_def)
    have e: "src + of_nat k - dest = - (d - of_nat k)" by (simp add: d_def)
    have "k < unat d" using d Suc.prems by simp
    then have "unat (- (d - of_nat k)) = 2 ^ 32 - (unat d - k)"
      using unat_less_32 [of d] Suc.prems assms(2)
      by (subst unat_neg) (auto simp: unat_sub word_le_nat_alt unat_of_nat)
    then have "unat (src + of_nat k - dest) = 2 ^ 32 - (unat d - k)" unfolding e .
    then show ?thesis using unat_less_32 [of d] Suc.prems assms(2)
      by (intro memcpy_loop_outside) simp_all
  qed
  have ne: "dest + of_nat i \<noteq> dest + of_nat k" if "i < k"
  proof
    assume "dest + of_nat i = dest + of_nat k"
    then have "unat (of_nat i :: u32) = unat (of_nat k :: u32)" by simp
    with that Suc.prems assms(2) show False by (simp add: unat_of_nat)
  qed
  have step: "memcpy_loop dest src (Suc k) m =
      (memcpy_loop dest src k m)(dest + of_nat k := memcpy_loop dest src k m (src + of_nat k))"
    by (simp add: memcpy_loop_def)
  show ?case
  proof (cases "i = k")
    case True
    then show ?thesis by (simp add: step src)
  next
    case False
    with Suc ne show ?thesis by (simp add: step)
  qed
qed

section \<open>Serial port\<close>

definition serial_write_char :: "u8 \<Rightarrow> 'a machine_scheme \<Rightarrow> 'a machine_scheme" where
  "serial_write_char c s = outb 0x3F8 c s"

fun serial_print :: "u8 list \<Rightarrow> 'a machine_scheme \<Rightarrow> 'a machine_scheme" where
  "serial_print [] s = s"
| "serial_print (c # str) s = (if c \<noteq> 0 then serial_print str (outb 0x3F8 c s) else s)"

lemma serial_print_more [frame]:
  "mem (serial_print str s) = mem s" "machine.more (serial_print str s) = machine.more s"
  by (induction str arbitrary: s) auto

section \<open>Interval timer\<close>

text \<open>Dividing by a zero frequency raises a divide error: no result.\<close>

definition pit_init :: "u32 \<Rightarrow> 'a machine_scheme \<Rightarrow> 'a machine_scheme option" where
  "pit_init frequency s =
     (if frequency = 0 then None
      else let divisor = ucast (1193180 div frequency) :: u16;
               low = ucast (divisor AND 0xFF) :: u8;
               high = ucast (drop_bit 8 divisor) :: u8
           in Some (outb 0x40 high (outb 0x40 low (outb 0x43 0x36 s))))"

text \<open>The reload value that the two data bytes carry.\<close>

definition reload_value :: "u8 \<Rightarrow> u8 \<Rightarrow> nat" where
  "reload_value low high = unat low + 256 * unat high"

lemma reload_bytes:
  "reload_value (ucast (d AND 0xFF)) (ucast (drop_bit 8 d)) = unat (d :: u16)"
proof -
  have m: "(d AND 0xFF :: u16) = take_bit 8 d" by (simp add: take_bit_eq_mask mask_numeral)
  have low: "unat (ucast (d AND 0xFF) :: u8) = unat d mod 256"
    by (simp add: m unsigned_ucast_eq unsigned_take_bit_eq take_bit_eq_mod unat_mod)
  have "unat d < 2 ^ 16" using unsigned_less [of d] by simp
  then have high: "unat (ucast (drop_bit 8 d) :: u8) = unat d div 256"
    by (simp add: unsigned_ucast_eq unsigned_drop_bit_eq take_bit_eq_mod drop_bit_eq_div unat_div)
  show ?thesis by (simp add: reload_value_def low high)
qed

end
