(* ===== verification/Vga.thy ===== *)
theory Vga
  imports Machine
begin

text \<open>
  The text console of \<open>vga.c\<close>. The video memory at 0xB8000 is device memory, not RAM: it
  is the cell array \<open>vga_buff\<close>, indexed by the 16-bit cursor exactly as the code indexes it,
  so that a write past the 2000 cells of the screen is a write to cell 2000 or later and can
  be seen. \<open>vga_index\<close> and \<open>vga_limit\<close> are the globals of the same names.
\<close>

section \<open>State\<close>

record vga = machine +
  vga_buff :: "u16 \<Rightarrow> u16"
  vga_index :: u16
  vga_limit :: u16

definition default_color :: u8 where "default_color = 0x0F"
definition green_color :: u8 where "green_color = 0x0A"
definition red_color :: u8 where "red_color = 0x0C"
definition cyan_color :: u8 where "cyan_color = 0x03"

lemmas color_defs = default_color_def green_color_def red_color_def cyan_color_def

text \<open>
  \<open>(color << 8) | c\<close> in \<open>int\<close> arithmetic, cut to 16 bits. The \<open>char\<close> operand is
  signed, so it is sign-extended: from 0x80 on it overwrites the colour byte with ones.
\<close>

definition cell :: "u8 \<Rightarrow> u8 \<Rightarrow> u16" where
  "cell color c = push_bit 8 (ucast color) OR scast c"

definition newline :: u8 where "newline = 0x0A"
definition backspace :: u8 where "backspace = 0x08"
definition space :: u8 where "space = 0x20"

lemmas ctrl_defs = newline_def backspace_def space_def

section \<open>Operations\<close>

definition vga_lock_cursor :: "'a vga_scheme \<Rightarrow> 'a vga_scheme" where
  "vga_lock_cursor s = s\<lparr>vga_limit := vga_index s\<rparr>"

definition vga_clear_screen :: "'a vga_scheme \<Rightarrow> 'a vga_scheme" where
  "vga_clear_screen s =
     s\<lparr>vga_buff := fold (\<lambda>i b. b(of_nat i := cell default_color space)) [0..<2000] (vga_buff s),
       vga_index := 0\<rparr>"

text \<open>The two loops that scroll the screen up by a row.\<close>

definition shift_cells :: "nat \<Rightarrow> (u16 \<Rightarrow> u16) \<Rightarrow> (u16 \<Rightarrow> u16)" where
  "shift_cells n b = fold (\<lambda>i b. b(of_nat i := b (of_nat (i + 80)))) [0..<n] b"

definition shift_rows :: "(u16 \<Rightarrow> u16) \<Rightarrow> (u16 \<Rightarrow> u16)" where
  "shift_rows b = shift_cells (24 * 80) b"

definition wipe_last_row :: "u8 \<Rightarrow> (u16 \<Rightarrow> u16) \<Rightarrow> (u16 \<Rightarrow> u16)" where
  "wipe_last_row color b = fold (\<lambda>i b. b(of_nat i := cell color space)) [24 * 80..<2000] b"

definition scroll :: "u8 \<Rightarrow> 'a vga_scheme \<Rightarrow> 'a vga_scheme" where
  "scroll color s =
     (if vga_index s \<ge> 2000
      then s\<lparr>vga_buff := wipe_last_row color (shift_rows (vga_buff s)), vga_index := 24 * 80\<rparr>
      else s)"

text \<open>The \<open>if\<close> chain of \<open>vga_print_char_color\<close> and of the loop in \<open>vga_print_color\<close>.\<close>

definition place :: "u8 \<Rightarrow> u8 \<Rightarrow> 'a vga_scheme \<Rightarrow> 'a vga_scheme" where
  "place c color s =
     (if c = newline then s\<lparr>vga_index := (vga_index s div 80 + 1) * 80\<rparr>
      else if c = backspace then
        (if vga_index s > vga_limit s
         then s\<lparr>vga_index := vga_index s - 1,
                vga_buff := (vga_buff s)(vga_index s - 1 := cell color space)\<rparr>
         else s)
      else s\<lparr>vga_buff := (vga_buff s)(vga_index s := cell color c),
             vga_index := vga_index s + 1\<rparr>)"

definition vga_print_char_color :: "u8 \<Rightarrow> u8 \<Rightarrow> 'a vga_scheme \<Rightarrow> 'a vga_scheme" where
  "vga_print_char_color c color s = scroll color (place c color s)"

fun vga_print_color :: "u8 list \<Rightarrow> u8 \<Rightarrow> 'a vga_scheme \<Rightarrow> 'a vga_scheme" where
  "vga_print_color [] color s = s"
| "vga_print_color (c # str) color s =
     (if c = 0 then s else vga_print_color str color (scroll color (place c color s)))"

definition vga_print :: "u8 list \<Rightarrow> 'a vga_scheme \<Rightarrow> 'a vga_scheme" where
  "vga_print str s = vga_print_color str default_color s"

text \<open>\<open>hex_str\<close> starts as the 11 bytes of the initializer; digits are stored from index 9 down.\<close>

definition hex_digits :: "u8 list" where
  "hex_digits = lit ''0123456789ABCDEF''"

definition hex_str :: "u32 \<Rightarrow> u8 list" where
  "hex_str num = fst (fold (\<lambda>i (str, num).
       let nibble = ucast (num AND 0x0F) :: u8
       in (str[i := hex_digits ! unat nibble], drop_bit 4 num))
     [9, 8, 7, 6, 5, 4, 3, 2] (lit ''0x00000000'' @ [0], num))"

definition vga_hex_print :: "u32 \<Rightarrow> 'a vga_scheme \<Rightarrow> 'a vga_scheme" where
  "vga_hex_print num s = vga_print (hex_str num) s"

definition vga_print_hex_64 :: "u64 \<Rightarrow> 'a vga_scheme \<Rightarrow> 'a vga_scheme" where
  "vga_print_hex_64 num s =
     (let high = ucast (drop_bit 32 num) :: u32;
          low = ucast (num AND 0xFFFFFFFF) :: u32
      in vga_hex_print low (vga_hex_print high (vga_print (lit '''') s)))"

text \<open>The digits of \<open>vga_print_dec\<close>, least significant first, as \<open>buffer[0..i-1]\<close>.\<close>

function dec_buffer :: "u32 \<Rightarrow> u8 list" where
  "dec_buffer num = (if num > 0 then (ucast (num mod 10) + 0x30) # dec_buffer (num div 10) else [])"
  by pat_completeness auto
termination
proof (relation "measure unat")
  fix num :: u32 assume "num > 0"
  then have "0 < unat num" by (simp add: word_less_nat_alt)
  then show "(num div 10, num) \<in> measure unat" by (simp add: unat_div)
qed simp

declare dec_buffer.simps [simp del]

lemma dec_buffer_0 [simp]: "dec_buffer 0 = []"
  by (subst dec_buffer.simps) simp

fun print_chars :: "u8 list \<Rightarrow> 'a vga_scheme \<Rightarrow> 'a vga_scheme" where
  "print_chars [] s = s"
| "print_chars (c # cs) s = print_chars cs (vga_print [c, 0] s)"

definition vga_print_dec :: "u32 \<Rightarrow> 'a vga_scheme \<Rightarrow> 'a vga_scheme" where
  "vga_print_dec num s =
     (if num = 0 then vga_print (lit ''0'') s else print_chars (rev (dec_buffer num)) s)"

definition klog_ok :: "u8 list \<Rightarrow> 'a vga_scheme \<Rightarrow> 'a vga_scheme" where
  "klog_ok message s = vga_print_color (lit ''\<newline>'') default_color
     (vga_print_color message default_color (vga_print_color (lit ''[OK] '') green_color s))"

definition klog_err :: "u8 list \<Rightarrow> 'a vga_scheme \<Rightarrow> 'a vga_scheme" where
  "klog_err message s = vga_print_color (lit ''\<newline>'') default_color
     (vga_print_color message default_color (vga_print_color (lit ''[!] '') red_color s))"

definition os_greeting :: "u8 list \<Rightarrow> 'a vga_scheme \<Rightarrow> 'a vga_scheme" where
  "os_greeting message s = vga_print_color (lit ''\<newline>'') default_color
     (vga_print_color message cyan_color s)"

section \<open>The loops in closed form\<close>

lemma of_nat_eq16: "i < 65536 \<Longrightarrow> (c :: u16) = of_nat i \<longleftrightarrow> unat c = i"
  by (auto simp: unat_of_nat)

lemma fill16:
  "n \<le> 65536 \<Longrightarrow> fold (\<lambda>i b. b(of_nat i := v)) [k..<n] b (c :: u16) =
     (if k \<le> unat c \<and> unat c < n then v else b c)"
proof (induction n)
  case 0
  then show ?case by simp
next
  case (Suc n)
  then show ?case by (auto simp: of_nat_eq16 less_Suc_eq not_less)
qed

lemma shift_cells_apply:
  "n \<le> 1920 \<Longrightarrow> shift_cells n b c = (if unat c < n then b (c + 80) else b c)"
proof (induction n arbitrary: c)
  case 0
  then show ?case by (simp add: shift_cells_def)
next
  case (Suc n)
  have u: "unat (of_nat (n + 80) :: u16) = n + 80"
    using Suc.prems by (simp add: unat_of_nat del: of_nat_add of_nat_numeral)
  have IH: "shift_cells n b c = (if unat c < n then b (c + 80) else b c)" for c
    by (rule Suc.IH) (use Suc.prems in simp)
  have "shift_cells (Suc n) b = (shift_cells n b)(of_nat n := shift_cells n b (of_nat (n + 80)))"
    by (simp add: shift_cells_def)
  moreover have "c = of_nat n \<Longrightarrow> of_nat (n + 80) = c + 80" by simp
  ultimately show ?case
    using Suc.prems by (auto simp: IH u of_nat_eq16 less_Suc_eq simp del: of_nat_add of_nat_numeral)
qed

lemma shift_rows_apply: "shift_rows b c = (if unat c < 1920 then b (c + 80) else b c)"
  by (simp add: shift_rows_def shift_cells_apply)

lemma wipe_last_row_apply:
  "wipe_last_row color b c =
     (if 1920 \<le> unat c \<and> unat c < 2000 then cell color space else b c)"
  unfolding wipe_last_row_def using fill16 [of 2000 "cell color space" "24 * 80" b c] by simp

lemma clear_apply:
  "vga_buff (vga_clear_screen s) c =
     (if unat c < 2000 then cell default_color space else vga_buff s c)"
  unfolding vga_clear_screen_def using fill16 [of 2000 "cell default_color space" 0 "vga_buff s" c]
  by simp

lemma clear_frame [simp, frame]:
  "mem (vga_clear_screen s) = mem s" "out_log (vga_clear_screen s) = out_log s"
  "vga_index (vga_clear_screen s) = 0" "vga_limit (vga_clear_screen s) = vga_limit s"
  "vga.more (vga_clear_screen s) = vga.more s"
  by (simp_all add: vga_clear_screen_def)

lemma lock_frame [simp, frame]:
  "mem (vga_lock_cursor s) = mem s" "out_log (vga_lock_cursor s) = out_log s"
  "vga_buff (vga_lock_cursor s) = vga_buff s" "vga_index (vga_lock_cursor s) = vga_index s"
  "vga_limit (vga_lock_cursor s) = vga_index s"
  "vga.more (vga_lock_cursor s) = vga.more s"
  by (simp_all add: vga_lock_cursor_def)

lemma print_char_is_loop_body: "vga_print_char_color c color s = scroll color (place c color s)"
  by (simp add: vga_print_char_color_def)

section \<open>What every printing routine keeps\<close>

text \<open>
  All text output goes through one character step. A property of the state that this step
  keeps is kept by every printing routine; it is proved once for each routine here, and used
  for the screen bounds and for the parts of the state that printing leaves alone.
\<close>

locale console_invariant =
  fixes I :: "'a vga_scheme \<Rightarrow> bool"
  assumes step: "I s \<Longrightarrow> I (scroll k (place c k s))"
begin

lemma print_color: "I s \<Longrightarrow> I (vga_print_color str k s)"
  by (induction str k s rule: vga_print_color.induct) (auto intro: step)

lemma print: "I s \<Longrightarrow> I (vga_print str s)"
  by (simp add: vga_print_def print_color)

lemma hex_print: "I s \<Longrightarrow> I (vga_hex_print n s)"
  by (simp add: vga_hex_print_def print)

lemma hex_64: "I s \<Longrightarrow> I (vga_print_hex_64 n s)"
  by (simp add: vga_print_hex_64_def Let_def print hex_print)

lemma chars: "I s \<Longrightarrow> I (print_chars cs s)"
  by (induction cs s rule: print_chars.induct) (auto intro: print)

lemma dec: "I s \<Longrightarrow> I (vga_print_dec n s)"
  by (simp add: vga_print_dec_def print chars)

lemma ok: "I s \<Longrightarrow> I (klog_ok m s)"
  by (simp add: klog_ok_def print_color)

lemma err: "I s \<Longrightarrow> I (klog_err m s)"
  by (simp add: klog_err_def print_color)

lemma greeting: "I s \<Longrightarrow> I (os_greeting m s)"
  by (simp add: os_greeting_def print_color)

lemma char_color: "I s \<Longrightarrow> I (vga_print_char_color c k s)"
  by (simp add: vga_print_char_color_def step)

end

text \<open>The cursor is on the screen, and the cells outside the screen are those of \<open>b\<close>.\<close>

definition on_screen :: "(u16 \<Rightarrow> u16) \<Rightarrow> 'a vga_scheme \<Rightarrow> bool" where
  "on_screen b s \<longleftrightarrow> vga_index s < 2000 \<and> (\<forall>i. 2000 \<le> i \<longrightarrow> vga_buff s i = b i)"

lemma next_row: "(i :: u16) < 2000 \<Longrightarrow> (i div 80 + 1) * 80 \<le> 2000 \<and> unat ((i div 80 + 1) * 80) = (unat i div 80 + 1) * 80"
proof -
  assume "i < 2000"
  then have "unat i div 80 < 25" by (simp add: word_less_nat_alt)
  then have "unat ((i div 80 + 1) * 80) = (unat i div 80 + 1) * 80"
    by (simp add: unat_word_ariths unat_div)
  then show ?thesis using \<open>unat i div 80 < 25\<close> by (simp add: word_le_nat_alt)
qed

lemma place_index: "vga_index s < 2000 \<Longrightarrow> vga_index (place c k s) \<le> 2000"
  using next_row [of "vga_index s"] unfolding place_def
  by simp (unat_arith)

lemma place_buff:
  "vga_index s < 2000 \<Longrightarrow> 2000 \<le> i \<Longrightarrow> vga_buff (place c k s) i = vga_buff s i"
  unfolding place_def by simp (unat_arith)

lemma on_screen_step: "on_screen b s \<Longrightarrow> on_screen b (scroll k (place c k s))"
proof -
  assume s: "on_screen b s"
  then have i: "vga_index (place c k s) \<le> 2000" and lt: "vga_index s < 2000"
    by (auto simp: on_screen_def place_index)
  have o: "vga_buff (place c k s) i = b i" if "2000 \<le> i" for i
    using s that by (auto simp: on_screen_def place_buff)
  show ?thesis using i
    by (auto simp: on_screen_def scroll_def o wipe_last_row_apply shift_rows_apply word_le_nat_alt
        word_less_nat_alt)
qed

interpretation scr: console_invariant "on_screen b" for b
  by unfold_locales (rule on_screen_step)

text \<open>Printing touches the video memory and the cursor only.\<close>

definition same_but_screen :: "'a vga_scheme \<Rightarrow> 'a vga_scheme \<Rightarrow> bool" where
  "same_but_screen s t \<longleftrightarrow> mem t = mem s \<and> out_log t = out_log s \<and> vga_limit t = vga_limit s
     \<and> vga.more t = vga.more s"

lemma same_but_screen_refl [simp]: "same_but_screen s s"
  by (simp add: same_but_screen_def)

lemma same_but_screen_step:
  "same_but_screen s t \<Longrightarrow> same_but_screen s (scroll k (place c k t))"
  by (simp add: same_but_screen_def scroll_def place_def)

interpretation fr: console_invariant "same_but_screen s" for s
  by unfold_locales (rule same_but_screen_step)

lemmas printing_leaves =
  fr.print_color [OF same_but_screen_refl, unfolded same_but_screen_def]
  fr.print [OF same_but_screen_refl, unfolded same_but_screen_def]
  fr.hex_print [OF same_but_screen_refl, unfolded same_but_screen_def]
  fr.hex_64 [OF same_but_screen_refl, unfolded same_but_screen_def]
  fr.dec [OF same_but_screen_refl, unfolded same_but_screen_def]
  fr.ok [OF same_but_screen_refl, unfolded same_but_screen_def]
  fr.err [OF same_but_screen_refl, unfolded same_but_screen_def]
  fr.greeting [OF same_but_screen_refl, unfolded same_but_screen_def]

declare printing_leaves [simp, frame]

section \<open>Plain text\<close>

definition plain :: "u8 \<Rightarrow> bool" where
  "plain c \<longleftrightarrow> c \<noteq> 0 \<and> c \<noteq> newline \<and> c \<noteq> backspace"

lemma place_plain:
  "plain c \<Longrightarrow> place c k s =
     s\<lparr>vga_buff := (vga_buff s)(vga_index s := cell k c), vga_index := vga_index s + 1\<rparr>"
  by (simp add: plain_def place_def)

lemma index_Suc: "unat (i :: u16) + 1 < 65536 \<Longrightarrow> unat (i + 1) = unat i + 1"
  by (simp add: unat_word_ariths)

lemma print_plain:
  "\<forall>c \<in> set str. plain c \<Longrightarrow> unat (vga_index s) + length str < 2000 \<Longrightarrow>
     unat (vga_index (vga_print_color str k s)) = unat (vga_index s) + length str \<and>
     (\<forall>i. vga_buff (vga_print_color str k s) i =
        (if unat (vga_index s) \<le> unat i \<and> unat i < unat (vga_index s) + length str
         then cell k (str ! (unat i - unat (vga_index s))) else vga_buff s i))"
proof (induction str arbitrary: s)
  case Nil
  then show ?case by auto
next
  case (Cons c str)
  define s1 where "s1 = place c k s"
  have c: "plain c" and c0: "c \<noteq> 0" using Cons.prems by (auto simp: plain_def)
  have i1: "unat (vga_index s1) = unat (vga_index s) + 1"
    using Cons.prems by (simp add: s1_def place_plain [OF c] index_Suc)
  have b1: "vga_buff s1 i = (if i = vga_index s then cell k c else vga_buff s i)" for i
    by (simp add: s1_def place_plain [OF c])
  have nosc: "scroll k s1 = s1"
    using i1 Cons.prems by (simp add: scroll_def word_le_nat_alt)
  have step: "vga_print_color (c # str) k s = vga_print_color str k s1"
    using c0 nosc by (simp add: s1_def)
  have IH: "unat (vga_index (vga_print_color str k s1)) = unat (vga_index s1) + length str \<and>
     (\<forall>i. vga_buff (vga_print_color str k s1) i =
        (if unat (vga_index s1) \<le> unat i \<and> unat i < unat (vga_index s1) + length str
         then cell k (str ! (unat i - unat (vga_index s1))) else vga_buff s1 i))"
    using Cons.prems i1 by (intro Cons.IH) auto
  have nth: "(c # str) ! (unat i - unat (vga_index s)) = str ! (unat i - (unat (vga_index s) + 1))"
    if "unat (vga_index s) < unat i" for i :: u16
    using that by (simp add: nth_Cons')
  show ?case unfolding step using IH i1
    by (auto simp: b1 nth word_unat_eq_iff)
qed

section \<open>The screen as a window on an unbounded text\<close>

text \<open>
  The abstract console is a text that is never cut: an unbounded row of cells, the position
  of the cursor in it, and the number of rows that have left the screen at the top. The screen
  displays the 25 rows from there on.
\<close>

record tape =
  cells :: "nat \<Rightarrow> u16"
  pos :: nat
  top :: nat

definition tape_scroll :: "u8 \<Rightarrow> tape \<Rightarrow> tape" where
  "tape_scroll k t =
     (if pos t \<ge> 80 * (top t + 25)
      then t\<lparr>top := top t + 1,
             cells := (\<lambda>i. if 80 * (top t + 25) \<le> i \<and> i < 80 * (top t + 26) then cell k space
                           else cells t i)\<rparr>
      else t)"

definition tape_put :: "nat \<Rightarrow> u8 \<Rightarrow> u8 \<Rightarrow> tape \<Rightarrow> tape" where
  "tape_put lim k c t = tape_scroll k
     (if c = newline then t\<lparr>pos := (pos t div 80 + 1) * 80\<rparr>
      else if c = backspace then
        (if pos t - 80 * top t > lim
         then t\<lparr>pos := pos t - 1, cells := (cells t)(pos t - 1 := cell k space)\<rparr> else t)
      else t\<lparr>cells := (cells t)(pos t := cell k c), pos := pos t + 1\<rparr>)"

fun tape_print :: "nat \<Rightarrow> u8 \<Rightarrow> u8 list \<Rightarrow> tape \<Rightarrow> tape" where
  "tape_print lim k [] t = t"
| "tape_print lim k (c # str) t = (if c = 0 then t else tape_print lim k str (tape_put lim k c t))"

definition displays :: "tape \<Rightarrow> 'a vga_scheme \<Rightarrow> bool" where
  "displays t s \<longleftrightarrow> 80 * top t + unat (vga_index s) = pos t \<and> unat (vga_index s) < 2000 \<and>
     (\<forall>i. unat i < 2000 \<longrightarrow> vga_buff s i = cells t (80 * top t + unat i))"

text \<open>Before the scroll check the cursor may stand just below the last row.\<close>

definition displays_pre :: "tape \<Rightarrow> 'a vga_scheme \<Rightarrow> bool" where
  "displays_pre t s \<longleftrightarrow> 80 * top t + unat (vga_index s) = pos t \<and> unat (vga_index s) \<le> 2000 \<and>
     (\<forall>i. unat i < 2000 \<longrightarrow> vga_buff s i = cells t (80 * top t + unat i))"

lemma displays_scroll:
  assumes "displays_pre t s"
  shows "displays (tape_scroll k t) (scroll k s)"
proof (cases "unat (vga_index s) = 2000")
  case False
  with assms have "unat (vga_index s) < 2000" by (simp add: displays_pre_def)
  then show ?thesis using assms
    by (simp add: displays_pre_def displays_def tape_scroll_def scroll_def word_le_nat_alt)
next
  case True
  have up: "unat (i + 80) = unat i + 80" if "unat i < 1920" for i :: u16
    using that by (simp add: unat_word_ariths)
  have b: "vga_buff s i = cells t (80 * top t + unat i)" if "unat i < 2000" for i
    using assms that by (simp add: displays_pre_def)
  have p: "pos t = 80 * top t + 2000" using assms True by (simp add: displays_pre_def)
  have u: "unat (1920 :: u16) = 1920" by simp
  have sc: "scroll k s = s\<lparr>vga_buff := wipe_last_row k (shift_rows (vga_buff s)), vga_index := 1920\<rparr>"
    using True by (simp add: scroll_def word_le_nat_alt)
  have ts: "tape_scroll k t = t\<lparr>top := top t + 1, cells := (\<lambda>i. if 80 * (top t + 25) \<le> i \<and>
      i < 80 * (top t + 26) then cell k space else cells t i)\<rparr>"
    by (simp add: tape_scroll_def p)
  have "wipe_last_row k (shift_rows (vga_buff s)) i =
      (if 80 * (top t + 25) \<le> 80 * (top t + 1) + unat i \<and> 80 * (top t + 1) + unat i < 80 * (top t + 26)
       then cell k space else cells t (80 * (top t + 1) + unat i))" if "unat i < 2000" for i
    using that by (auto simp: wipe_last_row_apply shift_rows_apply b up add_ac)
  then show ?thesis unfolding displays_def sc ts by (simp add: p u del: unsigned_numeral)
qed

lemma displays_put:
  assumes "displays t s"
  shows "displays (tape_put (unat (vga_limit s)) k c t) (scroll k (place c k s))"
proof -
  have p: "pos t = 80 * top t + unat (vga_index s)" and i: "unat (vga_index s) < 2000"
    and b: "\<And>i. unat i < 2000 \<Longrightarrow> vga_buff s i = cells t (80 * top t + unat i)"
    using assms by (auto simp: displays_def)
  have nl: "unat ((vga_index s div 80 + 1) * 80) = (unat (vga_index s) div 80 + 1) * 80"
    using next_row [of "vga_index s"] i by (simp add: word_less_nat_alt)
  have le: "(unat (vga_index s) div 80 + 1) * 80 \<le> 2000"
  proof -
    have "unat (vga_index s) div 80 < 25" using i by simp
    then show ?thesis by simp
  qed
  have bs: "unat (vga_index s - 1) = unat (vga_index s) - 1" if "vga_limit s < vga_index s"
    using that by (simp add: unat_sub word_less_nat_alt word_le_nat_alt)
  have inc: "unat (vga_index s + 1) = unat (vga_index s) + 1"
    using i by (simp add: index_Suc)
  have lim: "unat (vga_limit s) < unat (vga_index s) \<longleftrightarrow> vga_limit s < vga_index s"
    by (simp add: word_less_nat_alt)
  let ?t = "if c = newline then t\<lparr>pos := (pos t div 80 + 1) * 80\<rparr>
      else if c = backspace then
        (if pos t - 80 * top t > unat (vga_limit s)
         then t\<lparr>pos := pos t - 1, cells := (cells t)(pos t - 1 := cell k space)\<rparr> else t)
      else t\<lparr>cells := (cells t)(pos t := cell k c), pos := pos t + 1\<rparr>"
  have "displays_pre ?t (place c k s)"
  proof -
    consider "c = newline" | "c = backspace" "c \<noteq> newline" "vga_limit s < vga_index s"
      | "c = backspace" "c \<noteq> newline" "\<not> vga_limit s < vga_index s" | "c \<noteq> newline" "c \<noteq> backspace" by blast
    then show ?thesis
    proof cases
      case 1
      then show ?thesis using nl le b by (simp add: displays_pre_def place_def p)
    next
      case 2
      moreover from 2 have "0 < unat (vga_index s)" by (simp add: word_less_nat_alt)
      ultimately show ?thesis using i b bs lim
        by (auto simp: displays_pre_def place_def p word_unat_eq_iff)
    next
      case 3
      then show ?thesis using i b lim by (simp add: displays_pre_def place_def p)
    next
      case 4
      then show ?thesis using i b inc by (auto simp: displays_pre_def place_def p word_unat_eq_iff)
    qed
  qed
  then show ?thesis unfolding tape_put_def by (rule displays_scroll)
qed

lemma place_limit [simp]: "vga_limit (scroll k (place c k s)) = vga_limit s"
  by (simp add: scroll_def place_def)

lemma displays_print:
  "displays t s \<Longrightarrow> displays (tape_print (unat (vga_limit s)) k str t) (vga_print_color str k s)"
proof (induction str k s arbitrary: t rule: vga_print_color.induct)
  case (1 k s)
  then show ?case by simp
next
  case (2 c str k s)
  then show ?case using displays_put [of t s k c] by auto
qed

lemma tape_put_history:
  "80 * top t \<le> pos t \<Longrightarrow> i < 80 * top t \<Longrightarrow>
     cells (tape_put lim k c t) i = cells t i \<and> top t \<le> top (tape_put lim k c t) \<and>
     80 * top (tape_put lim k c t) \<le> pos (tape_put lim k c t)"
  by (auto simp: tape_put_def tape_scroll_def)

section \<open>Numbers as text\<close>

lemma print_color_append:
  "0 \<notin> set a \<Longrightarrow> vga_print_color (a @ b) k s = vga_print_color b k (vga_print_color a k s)"
  by (induction a arbitrary: s) auto

lemma print_chars_string: "0 \<notin> set cs \<Longrightarrow> print_chars cs s = vga_print cs s"
proof (induction cs arbitrary: s)
  case Nil
  then show ?case by (simp add: vga_print_def)
next
  case (Cons c cs)
  then show ?case by (simp add: vga_print_def)
qed

text \<open>The number a string of decimal digits denotes.\<close>

definition dec_value :: "u8 list \<Rightarrow> nat" where
  "dec_value ds = foldl (\<lambda>v d. 10 * v + (unat d - 48)) 0 ds"

definition dec_digit :: "u8 \<Rightarrow> bool" where
  "dec_digit d \<longleftrightarrow> 48 \<le> unat d \<and> unat d \<le> 57"

lemma dec_value_snoc: "dec_value (ds @ [d]) = 10 * dec_value ds + (unat d - 48)"
  by (simp add: dec_value_def)

lemma digit_byte: "unat (ucast (n mod 10 :: u32) + 0x30 :: u8) = unat n mod 10 + 48"
proof -
  have "unat n mod 10 < 10" by simp
  then have "unat n mod 10 < 256" and "unat n mod 10 + 48 < 256" by linarith+
  then show ?thesis
    by (simp add: unat_word_ariths unsigned_ucast_eq unat_mod take_bit_eq_mod)
qed

lemma dec_value_buffer: "dec_value (rev (dec_buffer n)) = unat n"
proof (induction n rule: dec_buffer.induct)
  case (1 n)
  show ?case
  proof (cases "n > 0")
    case True
    with 1 have "dec_value (rev (dec_buffer (n div 10))) = unat n div 10" by (simp add: unat_div)
    with True show ?thesis
      by (simp add: dec_buffer.simps [of n] dec_value_snoc digit_byte)
  next
    case False
    then have "n = 0" by (auto simp: word_gt_0)
    then show ?thesis by (simp add: dec_value_def)
  qed
qed

lemma dec_buffer_digits: "d \<in> set (dec_buffer n) \<Longrightarrow> dec_digit d"
proof (induction n rule: dec_buffer.induct)
  case (1 n)
  then show ?case
    by (auto simp: dec_buffer.simps [of n] dec_digit_def digit_byte split: if_splits)
qed

lemma dec_buffer_length: "unat n < 10 ^ k \<Longrightarrow> length (dec_buffer n) \<le> k"
proof (induction k arbitrary: n)
  case 0
  then show ?case by (simp add: unat_eq_0)
next
  case (Suc k)
  from Suc.prems have "unat (n div 10) < 10 ^ k" by (simp add: unat_div less_mult_imp_div_less)
  then have "length (dec_buffer (n div 10)) \<le> k" by (rule Suc.IH)
  then show ?case by (simp add: dec_buffer.simps [of n])
qed

lemma dec_buffer_leading: "n > 0 \<Longrightarrow> dec_buffer n \<noteq> [] \<and> unat (last (dec_buffer n)) \<noteq> 48"
proof (induction n rule: dec_buffer.induct)
  case (1 n)
  show ?case
  proof (cases "n div 10 > 0")
    case True
    with 1 show ?thesis by (simp add: dec_buffer.simps [of n])
  next
    case False
    then have "unat (n div 10) = 0" by (simp add: word_less_nat_alt)
    then have "unat n < 10" by (simp add: unat_div)
    moreover have "0 < unat n" using "1.prems" by (simp add: word_less_nat_alt)
    ultimately have "unat n mod 10 \<noteq> 0" by simp
    with False "1.prems" show ?thesis
      by (simp add: dec_buffer.simps [of n] dec_buffer.simps [of "n div 10"] digit_byte)
  qed
qed

text \<open>The text that \<open>vga_print_dec\<close> prints.\<close>

definition dec_text :: "u32 \<Rightarrow> u8 list" where
  "dec_text n = (if n = 0 then lit ''0'' else rev (dec_buffer n))"

lemma print_dec_text: "vga_print_dec n s = vga_print (dec_text n) s"
proof -
  have "0 \<notin> set (rev (dec_buffer n))" using dec_buffer_digits [of 0 n] by (auto simp: dec_digit_def)
  then show ?thesis by (simp add: vga_print_dec_def dec_text_def print_chars_string)
qed

text \<open>The eight hexadecimal digits, most significant first.\<close>

lemma hex_digits_simps:
  "hex_digits = [0x30, 0x31, 0x32, 0x33, 0x34, 0x35, 0x36, 0x37, 0x38, 0x39,
     0x41, 0x42, 0x43, 0x44, 0x45, 0x46]"
  by (simp add: hex_digits_def lit_def)

definition hex_digit_at :: "u32 \<Rightarrow> nat \<Rightarrow> u8" where
  "hex_digit_at n k = hex_digits ! unat (drop_bit (4 * k) n AND 0x0F)"

lemma nibble_bound: "unat (x AND 0x0F :: u32) < 16"
proof -
  have "x AND 0x0F \<le> (0x0F :: u32)" by (rule word_and_le1)
  then show ?thesis by (simp add: word_le_nat_alt)
qed

lemma nibble_cast: "unat (ucast (x AND 0x0F :: u32) :: u8) = unat (x AND 0x0F)"
  using nibble_bound [of x] by (simp add: unsigned_ucast_eq take_bit_eq_mod)

lemma hex_str_digits:
  "hex_str n = lit ''0x'' @ map (hex_digit_at n) [7, 6, 5, 4, 3, 2, 1, 0] @ [0]"
  by (simp add: hex_str_def hex_digit_at_def lit_def nibble_cast Let_def)

section \<open>What the console does not see\<close>

text \<open>A change of the state that the console neither sees nor undoes.\<close>

locale console_stranger =
  fixes f :: "'a vga_scheme \<Rightarrow> 'a vga_scheme"
  assumes reads: "vga_buff (f s) = vga_buff s" "vga_index (f s) = vga_index s" "vga_limit (f s) = vga_limit s"
    and writes: "f (s\<lparr>vga_buff := b\<rparr>) = (f s)\<lparr>vga_buff := b\<rparr>" "f (s\<lparr>vga_index := i\<rparr>) = (f s)\<lparr>vga_index := i\<rparr>"
      "f (s\<lparr>vga_limit := i\<rparr>) = (f s)\<lparr>vga_limit := i\<rparr>"
begin

lemma place: "place c k (f s) = f (place c k s)"
  by (simp add: place_def reads writes)

lemma scroll: "scroll k (f s) = f (scroll k s)"
  by (simp add: scroll_def reads writes)

lemma print_color: "vga_print_color str k (f s) = f (vga_print_color str k s)"
  by (induction str k s rule: vga_print_color.induct) (simp_all add: place scroll)

lemma print: "vga_print str (f s) = f (vga_print str s)"
  by (simp add: vga_print_def print_color)

lemma clear: "vga_clear_screen (f s) = f (vga_clear_screen s)"
  by (simp add: vga_clear_screen_def reads writes)

lemma lock: "vga_lock_cursor (f s) = f (vga_lock_cursor s)"
  by (simp add: vga_lock_cursor_def reads writes)

lemmas console = print_color print clear lock

end

section \<open>Properties\<close>

text \<open>With the cursor on the screen, no text of any colour, number or log message leaves the
  80 by 25 screen: the cursor stays below 2000 and no cell past the screen is written.\<close>

theorem printing_stays_on_screen:
  assumes "vga_index s < 2000"
  shows "vga_index (vga_print_color str color s) < 2000 \<and>
     (\<forall>i. 2000 \<le> i \<longrightarrow> vga_buff (vga_print_color str color s) i = vga_buff s i) \<and>
     vga_index (vga_print_dec n s) < 2000 \<and>
     (\<forall>i. 2000 \<le> i \<longrightarrow> vga_buff (vga_print_dec n s) i = vga_buff s i) \<and>
     vga_index (vga_print_hex_64 x s) < 2000 \<and>
     (\<forall>i. 2000 \<le> i \<longrightarrow> vga_buff (vga_print_hex_64 x s) i = vga_buff s i)"
proof -
  have "on_screen (vga_buff s) s" using assms by (simp add: on_screen_def)
  from scr.print_color [OF this] scr.dec [OF this] scr.hex_64 [OF this] show ?thesis
    by (simp add: on_screen_def)
qed

definition blank_screen :: vga where
  "blank_screen = vga_clear_screen
     \<lparr>mem = (\<lambda>_. 0), out_log = [], vga_buff = (\<lambda>_. 0), vga_index = 7, vga_limit = 0\<rparr>"

lemma blank_screen_cursor: "vga_index blank_screen = 0" "vga_limit blank_screen = 0"
  by (simp_all add: blank_screen_def)

theorem printing_stays_on_screen_witness:
  "vga_index (vga_print_color (lit ''hello'') 0x0F blank_screen) < 2000 \<and>
     vga_buff (vga_print_color (lit ''hello'') 0x0F blank_screen) 2000 = vga_buff blank_screen 2000"
  using printing_stays_on_screen [of blank_screen "lit ''hello''" "0x0F"]
  by (simp add: blank_screen_cursor)

text \<open>C16: The screen is a window on an unbounded text: if it shows the rows of a text from row
  \<open>top\<close> on, then after printing any string it shows the text that a terminal without a
  last row would hold, from its new top row on. Scrolling loses no character and moves none
  but by whole rows.\<close>

theorem screen_refines_tape:
  assumes "displays t s"
  shows "displays (tape_print (unat (vga_limit s)) color str t) (vga_print_color str color s)"
  using assms by (rule displays_print)

definition blank_tape :: tape where
  "blank_tape = \<lparr>cells = (\<lambda>_. cell default_color space), pos = 0, top = 0\<rparr>"

lemma blank_displays: "displays blank_tape blank_screen"
  by (simp add: displays_def blank_tape_def blank_screen_def clear_apply)

theorem screen_refines_tape_witness:
  "displays (tape_print 0 0x0A (lit ''ok'') blank_tape) (vga_print_color (lit ''ok'') 0x0A blank_screen)"
  using screen_refines_tape [OF blank_displays, of "0x0A" "lit ''ok''"] by (simp add: blank_screen_cursor)

text \<open>\<open>vga_print_dec\<close> prints the decimal numeral of its argument: at least one and at most
  ten digits (so the eleven-byte buffer is never overrun), whose value is the number, with no
  leading zero unless the number is 0.\<close>

theorem vga_print_dec_correct:
  "vga_print_dec n s = vga_print (dec_text n) s \<and> dec_value (dec_text n) = unat n \<and>
     dec_text n \<noteq> [] \<and> length (dec_text n) \<le> 10 \<and> length (dec_buffer n) < 11 \<and>
     list_all dec_digit (dec_text n) \<and> (0 < n \<longrightarrow> unat (hd (dec_text n)) \<noteq> 48)"
proof -
  have "unat n < 10 ^ 10" using unat_less_32 [of n] by simp
  then have len: "length (dec_buffer n) \<le> 10" by (rule dec_buffer_length)
  have z: "dec_value (lit ''0'') = 0" "list_all dec_digit (lit ''0'')" "lit ''0'' \<noteq> []"
    "length (lit ''0'') = 1"
    by (simp_all add: dec_value_def lit_def dec_digit_def)
  show ?thesis
  proof (cases "n = 0")
    case True
    then show ?thesis using z by (simp add: print_dec_text dec_text_def dec_buffer.simps [of 0])
  next
    case False
    then have "n > 0" by (auto simp: word_gt_0)
    then show ?thesis using len dec_buffer_leading [of n] dec_buffer_digits [of _ n]
      by (auto simp: print_dec_text dec_text_def dec_value_buffer list_all_iff hd_rev)
  qed
qed

theorem vga_print_dec_correct_witness:
  "dec_value (dec_text 2048) = 2048 \<and> unat (hd (dec_text 2048)) \<noteq> 48"
  using vga_print_dec_correct [of 2048 blank_screen] by simp

end
