(* ===== verification/Pmm.thy ===== *)
theory Pmm
  imports Vga
begin

text \<open>
  The physical memory manager of \<open>pmm.c\<close>: a bitmap of 32-bit words in memory at
  \<open>pmm_bitmap\<close> (the linker's \<open>_kernel_end\<close>), one bit for each 4096-byte block, set when
  the block is in use. The bitmap is read and written in the kernel's memory, so a write past
  its end is a write to the bytes that follow it.
\<close>

section \<open>State and operations\<close>

record pmm = vga +
  total_blocks :: u32
  used_blocks :: u32
  pmm_bitmap :: u32

definition BLOCK_SIZE :: u32 where "BLOCK_SIZE = 4096"

text \<open>\<open>pmm_bitmap[i]\<close>, read and written.\<close>

definition bitmap_word :: "'a pmm_scheme \<Rightarrow> u32 \<Rightarrow> u32" where
  "bitmap_word s i = load32 (mem s) (pmm_bitmap s + 4 * i)"

definition set_bitmap_word :: "u32 \<Rightarrow> u32 \<Rightarrow> 'a pmm_scheme \<Rightarrow> 'a pmm_scheme" where
  "set_bitmap_word i w s = s\<lparr>mem := store32 (mem s) (pmm_bitmap s + 4 * i) w\<rparr>"

definition pmm_init :: "u32 \<Rightarrow> u32 \<Rightarrow> 'a pmm_scheme \<Rightarrow> 'a pmm_scheme" where
  "pmm_init kernel_end_addr total_ram_size s =
     (let total = total_ram_size div BLOCK_SIZE;
          bitmap_array_length = total div 32
      in s\<lparr>total_blocks := total,
           pmm_bitmap := kernel_end_addr,
           mem := fill32 kernel_end_addr (unat bitmap_array_length) (\<lambda>_. 0xFFFFFFFF) (mem s),
           used_blocks := total\<rparr>)"

definition pmm_get_used_blocks :: "'a pmm_scheme \<Rightarrow> u32" where
  "pmm_get_used_blocks s = used_blocks s"

definition pmm_get_total_blocks :: "'a pmm_scheme \<Rightarrow> u32" where
  "pmm_get_total_blocks s = total_blocks s"

definition pmm_free_memory :: "u32 \<Rightarrow> 'a pmm_scheme \<Rightarrow> 'a pmm_scheme" where
  "pmm_free_memory physical_address s =
     (let block_index = physical_address div BLOCK_SIZE
      in if block_index \<ge> total_blocks s then s
         else let i = block_index div 32; bit_position = block_index mod 32
              in if bitmap_word s i AND bit32 bit_position = 0 then s
                 else let s = set_bitmap_word i (bitmap_word s i AND NOT (bit32 bit_position)) s
                      in s\<lparr>used_blocks := used_blocks s - 1\<rparr>)"

text \<open>The nested loops of \<open>pmm_first_free\<close>: the words from index \<open>i\<close> on, then the bits of one.\<close>

definition first_zero_bit :: "u32 \<Rightarrow> nat option" where
  "first_zero_bit w = find (\<lambda>j. w AND bit32 (of_nat j) = 0) [0..<32]"

fun scan_words :: "'a pmm_scheme \<Rightarrow> nat list \<Rightarrow> u32" where
  "scan_words s [] = 0xFFFFFFFF"
| "scan_words s (i # is) =
     (if bitmap_word s (of_nat i) \<noteq> 0xFFFFFFFF
      then (case first_zero_bit (bitmap_word s (of_nat i)) of
              Some j \<Rightarrow> of_nat i * 32 + of_nat j
            | None \<Rightarrow> scan_words s is)
      else scan_words s is)"

definition pmm_first_free :: "'a pmm_scheme \<Rightarrow> u32" where
  "pmm_first_free s = scan_words s [0..<unat (total_blocks s div 32)]"

definition pmm_alloc_block :: "'a pmm_scheme \<Rightarrow> u32 \<times> 'a pmm_scheme" where
  "pmm_alloc_block s =
     (let index = pmm_first_free s
      in if index = 0xFFFFFFFF then (0xFFFFFFFF, s)
         else let s = set_bitmap_word (index div 32)
                        (bitmap_word s (index div 32) OR bit32 (index mod 32)) s;
                  s = s\<lparr>used_blocks := used_blocks s + 1\<rparr>
              in (index * BLOCK_SIZE, s))"

definition pmm_lock_memory :: "u32 \<Rightarrow> 'a pmm_scheme \<Rightarrow> 'a pmm_scheme" where
  "pmm_lock_memory physical_address s =
     (let block_index = physical_address div BLOCK_SIZE;
          i = block_index div 32;
          bit_position = block_index mod 32;
          s = set_bitmap_word i (bitmap_word s i OR bit32 bit_position) s
      in s\<lparr>used_blocks := used_blocks s + 1\<rparr>)"

section \<open>Blocks by number\<close>

text \<open>
  Block numbers are below \<open>2^20\<close>, since addresses have 32 bits. \<open>in_use s b\<close> is bit \<open>b\<close> of
  the bitmap. The allocator scans whole words only, so the blocks it manages are the
  \<open>32 * (total div 32)\<close> first ones.
\<close>

definition in_use :: "'a pmm_scheme \<Rightarrow> nat \<Rightarrow> bool" where
  "in_use s b \<longleftrightarrow> bit (bitmap_word s (of_nat (b div 32))) (b mod 32)"

abbreviation block_of :: "u32 \<Rightarrow> nat" where
  "block_of a \<equiv> unat a div 4096"

definition managed :: "'a pmm_scheme \<Rightarrow> nat" where
  "managed s = 32 * (unat (total_blocks s) div 32)"

definition free_blocks :: "'a pmm_scheme \<Rightarrow> nat set" where
  "free_blocks s = {b. b < managed s \<and> \<not> in_use s b}"

definition pmm_ok :: "'a pmm_scheme \<Rightarrow> bool" where
  "pmm_ok s \<longleftrightarrow> unat (total_blocks s) < 2 ^ 20"

lemma finite_free_blocks [simp]: "finite (free_blocks s)"
  by (simp add: free_blocks_def)

lemma block_of_bound: "block_of a < 2 ^ 20"
  using unat_less_32 [of a] by simp

lemma unat_block: "unat (a div BLOCK_SIZE) = block_of a"
  by (simp add: BLOCK_SIZE_def unat_div)

lemma bitmap_word_set:
  assumes "i < 2 ^ 30" "j < 2 ^ 30"
  shows "bitmap_word (set_bitmap_word (of_nat i) w s) (of_nat j) =
     (if i = j then w else bitmap_word s (of_nat j))"
  using sep_array [OF assms]
  by (auto simp: bitmap_word_def set_bitmap_word_def load32_store32_sep)

lemma set_bitmap_word_frame [simp, frame]:
  "total_blocks (set_bitmap_word i w s) = total_blocks s"
  "used_blocks (set_bitmap_word i w s) = used_blocks s"
  "pmm_bitmap (set_bitmap_word i w s) = pmm_bitmap s"
  "pmm.more (set_bitmap_word i w s) = pmm.more s"
  by (simp_all add: set_bitmap_word_def)

lemma in_use_update_used [simp]: "in_use (s\<lparr>used_blocks := u\<rparr>) b = in_use s b"
  by (simp add: in_use_def bitmap_word_def)

lemma managed_update [simp]:
  "managed (s\<lparr>used_blocks := u\<rparr>) = managed s" "managed (set_bitmap_word i w s) = managed s"
  by (simp_all add: managed_def)

text \<open>Setting and clearing the bit of block \<open>b\<close>.\<close>

lemma in_use_set:
  assumes "b < 2 ^ 20" "c < 2 ^ 20"
  shows "in_use (set_bitmap_word (of_nat (b div 32))
      (bitmap_word s (of_nat (b div 32)) OR bit32 (of_nat (b mod 32))) s) c \<longleftrightarrow> c = b \<or> in_use s c"
proof -
  have "b div 32 < 2 ^ 30" "c div 32 < 2 ^ 30" using assms by simp_all
  moreover have "of_nat (b mod 32) < (32 :: u32)" "unat (of_nat (b mod 32) :: u32) = b mod 32"
    by (simp_all add: word_less_nat_alt unat_of_nat)
  moreover have "c = b \<longleftrightarrow> c div 32 = b div 32 \<and> c mod 32 = b mod 32"
    by (metis div_mult_mod_eq)
  ultimately show ?thesis
    by (auto simp: in_use_def bitmap_word_set bit_or_bit32)
qed

lemma in_use_clear:
  assumes "b < 2 ^ 20" "c < 2 ^ 20"
  shows "in_use (set_bitmap_word (of_nat (b div 32))
      (bitmap_word s (of_nat (b div 32)) AND NOT (bit32 (of_nat (b mod 32)))) s) c \<longleftrightarrow>
      c \<noteq> b \<and> in_use s c"
proof -
  have "b div 32 < 2 ^ 30" "c div 32 < 2 ^ 30" using assms by simp_all
  moreover have "unat (of_nat (b mod 32) :: u32) = b mod 32" by (simp add: unat_of_nat)
  moreover have "c = b \<longleftrightarrow> c div 32 = b div 32 \<and> c mod 32 = b mod 32"
    by (metis div_mult_mod_eq)
  ultimately show ?thesis
    by (auto simp: in_use_def bitmap_word_set bit_andnot_bit32)
qed

lemma index_split:
  "(a div BLOCK_SIZE) div 32 = of_nat (block_of a div 32)"
  "(a div BLOCK_SIZE) mod 32 = of_nat (block_of a mod 32)"
proof -
  have "block_of a div 32 < 2 ^ 32" "block_of a mod 32 < 2 ^ 32"
    using block_of_bound [of a] by simp_all
  then show "(a div BLOCK_SIZE) div 32 = of_nat (block_of a div 32)"
    "(a div BLOCK_SIZE) mod 32 = of_nat (block_of a mod 32)"
    by (simp_all add: word_unat_eq_iff unat_div unat_mod unat_of_nat BLOCK_SIZE_def)
qed

lemma bit_test: "bitmap_word s (of_nat (b div 32)) AND bit32 (of_nat (b mod 32)) = 0 \<longleftrightarrow> \<not> in_use s b"
  by (simp add: and_bit32_eq_0 in_use_def unat_of_nat)

section \<open>What the operations do to the blocks\<close>

lemma free_memory_cases:
  "pmm_free_memory a s =
     (let b = block_of a
      in if unat (total_blocks s) \<le> b \<or> \<not> in_use s b then s
         else (set_bitmap_word (of_nat (b div 32))
             (bitmap_word s (of_nat (b div 32)) AND NOT (bit32 (of_nat (b mod 32)))) s)
           \<lparr>used_blocks := used_blocks s - 1\<rparr>)"
  by (simp add: pmm_free_memory_def Let_def index_split bit_test word_le_nat_alt unat_block)

lemma free_in_use:
  assumes "c < 2 ^ 20"
  shows "in_use (pmm_free_memory a s) c \<longleftrightarrow>
     in_use s c \<and> (c \<noteq> block_of a \<or> unat (total_blocks s) \<le> block_of a)"
  using in_use_clear [OF block_of_bound assms, of a s]
  by (auto simp: free_memory_cases Let_def)

lemma free_used:
  "used_blocks (pmm_free_memory a s) =
     (if block_of a < unat (total_blocks s) \<and> in_use s (block_of a) then used_blocks s - 1
      else used_blocks s)"
  by (simp add: free_memory_cases Let_def)

lemma free_frame [simp, frame]:
  "total_blocks (pmm_free_memory a s) = total_blocks s"
  "pmm_bitmap (pmm_free_memory a s) = pmm_bitmap s"
  "pmm.more (pmm_free_memory a s) = pmm.more s"
  "managed (pmm_free_memory a s) = managed s"
  by (simp_all add: free_memory_cases Let_def)

lemma lock_memory_eq:
  "pmm_lock_memory a s =
     (set_bitmap_word (of_nat (block_of a div 32))
        (bitmap_word s (of_nat (block_of a div 32)) OR bit32 (of_nat (block_of a mod 32))) s)
       \<lparr>used_blocks := used_blocks s + 1\<rparr>"
  by (simp add: pmm_lock_memory_def Let_def index_split)

lemma lock_in_use:
  "c < 2 ^ 20 \<Longrightarrow> in_use (pmm_lock_memory a s) c \<longleftrightarrow> c = block_of a \<or> in_use s c"
  using in_use_set [OF block_of_bound, of c a s] by (simp add: lock_memory_eq)

lemma lock_frame_pmm [simp, frame]:
  "total_blocks (pmm_lock_memory a s) = total_blocks s"
  "used_blocks (pmm_lock_memory a s) = used_blocks s + 1"
  "managed (pmm_lock_memory a s) = managed s"
  by (simp_all add: lock_memory_eq)

lemma first_zero_bit_Some:
  "first_zero_bit w = Some j \<longleftrightarrow> j < 32 \<and> \<not> bit w j \<and> (\<forall>k < j. bit w k)"
  by (auto simp: first_zero_bit_def find_Some_iff and_bit32_eq_0 unat_of_nat)

lemma first_zero_bit_None: "first_zero_bit w = None \<longleftrightarrow> (\<forall>j < 32. bit w j)"
  by (auto simp: first_zero_bit_def find_None_iff and_bit32_eq_0 unat_of_nat)

lemma bit_all_ones: "j < 32 \<Longrightarrow> bit (0xFFFFFFFF :: u32) j"
proof -
  have "(0xFFFFFFFF :: u32) = - 1" by simp
  then show "j < 32 \<Longrightarrow> bit (0xFFFFFFFF :: u32) j" by (simp only: bit_minus_1_iff) simp
qed

lemma word_in_use:
  "in_use s (32 * i + j) \<longleftrightarrow> bit (bitmap_word s (of_nat i)) j" if "j < 32"
  using that by (simp add: in_use_def)

text \<open>The scan over the words \<open>i..<n\<close> finds the least free block in them.\<close>

lemma scan_words_spec:
  assumes "n \<le> 2 ^ 20"
  shows "(\<exists>b. 32 * i \<le> b \<and> b < 32 * n \<and> \<not> in_use s b \<and> (\<forall>c. 32 * i \<le> c \<and> c < b \<longrightarrow> in_use s c) \<and>
        scan_words s [i..<n] = of_nat b) \<or>
     (\<forall>b. 32 * i \<le> b \<and> b < 32 * n \<longrightarrow> in_use s b) \<and> scan_words s [i..<n] = 0xFFFFFFFF"
proof (induction "n - i" arbitrary: i)
  case 0
  then show ?case by (intro disjI2) auto
next
  case (Suc d)
  then have i: "i < n" and up: "[i..<n] = i # [Suc i..<n]" by (simp_all add: upt_conv_Cons)
  have IH: "(\<exists>b. 32 * Suc i \<le> b \<and> b < 32 * n \<and> \<not> in_use s b \<and> (\<forall>c. 32 * Suc i \<le> c \<and> c < b \<longrightarrow> in_use s c) \<and>
        scan_words s [Suc i..<n] = of_nat b) \<or>
     (\<forall>b. 32 * Suc i \<le> b \<and> b < 32 * n \<longrightarrow> in_use s b) \<and> scan_words s [Suc i..<n] = 0xFFFFFFFF"
    by (rule Suc.hyps(1)) (use Suc.hyps(2) in simp)
  let ?w = "bitmap_word s (of_nat i)"
  have inw: "in_use s c \<longleftrightarrow> bit ?w (c - 32 * i)" if "32 * i \<le> c" "c < 32 * Suc i" for c
    using word_in_use [of "c - 32 * i" s i] that by simp
  show ?case
  proof (cases "first_zero_bit ?w")
    case (Some j)
    then have j: "j < 32" "\<not> bit ?w j" "\<forall>k < j. bit ?w k" by (simp_all add: first_zero_bit_Some)
    then have "?w \<noteq> 0xFFFFFFFF" using bit_all_ones by auto
    then have "scan_words s [i..<n] = of_nat (32 * i + j)" using Some by (simp add: up)
    moreover have "32 * i + j < 32 * n" using j(1) i by simp
    moreover have "\<forall>c. 32 * i \<le> c \<and> c < 32 * i + j \<longrightarrow> in_use s c" using j inw by auto
    moreover have "\<not> in_use s (32 * i + j)" using j by (simp add: word_in_use)
    ultimately show ?thesis by (metis le_add1)
  next
    case None
    then have all: "\<forall>c. 32 * i \<le> c \<and> c < 32 * Suc i \<longrightarrow> in_use s c"
      using inw by (auto simp: first_zero_bit_None)
    have sc: "scan_words s [i..<n] = scan_words s [Suc i..<n]" using None by (simp add: up)
    have ext: "(\<forall>c. 32 * i \<le> c \<and> c < b \<longrightarrow> in_use s c)"
      if "\<forall>c. 32 * Suc i \<le> c \<and> c < b \<longrightarrow> in_use s c" for b
      using that all by (meson not_less)
    from IH show ?thesis
    proof (elim disjE exE conjE)
      fix b assume b: "32 * Suc i \<le> b" "b < 32 * n" "\<not> in_use s b"
        "\<forall>c. 32 * Suc i \<le> c \<and> c < b \<longrightarrow> in_use s c" "scan_words s [Suc i..<n] = of_nat b"
      then have "32 * i \<le> b" by simp
      with b ext [OF b(4)] show ?thesis unfolding sc by blast
    next
      assume a: "\<forall>b. 32 * Suc i \<le> b \<and> b < 32 * n \<longrightarrow> in_use s b"
        "scan_words s [Suc i..<n] = 0xFFFFFFFF"
      from ext [OF a(1)] a(2) show ?thesis unfolding sc by blast
    qed
  qed
qed

lemma first_free_spec:
  assumes "pmm_ok s"
  shows "(\<exists>b. b \<in> free_blocks s \<and> (\<forall>c \<in> free_blocks s. b \<le> c) \<and> pmm_first_free s = of_nat b) \<or>
     (free_blocks s = {} \<and> pmm_first_free s = 0xFFFFFFFF)"
proof -
  let ?n = "unat (total_blocks s) div 32"
  have "?n \<le> 2 ^ 20" using assms by (simp add: pmm_ok_def)
  from scan_words_spec [OF this, of 0 s] show ?thesis
  proof (elim disjE exE conjE)
    fix b assume b: "b < 32 * ?n" "\<not> in_use s b" "\<forall>c. 32 * 0 \<le> c \<and> c < b \<longrightarrow> in_use s c"
      "scan_words s [0..<?n] = of_nat b"
    then have "b \<in> free_blocks s" "\<forall>c \<in> free_blocks s. b \<le> c" "pmm_first_free s = of_nat b"
      by (auto simp: free_blocks_def managed_def pmm_first_free_def unat_div not_less [symmetric])
    then show ?thesis by blast
  next
    assume "\<forall>b. 32 * 0 \<le> b \<and> b < 32 * ?n \<longrightarrow> in_use s b" "scan_words s [0..<?n] = 0xFFFFFFFF"
    then show ?thesis by (auto simp: free_blocks_def managed_def pmm_first_free_def unat_div)
  qed
qed

lemma managed_bound: "pmm_ok s \<Longrightarrow> managed s < 2 ^ 20 \<and> managed s \<le> unat (total_blocks s)"
  using div_mult_mod_eq [of "unat (total_blocks s)" 32] unfolding pmm_ok_def managed_def by linarith

lemma block_address:
  assumes "b < 2 ^ 20"
  shows "unat (of_nat b * BLOCK_SIZE) = 4096 * b" "block_of (of_nat b * BLOCK_SIZE) = b"
    "unat (of_nat b :: u32) = b" "(of_nat b :: u32) \<noteq> 0xFFFFFFFF" "of_nat b * BLOCK_SIZE \<noteq> 0xFFFFFFFF"
proof -
  show u: "unat (of_nat b :: u32) = b" using assms by (simp add: unat_of_nat)
  show v: "unat (of_nat b * BLOCK_SIZE) = 4096 * b"
    using assms by (simp add: unat_word_ariths unat_of_nat BLOCK_SIZE_def)
  then show "block_of (of_nat b * BLOCK_SIZE) = b" by simp
  have f: "unat (0xFFFFFFFF :: u32) = 4294967295" by simp
  show "(of_nat b :: u32) \<noteq> 0xFFFFFFFF" 
  proof
    assume "(of_nat b :: u32) = 0xFFFFFFFF"
    then have "b = 4294967295" using u f by simp
    then show False using assms by simp
  qed
  show "of_nat b * BLOCK_SIZE \<noteq> 0xFFFFFFFF"
  proof
    assume "of_nat b * BLOCK_SIZE = 0xFFFFFFFF"
    then have "4096 * b = 4294967295" using v f by simp
    moreover have "even (4096 * b)" "odd (4294967295 :: nat)" by simp_all
    ultimately show False by metis
  qed
qed

text \<open>
  Allocation hands out the least free block and marks it, or reports that there is none.
\<close>

lemma alloc_none:
  assumes "pmm_ok s" "free_blocks s = {}"
  shows "pmm_alloc_block s = (0xFFFFFFFF, s)"
  using first_free_spec [OF assms(1)] assms(2) by (auto simp: pmm_alloc_block_def Let_def)

lemma alloc_some:
  assumes ok: "pmm_ok s" and ne: "free_blocks s \<noteq> {}"
  defines "b \<equiv> Min (free_blocks s)"
  shows "fst (pmm_alloc_block s) = of_nat b * BLOCK_SIZE" "b < managed s" "b < 2 ^ 20"
    "c < 2 ^ 20 \<Longrightarrow> in_use (snd (pmm_alloc_block s)) c \<longleftrightarrow> c = b \<or> in_use s c"
    "used_blocks (snd (pmm_alloc_block s)) = used_blocks s + 1"
proof -
  obtain a where a: "a \<in> free_blocks s" "\<forall>c \<in> free_blocks s. a \<le> c" "pmm_first_free s = of_nat a"
    using first_free_spec [OF ok] ne by blast
  then have "b = a" unfolding b_def by (intro Min_eqI) auto
  with a have b: "b \<in> free_blocks s" "pmm_first_free s = of_nat b" by simp_all
  then show bm: "b < managed s" by (simp add: free_blocks_def)
  then show b20: "b < 2 ^ 20" using managed_bound [OF ok] by linarith
  have ix: "(of_nat b :: u32) div 32 = of_nat (b div 32)" "(of_nat b :: u32) mod 32 = of_nat (b mod 32)"
    using index_split [of "of_nat b * BLOCK_SIZE"] block_address [OF b20]
    by (simp_all add: word_unat_eq_iff unat_div unat_mod unat_of_nat)
  have eq: "pmm_alloc_block s = (of_nat b * BLOCK_SIZE,
      (set_bitmap_word (of_nat (b div 32))
        (bitmap_word s (of_nat (b div 32)) OR bit32 (of_nat (b mod 32))) s)
       \<lparr>used_blocks := used_blocks s + 1\<rparr>)"
    using b(2) block_address(4) [OF b20] by (simp add: pmm_alloc_block_def Let_def ix)
  show "fst (pmm_alloc_block s) = of_nat b * BLOCK_SIZE" by (simp add: eq)
  show "used_blocks (snd (pmm_alloc_block s)) = used_blocks s + 1" by (simp add: eq)
  show "c < 2 ^ 20 \<Longrightarrow> in_use (snd (pmm_alloc_block s)) c \<longleftrightarrow> c = b \<or> in_use s c"
    using in_use_set [OF b20, of c s] by (simp add: eq)
qed

lemma alloc_frame [simp, frame]:
  "total_blocks (snd (pmm_alloc_block s)) = total_blocks s"
  "pmm_bitmap (snd (pmm_alloc_block s)) = pmm_bitmap s"
  "pmm.more (snd (pmm_alloc_block s)) = pmm.more s"
  "managed (snd (pmm_alloc_block s)) = managed s"
  by (auto simp: pmm_alloc_block_def Let_def managed_def)

lemma pmm_ok_frame [simp, frame]:
  "pmm_ok (snd (pmm_alloc_block s)) = pmm_ok s"
  "pmm_ok (pmm_free_memory a s) = pmm_ok s"
  "pmm_ok (pmm_lock_memory a s) = pmm_ok s"
  by (simp_all add: pmm_ok_def)

lemma free_blocks_alloc:
  assumes "pmm_ok s" "free_blocks s \<noteq> {}"
  shows "free_blocks (snd (pmm_alloc_block s)) = free_blocks s - {Min (free_blocks s)}"
  using alloc_some(4) [OF assms] managed_bound [OF assms(1)] by (auto simp: free_blocks_def)

lemma free_blocks_free:
  assumes "pmm_ok s"
  shows "free_blocks (pmm_free_memory a s) =
     (if block_of a < managed s then insert (block_of a) (free_blocks s) else free_blocks s)"
  using managed_bound [OF assms] by (auto simp: free_blocks_def free_in_use)

lemma free_blocks_lock:
  assumes "pmm_ok s"
  shows "free_blocks (pmm_lock_memory a s) = free_blocks s - {block_of a}"
  using managed_bound [OF assms] by (auto simp: free_blocks_def lock_in_use)

text \<open>After \<open>pmm_init\<close> every managed block is in use.\<close>

lemma init_fields [simp]:
  "total_blocks (pmm_init e r s) = r div BLOCK_SIZE" "used_blocks (pmm_init e r s) = r div BLOCK_SIZE"
  "pmm_bitmap (pmm_init e r s) = e" "pmm.more (pmm_init e r s) = pmm.more s"
  by (simp_all add: pmm_init_def Let_def)

lemma init_ok [simp]: "pmm_ok (pmm_init e r s)"
  using block_of_bound [of r] by (simp add: pmm_ok_def unat_block)

lemma init_in_use: "b < managed (pmm_init e r s) \<Longrightarrow> in_use (pmm_init e r s) b"
proof -
  assume b: "b < managed (pmm_init e r s)"
  let ?n = "unat (r div BLOCK_SIZE div 32)"
  have n: "?n = block_of r div 32" using unat_block [of r] by (simp add: unat_div)
  then have "?n \<le> 2 ^ 30" using block_of_bound [of r] by simp
  moreover have "b div 32 < ?n" using b by (simp add: managed_def n unat_block less_mult_imp_div_less)
  ultimately have "bitmap_word (pmm_init e r s) (of_nat (b div 32)) = 0xFFFFFFFF"
    by (simp add: bitmap_word_def pmm_init_def Let_def load32_fill32)
  then show ?thesis using bit_all_ones [of "b mod 32"] by (simp add: in_use_def)
qed

section \<open>The interface of a block allocator\<close>

text \<open>
  What the clients (page tables, the heap) rely on: an allocation takes a block out of the
  available ones, or fails when there is none. \<open>alloc_many\<close> is a run of \<open>n\<close> allocations.
\<close>

primrec alloc_many :: "('s \<Rightarrow> 'b \<times> 's) \<Rightarrow> nat \<Rightarrow> 's \<Rightarrow> 'b list \<times> 's" where
  "alloc_many f 0 s = ([], s)"
| "alloc_many f (Suc n) s =
     (let (b, s1) = f s; (bs, s2) = alloc_many f n s1 in (b # bs, s2))"

locale block_allocator =
  fixes alloc :: "'s \<Rightarrow> 'b \<times> 's"
    and avail :: "'s \<Rightarrow> 'b set"
    and inv :: "'s \<Rightarrow> bool"
    and failed :: 'b
  assumes finite_avail: "inv s \<Longrightarrow> finite (avail s)"
    and alloc_avail: "inv s \<Longrightarrow> avail s \<noteq> {} \<Longrightarrow>
      fst (alloc s) \<in> avail s \<and> avail (snd (alloc s)) = avail s - {fst (alloc s)} \<and> inv (snd (alloc s))"
    and exhausted: "inv s \<Longrightarrow> avail s = {} \<Longrightarrow> alloc s = (failed, s)"
    and failed_fresh: "inv s \<Longrightarrow> failed \<notin> avail s"
begin

lemma succeeds_iff: "inv s \<Longrightarrow> fst (alloc s) \<noteq> failed \<longleftrightarrow> avail s \<noteq> {}"
  using alloc_avail [of s] exhausted [of s] failed_fresh [of s] by (cases "avail s = {}") auto

lemma many:
  "inv s \<Longrightarrow> n \<le> card (avail s) \<Longrightarrow>
     distinct (fst (alloc_many alloc n s)) \<and> set (fst (alloc_many alloc n s)) \<subseteq> avail s \<and>
     length (fst (alloc_many alloc n s)) = n \<and>
     avail (snd (alloc_many alloc n s)) = avail s - set (fst (alloc_many alloc n s)) \<and>
     inv (snd (alloc_many alloc n s))"
proof (induction n arbitrary: s)
  case 0
  then show ?case by simp
next
  case (Suc n)
  then have ne: "avail s \<noteq> {}" by auto
  note a = alloc_avail [OF Suc.prems(1) ne]
  have "n \<le> card (avail (snd (alloc s)))"
    using a Suc.prems finite_avail [OF Suc.prems(1)] by (simp add: card_Diff_singleton)
  from Suc.IH [OF _ this] a show ?case
    by (cases "alloc s", cases "alloc_many alloc n (snd (alloc s))") auto
qed

end

definition free_addresses :: "'a pmm_scheme \<Rightarrow> u32 set" where
  "free_addresses s = (\<lambda>b. of_nat b * BLOCK_SIZE) ` free_blocks s"

lemma free_address_inj: "pmm_ok s \<Longrightarrow> inj_on (\<lambda>b. of_nat b * BLOCK_SIZE :: u32) (free_blocks s)"
proof (rule inj_onI)
  fix x y assume "pmm_ok s" "x \<in> free_blocks s" "y \<in> free_blocks s"
    and e: "(of_nat x * BLOCK_SIZE :: u32) = of_nat y * BLOCK_SIZE"
  then have "x < 2 ^ 20" "y < 2 ^ 20" using managed_bound [of s] by (auto simp: free_blocks_def)
  then show "x = y" using e block_address(2) by metis
qed

interpretation pma: block_allocator pmm_alloc_block free_addresses pmm_ok "0xFFFFFFFF"
proof unfold_locales
  fix s :: "'a pmm_scheme" assume ok: "pmm_ok s"
  show "finite (free_addresses s)" by (simp add: free_addresses_def)
  show "free_addresses s = {} \<Longrightarrow> pmm_alloc_block s = (0xFFFFFFFF, s)"
    using alloc_none [OF ok] by (simp add: free_addresses_def)
  show "0xFFFFFFFF \<notin> free_addresses s"
    using block_address(5) managed_bound [OF ok]
    by (force simp: free_addresses_def free_blocks_def)
  assume "free_addresses s \<noteq> {}"
  then have ne: "free_blocks s \<noteq> {}" by (simp add: free_addresses_def)
  have "Min (free_blocks s) \<in> free_blocks s" using ne by simp
  then show "fst (pmm_alloc_block s) \<in> free_addresses s \<and>
      free_addresses (snd (pmm_alloc_block s)) = free_addresses s - {fst (pmm_alloc_block s)} \<and>
      pmm_ok (snd (pmm_alloc_block s))"
    using inj_on_image_set_diff [OF free_address_inj [OF ok], of "free_blocks s" "{Min (free_blocks s)}"] ok
    by (auto simp: free_addresses_def alloc_some(1) [OF ok ne] free_blocks_alloc [OF ok ne])
qed

section \<open>Memory that the bitmap operations leave alone\<close>

definition bitmap_bytes :: "'a pmm_scheme \<Rightarrow> nat" where
  "bitmap_bytes s = 4 * (unat (total_blocks s) div 32)"

lemma set_word_mem:
  assumes "4 * (i + 1) \<le> unat (a - pmm_bitmap s)"
  shows "mem (set_bitmap_word (of_nat i) w s) a = mem s a"
proof -
  have lt: "unat (a - pmm_bitmap s) < 2 ^ 32" by (rule unat_less_32)
  have i4: "4 * of_nat i = (of_nat (4 * i) :: u32)" by simp
  have "4 * i < 2 ^ 32" using assms lt by simp
  then have "unat (a - pmm_bitmap s - of_nat (4 * i)) = unat (a - pmm_bitmap s) - 4 * i"
    using assms by (subst unat_sub) (simp_all add: word_le_nat_alt unat_of_nat del: of_nat_mult)
  then have "4 \<le> unat (a - (pmm_bitmap s + 4 * of_nat i))"
    using assms unfolding i4 by (simp add: diff_diff_eq del: of_nat_mult)
  then show ?thesis by (simp add: set_bitmap_word_def store32_byte)
qed

lemma alloc_mem:
  assumes "pmm_ok s" "bitmap_bytes s \<le> unat (a - pmm_bitmap s)"
  shows "mem (snd (pmm_alloc_block s)) a = mem s a"
proof (cases "pmm_first_free s = 0xFFFFFFFF")
  case True
  then show ?thesis by (simp add: pmm_alloc_block_def Let_def)
next
  case False
  then obtain b where b: "b \<in> free_blocks s" "pmm_first_free s = of_nat b"
    using first_free_spec [OF assms(1)] by blast
  then have b20: "b < 2 ^ 20" and bm: "b < managed s"
    using managed_bound [OF assms(1)] by (auto simp: free_blocks_def)
  have ix: "(of_nat b :: u32) div 32 = of_nat (b div 32)"
    using b20 by (simp add: word_unat_eq_iff unat_div unat_of_nat)
  have "b div 32 < unat (total_blocks s) div 32" using bm by (simp add: managed_def less_mult_imp_div_less)
  then have "4 * (b div 32 + 1) \<le> unat (a - pmm_bitmap s)"
    using assms(2) unfolding bitmap_bytes_def by simp
  from set_word_mem [OF this] show ?thesis
    using False by (simp add: pmm_alloc_block_def Let_def b(2) ix)
qed

section \<open>Accounting over runs\<close>

text \<open>The counter \<open>used_blocks\<close> against the bitmap, and the runs of the allocator after \<open>pmm_init\<close>.\<close>

definition used_set :: "'a pmm_scheme \<Rightarrow> nat set" where
  "used_set s = {b. b < unat (total_blocks s) \<and> in_use s b}"

definition accounted :: "'a pmm_scheme \<Rightarrow> bool" where
  "accounted s \<longleftrightarrow> pmm_ok s \<and> managed s = unat (total_blocks s) \<and> unat (used_blocks s) = card (used_set s)"

inductive pmm_step :: "'a pmm_scheme \<Rightarrow> 'a pmm_scheme \<Rightarrow> bool" where
  step_free: "pmm_step s (pmm_free_memory a s)"
| step_alloc: "pmm_step s (snd (pmm_alloc_block s))"

inductive_cases pmm_stepE: "pmm_step s t"

inductive pmm_reach :: "u32 \<Rightarrow> u32 \<Rightarrow> 'a pmm_scheme \<Rightarrow> 'a pmm_scheme \<Rightarrow> bool" for e r s0 where
  reach_init: "pmm_reach e r s0 (pmm_init e r s0)"
| reach_step: "pmm_reach e r s0 s \<Longrightarrow> pmm_step s t \<Longrightarrow> pmm_reach e r s0 t"

lemma finite_used_set [simp]: "finite (used_set s)"
  by (simp add: used_set_def)

lemma card_used_set: "card (used_set s) \<le> unat (total_blocks s)"
proof -
  have "used_set s \<subseteq> {..<unat (total_blocks s)}" by (auto simp: used_set_def)
  then show ?thesis using card_mono [of "{..<unat (total_blocks s)}"] by fastforce
qed

lemma used_set_alloc:
  assumes "pmm_ok s" "free_blocks s \<noteq> {}"
  shows "used_set (snd (pmm_alloc_block s)) = insert (Min (free_blocks s)) (used_set s)"
    "Min (free_blocks s) \<notin> used_set s"
proof -
  have "Min (free_blocks s) \<in> free_blocks s" using assms(2) by simp
  then show "Min (free_blocks s) \<notin> used_set s" by (simp add: free_blocks_def used_set_def)
  show "used_set (snd (pmm_alloc_block s)) = insert (Min (free_blocks s)) (used_set s)"
    using alloc_some(2,4) [OF assms] managed_bound [OF assms(1)] assms(1)
    by (auto simp: used_set_def pmm_ok_def)
qed

lemma used_set_free:
  assumes "pmm_ok s"
  shows "used_set (pmm_free_memory a s) = used_set s - {block_of a}"
  using assms by (auto simp: used_set_def free_in_use pmm_ok_def)

text \<open>The counter also counts the blocks \<open>T\<close> behind the managed ones whose bits were clear from the beginning.\<close>

definition counted :: "nat set \<Rightarrow> 'a pmm_scheme \<Rightarrow> bool" where
  "counted T s \<longleftrightarrow> pmm_ok s \<and> T \<subseteq> {managed s..<unat (total_blocks s)} \<and> T \<inter> used_set s = {} \<and>
     unat (used_blocks s) = card (used_set s) + card T"

lemma accounted_counted: "accounted s \<longleftrightarrow> managed s = unat (total_blocks s) \<and> counted {} s"
  by (auto simp: accounted_def counted_def)

lemma counted_facts:
  assumes "counted T s"
  shows "pmm_ok s" "finite T" "unat (used_blocks s) \<le> unat (total_blocks s)"
proof -
  show "pmm_ok s" "finite T" using assms finite_subset [of T "{managed s..<unat (total_blocks s)}"] by (simp_all add: counted_def)
  have "T \<union> used_set s \<subseteq> {..<unat (total_blocks s)}" using assms by (auto simp: counted_def used_set_def)
  moreover have "card (T \<union> used_set s) = unat (used_blocks s)"
    using card_Un_disjoint [of T "used_set s"] assms \<open>finite T\<close> by (simp add: counted_def)
  ultimately show "unat (used_blocks s) \<le> unat (total_blocks s)"
    using card_mono [of "{..<unat (total_blocks s)}" "T \<union> used_set s"] by simp
qed

lemma counted_alloc:
  assumes c: "counted T s"
  shows "counted T (snd (pmm_alloc_block s))"
proof (cases "free_blocks s = {}")
  case True
  then show ?thesis using c alloc_none [OF counted_facts(1) [OF c]] by simp
next
  case False
  note f = counted_facts [OF c] and u = used_set_alloc [OF counted_facts(1) [OF c] False]
    and a = alloc_some [OF counted_facts(1) [OF c] False]
  have "Min (free_blocks s) \<in> free_blocks s" using False by simp
  then have "Min (free_blocks s) \<notin> T" using c by (auto simp: free_blocks_def counted_def)
  moreover have "unat (used_blocks s) < 2 ^ 20" using f(1,3) by (simp add: pmm_ok_def)
  then have "unat (used_blocks s + 1) = unat (used_blocks s) + 1" by (simp add: unat_word_ariths)
  ultimately show ?thesis using c u a(5) by (simp add: counted_def)
qed

lemma counted_free:
  assumes c: "counted T s"
  shows "counted T (pmm_free_memory a s)"
proof (cases "block_of a \<in> used_set s")
  case False
  then show ?thesis using c used_set_free [OF counted_facts(1) [OF c], of a]
    by (auto simp: counted_def free_used used_set_def)
next
  case True
  then have p: "0 < card (used_set s)" by (auto simp: card_gt_0_iff)
  then have "1 \<le> used_blocks s" using c by (simp add: word_le_nat_alt counted_def)
  then have "unat (used_blocks s - 1) = unat (used_blocks s) - 1" by (simp add: unat_sub)
  moreover have "used_blocks (pmm_free_memory a s) = used_blocks s - 1"
    using True by (simp add: free_used used_set_def)
  ultimately show ?thesis using c p True used_set_free [OF counted_facts(1) [OF c], of a]
    by (auto simp: counted_def card_Diff_singleton)
qed

lemma accounted_alloc: "accounted s \<Longrightarrow> accounted (snd (pmm_alloc_block s))"
  using alloc_none [of s] alloc_some(5) [of s]
  by (cases "free_blocks s = {}") (auto simp: accounted_counted counted_alloc dest: counted_facts(1))

lemma accounted_free: "accounted s \<Longrightarrow> accounted (pmm_free_memory a s)"
  by (simp add: accounted_counted counted_free)

lemma accounted_step: "pmm_step s t \<Longrightarrow> accounted s \<Longrightarrow> accounted t"
  by (elim pmm_stepE) (auto intro: accounted_alloc accounted_free)

text \<open>The last blocks, fewer than 32, whose bits lie behind the array.\<close>

definition tail_clear :: "'a pmm_scheme \<Rightarrow> nat set" where
  "tail_clear s = {b. managed s \<le> b \<and> b < unat (total_blocks s) \<and> \<not> in_use s b}"

lemma init_blocks:
  "unat (total_blocks (pmm_init e r s)) = block_of r" "managed (pmm_init e r s) = 32 * (block_of r div 32)"
  "pmm_ok (pmm_init e r s)" "free_blocks (pmm_init e r s) = {}"
proof -
  show "unat (total_blocks (pmm_init e r s)) = block_of r" by (simp add: unat_block)
  then show "managed (pmm_init e r s) = 32 * (block_of r div 32)" "pmm_ok (pmm_init e r s)"
    using block_of_bound [of r] by (simp_all add: managed_def pmm_ok_def)
  show "free_blocks (pmm_init e r s) = {}" using init_in_use [of _ e r s] by (auto simp: free_blocks_def)
qed

lemma counted_init: "counted (tail_clear (pmm_init e r s)) (pmm_init e r s)"
proof -
  let ?i = "pmm_init e r s"
  have "{..<block_of r} = used_set ?i \<union> tail_clear ?i"
    using init_in_use [of _ e r s] init_blocks [of e r s] by (auto simp: used_set_def tail_clear_def not_less [symmetric])
  moreover have "used_set ?i \<inter> tail_clear ?i = {}" "finite (tail_clear ?i)" by (auto simp: used_set_def tail_clear_def)
  ultimately have "card (used_set ?i) + card (tail_clear ?i) = block_of r"
    using card_Un_disjoint [of "used_set ?i" "tail_clear ?i"] by (metis card_lessThan finite_used_set)
  moreover have "unat (used_blocks ?i) = block_of r" by (simp add: unat_block)
  ultimately show ?thesis using init_blocks [of e r s] by (auto simp: counted_def tail_clear_def used_set_def)
qed

lemma reach_counted:
  "pmm_reach e r s0 s \<Longrightarrow> counted (tail_clear (pmm_init e r s0)) s \<and>
     total_blocks s = total_blocks (pmm_init e r s0) \<and> managed s = managed (pmm_init e r s0)"
proof (induction rule: pmm_reach.induct)
  case reach_init
  then show ?case using counted_init by simp
next
  case (reach_step s t)
  from reach_step.hyps(2) show ?case
  proof (cases rule: pmm_step.cases)
    case (step_free a)
    then show ?thesis using reach_step.IH by (auto intro: counted_free)
  next
    case step_alloc
    moreover have "total_blocks t = total_blocks s \<and> managed t = managed s"
      using step_alloc alloc_none [of s] alloc_some(5) [of s] counted_facts(1) reach_step.IH
      by (cases "free_blocks s = {}") auto
    ultimately show ?thesis using reach_step.IH by (auto intro: counted_alloc)
  qed
qed

lemma counted_sum:
  assumes "counted T s"
  shows "unat (used_blocks s) + card (free_blocks s) + card (tail_clear s - T) = unat (total_blocks s)"
proof -
  note f = counted_facts [OF assms]
  have fin: "finite (tail_clear s)" by (simp add: tail_clear_def)
  have "{..<unat (total_blocks s)} = used_set s \<union> (free_blocks s \<union> tail_clear s)"
    using managed_bound [OF f(1)] by (auto simp: used_set_def free_blocks_def tail_clear_def)
  moreover have "used_set s \<inter> (free_blocks s \<union> tail_clear s) = {}" "free_blocks s \<inter> tail_clear s = {}"
    by (auto simp: used_set_def free_blocks_def tail_clear_def)
  ultimately have "card (used_set s) + (card (free_blocks s) + card (tail_clear s)) = unat (total_blocks s)"
    using card_Un_disjoint [of "used_set s" "free_blocks s \<union> tail_clear s"] card_Un_disjoint [of "free_blocks s" "tail_clear s"] fin
    by (metis card_lessThan finite_UnI finite_free_blocks finite_used_set)
  moreover have "T \<subseteq> tail_clear s"
  proof
    fix b assume "b \<in> T"
    then have "managed s \<le> b" "b < unat (total_blocks s)" "b \<notin> used_set s" using assms by (auto simp: counted_def)
    then show "b \<in> tail_clear s" by (simp add: tail_clear_def used_set_def)
  qed
  then have "card (tail_clear s) = card T + card (tail_clear s - T)"
    using card_Diff_subset [OF f(2)] card_mono [OF fin] by fastforce
  ultimately show ?thesis using assms by (simp add: counted_def)
qed

lemma accounted_init:
  assumes "32 dvd block_of r"
  shows "accounted (pmm_init e r s)"
proof -
  have "tail_clear (pmm_init e r s) = {}" using assms by (simp add: tail_clear_def init_blocks unat_block)
  then show ?thesis using counted_init [of e r s] assms by (simp add: accounted_counted init_blocks unat_block)
qed

lemma sep_behind:
  assumes "0 < k" "n \<le> k" "k < 2 ^ 20"
  shows "sep (4 * n) e 4 (e + 4 * of_nat k)"
proof -
  have e: "(4 * of_nat k :: u32) = of_nat (4 * k)" by simp
  have k: "unat (of_nat (4 * k) :: u32) = 4 * k" using assms(3) by (simp add: unat_of_nat del: of_nat_mult)
  then have "unat (- of_nat (4 * k) :: u32) = 2 ^ 32 - 4 * k"
    using unat_neg [of "of_nat (4 * k)"] assms(1) by (simp add: word_unat_eq_iff del: of_nat_mult)
  then show ?thesis unfolding e sep_def using assms k by (simp del: of_nat_mult)
qed

text \<open>The word of a tail block is the first behind the array, whatever it held before.\<close>

lemma tail_word:
  assumes "32 * (block_of r div 32) \<le> block_of a"
  shows "bitmap_word (pmm_init e r s) (of_nat (block_of a div 32)) = load32 (mem s) (e + 4 * of_nat (block_of a div 32))"
proof -
  have "block_of r div 32 \<le> block_of a div 32" using div_le_mono [OF assms, of 32] by simp
  moreover have "block_of a div 32 < 2 ^ 15" using block_of_bound [of a] by simp
  moreover have n: "unat (r div BLOCK_SIZE div 32) = block_of r div 32"
    using unat_div [of "r div BLOCK_SIZE" 32] by (simp add: unat_block)
  ultimately have "sep (4 * (block_of r div 32)) e 4 (e + 4 * of_nat (block_of a div 32))" 
    if "0 < block_of r div 32" using that by (intro sep_behind) simp_all
  with n show ?thesis 
    by (cases "block_of r div 32 = 0") (simp_all add: bitmap_word_def pmm_init_def Let_def load32_fill32_sep, simp add: fill32_def)
qed

section \<open>Properties\<close>

text \<open>A machine with 64 blocks whose bitmap starts at 2 MB, with blocks 5 and 9 released.\<close>

definition ram64 :: pmm where
  "ram64 = pmm_init 0x200000 0x40000
     \<lparr>mem = (\<lambda>_. 0), out_log = [], vga_buff = (\<lambda>_. 0), vga_index = 0, vga_limit = 0,
      total_blocks = 0, used_blocks = 0, pmm_bitmap = 0\<rparr>"

definition ram64_two_free :: pmm where
  "ram64_two_free = pmm_free_memory 0x9010 (pmm_free_memory 0x5000 ram64)"

lemma ram64_facts:
  "pmm_ok ram64" "managed ram64 = 64" "total_blocks ram64 = 64" "free_blocks ram64 = {}"
proof -
  have u: "unat ((0x40000 :: u32) div BLOCK_SIZE) = 64" by (simp add: BLOCK_SIZE_def)
  show "pmm_ok ram64" by (simp add: ram64_def)
  show "total_blocks ram64 = 64" by (simp add: ram64_def BLOCK_SIZE_def)
  show "managed ram64 = 64" by (simp add: ram64_def managed_def u)
  show "free_blocks ram64 = {}"
    using init_in_use unfolding ram64_def by (auto simp: free_blocks_def)
qed

lemma ram64_two_free_facts:
  "pmm_ok ram64_two_free" "free_blocks ram64_two_free = {5, 9}" "total_blocks ram64_two_free = 64"
  by (auto simp: ram64_two_free_def free_blocks_free ram64_facts)

text \<open>C14: \<open>pmm_alloc_block\<close> hands out the lowest free block as its block-aligned address, marks
  exactly that block and counts it; with no free block it returns 0xFFFFFFFF and changes
  nothing. The failure value is never the address of a block.\<close>

theorem pmm_alloc_block_spec:
  assumes "pmm_ok s"
  shows "if free_blocks s = {} then pmm_alloc_block s = (0xFFFFFFFF, s)
     else unat (fst (pmm_alloc_block s)) = 4096 * Min (free_blocks s) \<and>
       fst (pmm_alloc_block s) \<noteq> 0xFFFFFFFF \<and>
       used_blocks (snd (pmm_alloc_block s)) = used_blocks s + 1 \<and>
       free_blocks (snd (pmm_alloc_block s)) = free_blocks s - {Min (free_blocks s)} \<and>
       {b. b < 2 ^ 20 \<and> in_use (snd (pmm_alloc_block s)) b} =
         insert (Min (free_blocks s)) {b. b < 2 ^ 20 \<and> in_use s b}"
proof (cases "free_blocks s = {}")
  case True
  then show ?thesis using alloc_none [OF assms] by simp
next
  case False
  note a = alloc_some [OF assms False]
  then show ?thesis using False block_address(1,5) [OF a(3)] free_blocks_alloc [OF assms False] a(4)
    by auto
qed

theorem pmm_alloc_block_spec_witness:
  "unat (fst (pmm_alloc_block ram64_two_free)) = 4096 * 5 \<and>
     free_blocks (snd (pmm_alloc_block ram64_two_free)) = {9}"
  using pmm_alloc_block_spec [OF ram64_two_free_facts(1)] by (simp add: ram64_two_free_facts)

text \<open>C24: As long as blocks remain, successive allocations return pairwise different
  addresses, all of them blocks that were free at the start, and leave the other free blocks
  free: no block is ever handed out twice.\<close>

theorem pmm_allocations_distinct:
  assumes "pmm_ok s" and "n \<le> card (free_addresses s)"
  shows "distinct (fst (alloc_many pmm_alloc_block n s)) \<and>
     set (fst (alloc_many pmm_alloc_block n s)) \<subseteq> free_addresses s \<and>
     length (fst (alloc_many pmm_alloc_block n s)) = n \<and>
     free_addresses (snd (alloc_many pmm_alloc_block n s)) =
       free_addresses s - set (fst (alloc_many pmm_alloc_block n s))"
  using pma.many [OF assms] by blast

theorem pmm_allocations_distinct_witness:
  "distinct (fst (alloc_many pmm_alloc_block 2 ram64_two_free)) \<and>
     length (fst (alloc_many pmm_alloc_block 2 ram64_two_free)) = 2"
proof -
  have "free_addresses ram64_two_free = {0x5000, 0x9000}"
    by (simp add: free_addresses_def ram64_two_free_facts BLOCK_SIZE_def)
  then have "2 \<le> card (free_addresses ram64_two_free)" by simp
  from pmm_allocations_distinct [OF ram64_two_free_facts(1) this] show ?thesis by simp
qed

text \<open>\<open>pmm_free_memory\<close> releases the block that holds the address and no other; a block
  outside RAM or already free is left alone, and so is the counter.\<close>

theorem pmm_free_memory_spec:
  assumes "pmm_ok s"
  shows "{b. b < 2 ^ 20 \<and> in_use (pmm_free_memory a s) b} =
       {b. b < 2 ^ 20 \<and> in_use s b} - (if block_of a < unat (total_blocks s) then {block_of a} else {}) \<and>
     free_blocks (pmm_free_memory a s) =
       (if block_of a < managed s then insert (block_of a) (free_blocks s) else free_blocks s) \<and>
     used_blocks (pmm_free_memory a s) =
       (if block_of a < unat (total_blocks s) \<and> in_use s (block_of a) then used_blocks s - 1
        else used_blocks s)"
  using free_in_use [of _ a s] by (auto simp: free_blocks_free [OF assms] free_used)

theorem pmm_free_memory_spec_witness:
  "free_blocks (pmm_free_memory 0x3FFFF ram64) = {63} \<and>
     used_blocks (pmm_free_memory 0x40000 ram64) = used_blocks ram64"
  using pmm_free_memory_spec [OF ram64_facts(1), of "0x3FFFF"]
    pmm_free_memory_spec [OF ram64_facts(1), of "0x40000"]
  by (simp add: ram64_facts)

text \<open>C23: The counter is exact along every run of allocations and releases from \<open>pmm_init\<close>: the blocks it counts
  as used, the blocks that can still be allocated and the released ones among the last \<open>total mod 32\<close> blocks,
  which are never allocated, add up to the total. So where the total is a multiple of 32, \<open>total - used\<close> is
  the number of blocks that can still be allocated, and elsewhere it can be too large by fewer than 32.\<close>

theorem pmm_accounting:
  assumes "pmm_reach e r s0 s"
  shows "unat (pmm_get_total_blocks s) = block_of r \<and>
     unat (pmm_get_used_blocks s) + card (free_blocks s) +
       card {b. 32 * (block_of r div 32) \<le> b \<and> b < block_of r \<and> in_use (pmm_init e r s0) b \<and> \<not> in_use s b} = block_of r \<and>
     (32 dvd block_of r \<longrightarrow> unat (pmm_get_used_blocks s) = card (used_set s) \<and>
        card (free_blocks s) = unat (pmm_get_total_blocks s) - unat (pmm_get_used_blocks s))"
proof -
  let ?i = "pmm_init e r s0"
  have c: "counted (tail_clear ?i) s" and t: "unat (total_blocks s) = block_of r" "managed s = 32 * (block_of r div 32)"
    using reach_counted [OF assms] init_blocks [of e r s0] by simp_all
  have "tail_clear s - tail_clear ?i =
      {b. 32 * (block_of r div 32) \<le> b \<and> b < block_of r \<and> in_use ?i b \<and> \<not> in_use s b}"
    using t init_blocks [of e r s0] by (auto simp: tail_clear_def)
  then have sum: "unat (used_blocks s) + card (free_blocks s) +
      card {b. 32 * (block_of r div 32) \<le> b \<and> b < block_of r \<and> in_use ?i b \<and> \<not> in_use s b} = block_of r"
    using counted_sum [OF c] t(1) by simp
  have "unat (used_blocks s) = card (used_set s) \<and> card (free_blocks s) = unat (total_blocks s) - unat (used_blocks s)"
    if "32 dvd block_of r"
  proof -
    have "tail_clear ?i = {}" "tail_clear s = {}"
      using that t init_blocks(1,2) [of e r s0] unfolding tail_clear_def by (metis (no_types, lifting) Collect_empty_eq dvd_mult_div_cancel not_less)+
    with c counted_sum [OF c] show ?thesis by (simp add: counted_def)
  qed
  with sum t(1) show ?thesis unfolding pmm_get_used_blocks_def pmm_get_total_blocks_def by blast
qed

theorem pmm_accounting_witness:
  "card (free_blocks ram64_two_free) = 64 - unat (pmm_get_used_blocks ram64_two_free)"
proof -
  have "pmm_reach 0x200000 0x40000
     \<lparr>mem = (\<lambda>_. 0), out_log = [], vga_buff = (\<lambda>_. 0), vga_index = 0, vga_limit = 0,
      total_blocks = 0, used_blocks = 0, pmm_bitmap = 0\<rparr> ram64_two_free"
    unfolding ram64_two_free_def ram64_def
    by (rule reach_step [OF reach_step [OF reach_init step_free] step_free])
  moreover have "32 dvd block_of 0x40000" by simp
  ultimately have "card (free_blocks ram64_two_free) =
      unat (pmm_get_total_blocks ram64_two_free) - unat (pmm_get_used_blocks ram64_two_free)"
    using pmm_accounting by blast
  then show ?thesis by (simp add: pmm_get_total_blocks_def ram64_two_free_facts(3))
qed

text \<open>\<open>pmm_lock_memory\<close> forces the block's bit to 1 without looking at it first: locking a
  block that is in use changes no block and still counts one more.\<close>

theorem pmm_lock_overcounts:
  assumes "pmm_ok s" and "in_use s (block_of a)"
  shows "free_blocks (pmm_lock_memory a s) = free_blocks s \<and>
     {b. b < 2 ^ 20 \<and> in_use (pmm_lock_memory a s) b} = {b. b < 2 ^ 20 \<and> in_use s b} \<and>
     used_blocks (pmm_lock_memory a s) = used_blocks s + 1"
  using assms(2) lock_in_use [of _ a s] free_blocks_lock [OF assms(1), of a]
  by (auto simp: free_blocks_def)

theorem pmm_lock_overcounts_witness:
  "used_blocks (pmm_lock_memory 0 ram64) = used_blocks ram64 + 1 \<and>
     free_blocks (pmm_lock_memory 0 ram64) = free_blocks ram64"
proof -
  have "in_use ram64 (block_of 0)" using ram64_facts by (auto simp: free_blocks_def)
  from pmm_lock_overcounts [OF ram64_facts(1) this] show ?thesis by simp
qed

text \<open>C38: When the number of blocks is not a multiple of 32, the last ones are lost: \<open>pmm_init\<close> does not write the
  bitmap word of such a block, \<open>pmm_free_memory\<close> clears the bit in whatever lies behind the array, right after it an
  allocation still fails, and in no run after \<open>pmm_init\<close> does \<open>pmm_alloc_block\<close> ever return the block.\<close>

theorem pmm_tail_blocks_lost:
  assumes "32 * (block_of r div 32) \<le> block_of a" and "block_of a < block_of r"
  shows "load32 (mem (pmm_free_memory a (pmm_init e r s))) (e + 4 * of_nat (block_of a div 32)) =
       load32 (mem s) (e + 4 * of_nat (block_of a div 32)) AND NOT (bit32 (of_nat (block_of a mod 32))) \<and>
     fst (pmm_alloc_block (pmm_free_memory a (pmm_init e r s))) = 0xFFFFFFFF \<and>
     (\<forall>t. pmm_reach e r s t \<longrightarrow> block_of (fst (pmm_alloc_block t)) \<noteq> block_of a)"
proof (intro conjI allI impI)
  let ?i = "pmm_init e r s" and ?w = "e + 4 * of_nat (block_of a div 32)"
  note i = init_blocks [of e r s] and w = tail_word [OF assms(1), of e s]
  have "bitmap_word (pmm_free_memory a ?i) (of_nat (block_of a div 32)) =
      bitmap_word ?i (of_nat (block_of a div 32)) AND NOT (bit32 (of_nat (block_of a mod 32)))"
  proof (cases "in_use ?i (block_of a)")
    case True
    moreover have "block_of a div 32 < 2 ^ 30" using block_of_bound [of a] by simp
    moreover have "bitmap_word (z\<lparr>used_blocks := u\<rparr>) j = bitmap_word z j" for z :: "'a pmm_scheme" and u j
      by (simp add: bitmap_word_def)
    ultimately show ?thesis using assms(2) by (simp add: free_memory_cases Let_def bitmap_word_set unat_block)
  next
    case False
    then have "bitmap_word ?i (of_nat (block_of a div 32)) =
        bitmap_word ?i (of_nat (block_of a div 32)) AND NOT (bit32 (of_nat (block_of a mod 32)))"
      by (intro bit_word_eqI) (auto simp: in_use_def bit_andnot_bit32 unat_of_nat)
    then show ?thesis using False by (simp add: free_memory_cases Let_def)
  qed
  then show "load32 (mem (pmm_free_memory a ?i)) ?w = load32 (mem s) ?w AND NOT (bit32 (of_nat (block_of a mod 32)))"
    unfolding w by (simp add: bitmap_word_def)
  have "free_blocks (pmm_free_memory a ?i) = {}" using free_blocks_free [OF i(3)] assms i by simp
  from alloc_none [OF _ this] have "pmm_alloc_block (pmm_free_memory a ?i) = (0xFFFFFFFF, pmm_free_memory a ?i)" using i(3) unfolding pmm_ok_def free_frame(1) .
  then show "fst (pmm_alloc_block (pmm_free_memory a ?i)) = 0xFFFFFFFF" by simp
  fix t assume t: "pmm_reach e r s t"
  then have ok: "pmm_ok t" and m: "managed t = 32 * (block_of r div 32)"
    using reach_counted [OF t] counted_facts(1) i(2) by auto
  show "block_of (fst (pmm_alloc_block t)) \<noteq> block_of a"
  proof (cases "free_blocks t = {}")
    case True
    then show ?thesis using alloc_none [OF ok] assms(2) block_of_bound [of r] by simp
  next
    case False
    then have "Min (free_blocks t) \<in> free_blocks t" by simp
    then show ?thesis using alloc_some(1,3) [OF ok False] block_address(2) assms(1) m by (simp add: free_blocks_def)
  qed
qed

theorem pmm_tail_blocks_lost_witness:
  "fst (pmm_alloc_block (pmm_free_memory 0x20000 (pmm_init 0 0x21000 ram64))) = 0xFFFFFFFF \<and>
     load32 (mem (pmm_free_memory 0x20000 (pmm_init 0 0x21000 ram64))) 4 = load32 (mem ram64) 4 AND NOT 1"
  using pmm_tail_blocks_lost [of "0x21000" "0x20000" 0 ram64] by (simp add: bit32_def)

end
