(* ===== verification/Memmap.thy ===== *)
theory Memmap
  imports Pmm
begin

text \<open>
  The boot loader's memory map (\<open>multiboot.h\<close>, \<open>memory.h\<close>, \<open>memory.c\<close>): the information
  structure and the map entries are read from memory at the offsets of the packed structs;
  every 4096-byte step of an available region is released in the frame bitmap.
\<close>

section \<open>The packed structs\<close>

text \<open>Field offsets of \<open>multiboot_info_t\<close> and of \<open>struct multiboot_mmap_entry\<close>.\<close>

definition mb_flags :: "memory \<Rightarrow> u32 \<Rightarrow> u32" where "mb_flags m p = load32 m p"
definition mb_mem_lower :: "memory \<Rightarrow> u32 \<Rightarrow> u32" where "mb_mem_lower m p = load32 m (p + 4)"
definition mb_mem_upper :: "memory \<Rightarrow> u32 \<Rightarrow> u32" where "mb_mem_upper m p = load32 m (p + 8)"
definition mb_mmap_length :: "memory \<Rightarrow> u32 \<Rightarrow> u32" where "mb_mmap_length m p = load32 m (p + 44)"
definition mb_mmap_addr :: "memory \<Rightarrow> u32 \<Rightarrow> u32" where "mb_mmap_addr m p = load32 m (p + 48)"

definition mmap_size :: "memory \<Rightarrow> u32 \<Rightarrow> u32" where "mmap_size m p = load32 m p"
definition mmap_base :: "memory \<Rightarrow> u32 \<Rightarrow> u64" where "mmap_base m p = load64 m (p + 4)"
definition mmap_len :: "memory \<Rightarrow> u32 \<Rightarrow> u64" where "mmap_len m p = load64 m (p + 12)"
definition mmap_type :: "memory \<Rightarrow> u32 \<Rightarrow> u32" where "mmap_type m p = load32 m (p + 20)"

lemmas mmap_defs = mmap_size_def mmap_base_def mmap_len_def mmap_type_def

section \<open>The loops\<close>

text \<open>
  The 64-bit counter of the inner loop wraps around, so the loop need not end; \<open>None\<close> is a
  loop that runs for ever.
\<close>

partial_function (option) free_range :: "u64 \<Rightarrow> u64 \<Rightarrow> 'a pmm_scheme \<Rightarrow> 'a pmm_scheme option" where
  "free_range current_addr end_address s =
     (if current_addr < end_address
      then free_range (current_addr + 4096) end_address (pmm_free_memory (ucast current_addr) s)
      else Some s)"

text \<open>The three output lines of the body of the outer loop.\<close>

definition print_entry :: "u32 \<Rightarrow> 'a vga_scheme \<Rightarrow> 'a vga_scheme" where
  "print_entry mmap s =
     (let s = vga_print (lit ''Base: '') s;
          s = vga_print_hex_64 (mmap_base (mem s) mmap) s;
          s = vga_print (lit '' | Length: '') s
      in vga_print_hex_64 (mmap_len (mem s) mmap) s)"

partial_function (option) mmap_loop :: "u32 \<Rightarrow> u32 \<Rightarrow> 'a pmm_scheme \<Rightarrow> 'a pmm_scheme option" where
  "mmap_loop mmap limit s =
     (if mmap < limit then
        (let s = print_entry mmap s
         in Option.bind
              (if mmap_type (mem s) mmap = 1 then
                 (let s = vga_print (lit '' | TYPE: AVAILABLE\<newline>'') s;
                      start_address = mmap_base (mem s) mmap;
                      end_address = mmap_base (mem s) mmap + mmap_len (mem s) mmap
                  in free_range start_address end_address s)
               else Some (vga_print (lit '' | TYPE: RESERVED\<newline>'') s))
              (\<lambda>s. mmap_loop (mmap + mmap_size (mem s) mmap + 4) limit s))
      else Some s)"

definition parse_memory_map :: "u32 \<Rightarrow> 'a pmm_scheme \<Rightarrow> 'a pmm_scheme option" where
  "parse_memory_map mb_info s =
     (if mb_flags (mem s) mb_info AND push_bit 6 1 = 0
      then Some (vga_print (lit ''ERROR: GRUB did not provide a valid memory map!\<newline>'') s)
      else let s = vga_print (lit ''System Memory map:\<newline>'') s;
               mmap_addr = mb_mmap_addr (mem s) mb_info;
               mmap_length = mb_mmap_length (mem s) mb_info
           in mmap_loop mmap_addr (mmap_addr + mmap_length) s)"

section \<open>Printing and the bitmap\<close>

definition same_pmm :: "'a pmm_scheme \<Rightarrow> 'a pmm_scheme \<Rightarrow> bool" where
  "same_pmm s t \<longleftrightarrow> mem t = mem s \<and> total_blocks t = total_blocks s \<and> used_blocks t = used_blocks s \<and>
     pmm_bitmap t = pmm_bitmap s \<and> pmm.more t = pmm.more s"

lemma same_pmm_refl [simp]: "same_pmm s s"
  by (simp add: same_pmm_def)

lemma same_pmm_step: "same_pmm s t \<Longrightarrow> same_pmm s (scroll k (place c k t))"
  by (simp add: same_pmm_def scroll_def place_def)

interpretation frp: console_invariant "same_pmm s" for s
  by unfold_locales (rule same_pmm_step)

lemmas printing_same_pmm = frp.print [OF same_pmm_refl] frp.hex_64 [OF same_pmm_refl]
  frp.ok [OF same_pmm_refl] frp.err [OF same_pmm_refl] frp.print_color [OF same_pmm_refl]

lemma same_pmm_trans: "same_pmm s t \<Longrightarrow> same_pmm t u \<Longrightarrow> same_pmm s u"
  by (simp add: same_pmm_def)

lemma print_entry_same_pmm: "same_pmm s (print_entry p s)"
  unfolding print_entry_def Let_def
  by (intro frp.hex_64 frp.print same_pmm_refl)

lemma same_pmm_blocks:
  assumes "same_pmm s t"
  shows "in_use t b = in_use s b" "free_blocks t = free_blocks s" "managed t = managed s"
    "pmm_ok t = pmm_ok s" "accounted t = accounted s" "mem t = mem s" "pmm.more t = pmm.more s"
    "total_blocks t = total_blocks s" "pmm_bitmap t = pmm_bitmap s" "used_blocks t = used_blocks s"
proof -
  show e: "mem t = mem s" "pmm.more t = pmm.more s" "total_blocks t = total_blocks s"
    "pmm_bitmap t = pmm_bitmap s" "used_blocks t = used_blocks s"
    using assms by (simp_all add: same_pmm_def)
  show u: "in_use t b = in_use s b" for b by (simp add: in_use_def bitmap_word_def e)
  show m: "managed t = managed s" "pmm_ok t = pmm_ok s" by (simp_all add: managed_def pmm_ok_def e)
  show "free_blocks t = free_blocks s" by (simp add: free_blocks_def u m)
  show "accounted t = accounted s" by (simp add: accounted_def used_set_def u m e)
qed

section \<open>The bytes of the bitmap\<close>

text \<open>
  A release may touch the word that holds the last, incomplete group of blocks, so the bytes
  at risk are those of \<open>total_blocks\<close> divided by 32 and rounded up.
\<close>

definition bitmap_span :: "'a pmm_scheme \<Rightarrow> u32 set" where
  "bitmap_span s = {a. unat (a - pmm_bitmap s) < 4 * ((unat (total_blocks s) + 31) div 32)}"

lemma free_mem:
  assumes "a \<notin> bitmap_span s"
  shows "mem (pmm_free_memory p s) a = mem s a"
proof (cases "block_of p < unat (total_blocks s) \<and> in_use s (block_of p)")
  case False
  then show ?thesis by (auto simp: free_memory_cases Let_def)
next
  case True
  then have "block_of p div 32 < (unat (total_blocks s) + 31) div 32"
    by (simp add: less_eq_div_iff_mult_less_eq Suc_le_eq [symmetric]) linarith
  then have "4 * (block_of p div 32 + 1) \<le> unat (a - pmm_bitmap s)"
    using assms by (simp add: bitmap_span_def)
  from set_word_mem [OF this] True show ?thesis by (simp add: free_memory_cases Let_def)
qed

lemma free_agree: "agree (- bitmap_span s) (mem s) (mem (pmm_free_memory p s))"
  by (simp add: agree_def free_mem)

lemma bitmap_span_free [simp]: "bitmap_span (pmm_free_memory p s) = bitmap_span s"
  by (simp add: bitmap_span_def)

lemma same_pmm_span: "same_pmm s t \<Longrightarrow> bitmap_span t = bitmap_span s"
  by (simp add: bitmap_span_def same_pmm_blocks)

section \<open>The inner loop\<close>

definition free_steps :: "u64 \<Rightarrow> nat \<Rightarrow> 'a pmm_scheme \<Rightarrow> 'a pmm_scheme" where
  "free_steps cur n s = fold (\<lambda>k. pmm_free_memory (ucast (cur + 4096 * of_nat k))) [0..<n] s"

lemma free_steps_Suc:
  "free_steps cur (Suc n) s = pmm_free_memory (ucast (cur + 4096 * of_nat n)) (free_steps cur n s)"
  by (simp add: free_steps_def)

lemma fold_upt_Suc: "fold f [0..<Suc n] s = fold (\<lambda>k. f (Suc k)) [0..<n] (f 0 s)"
proof -
  have "[0..<Suc n] = 0 # map Suc [0..<n]" by (simp only: upt_conv_Cons zero_less_Suc map_Suc_upt)
  then show ?thesis by (simp add: fold_map comp_def del: upt_Suc)
qed

lemma free_steps_first:
  "free_steps cur (Suc n) s = free_steps (cur + 4096) n (pmm_free_memory (ucast cur) s)"
  unfolding free_steps_def fold_upt_Suc by (simp add: algebra_simps)

lemma ceil_step:
  assumes "(d + 4095) div 4096 = Suc n"
  shows "n = (d - 4096 + 4095) div (4096 :: nat)"
proof (cases "d \<le> 4096")
  case True
  then have "(d + 4095) div 4096 < 2" by (simp add: div_less_iff_less_mult)
  with True assms show ?thesis by simp
next
  case False
  then obtain c where c: "d = 4096 + c" by (metis le_Suc_ex nat_le_linear)
  have "(4096 + (c + 4095)) div 4096 = (c + 4095) div 4096 + 1" by (rule div_add_self1) simp
  with assms c show ?thesis by (simp add: add.assoc)
qed

text \<open>With 4095 bytes of room above the end address the counter does not wrap and the loop ends.\<close>

lemma free_range_steps:
  assumes "unat e + 4095 < 2 ^ 64"
  shows "n = (unat e - unat cur + 4095) div 4096 \<Longrightarrow> free_range cur e s = Some (free_steps cur n s)"
proof (induction n arbitrary: cur s)
  case 0
  then have "unat e \<le> unat cur" by (simp add: div_eq_0_iff)
  then show ?case by (subst free_range.simps) (simp add: free_steps_def word_less_nat_alt)
next
  case (Suc n)
  then have lt: "unat cur < unat e" by (cases "unat cur < unat e") auto
  then have u: "unat (cur + 4096) = unat cur + 4096" using assms by (simp add: unat_word_ariths)
  have "(unat e - unat cur + 4095) div 4096 = Suc n" using Suc.prems by simp
  then have "n = (unat e - unat (cur + 4096) + 4095) div 4096"
    using ceil_step [of "unat e - unat cur" n] unfolding u by (simp add: diff_diff_eq)
  from Suc.IH [OF this] show ?case using lt
    by (subst free_range.simps) (simp add: word_less_nat_alt free_steps_first)
qed

text \<open>The blocks that the addresses of a region reach; addresses are cut to 32 bits.\<close>

definition region_blocks :: "u64 \<Rightarrow> u64 \<Rightarrow> nat set" where
  "region_blocks base len =
     {(unat base + 4096 * k) mod 2 ^ 32 div 4096 | k. unat base + 4096 * k < unat (base + len)}"

lemma free_steps_keeps:
  "total_blocks (free_steps cur n s) = total_blocks s"
  "pmm_bitmap (free_steps cur n s) = pmm_bitmap s"
  "pmm.more (free_steps cur n s) = pmm.more s"
  "managed (free_steps cur n s) = managed s"
  "bitmap_span (free_steps cur n s) = bitmap_span s"
  "pmm_ok (free_steps cur n s) = pmm_ok s"
  "agree (- bitmap_span s) (mem s) (mem (free_steps cur n s))"
proof (induction n)
  case 0
  { case 1 then show ?case by (simp add: free_steps_def) next
    case 2 then show ?case by (simp add: free_steps_def) next
    case 3 then show ?case by (simp add: free_steps_def) next
    case 4 then show ?case by (simp add: free_steps_def) next
    case 5 then show ?case by (simp add: free_steps_def) next
    case 6 then show ?case by (simp add: free_steps_def) next
    case 7 then show ?case by (simp add: free_steps_def) }
next
  case (Suc n)
  { case 1 then show ?case using Suc by (simp add: free_steps_Suc) next
    case 2 then show ?case using Suc by (simp add: free_steps_Suc) next
    case 3 then show ?case using Suc by (simp add: free_steps_Suc) next
    case 4 then show ?case using Suc by (simp add: free_steps_Suc) next
    case 5 then show ?case using Suc by (simp add: free_steps_Suc) next
    case 6 then show ?case using Suc by (simp add: free_steps_Suc) next
    case 7 then show ?case using Suc free_agree [of "free_steps cur n s"]
      by (simp add: free_steps_Suc agree_def free_mem) }
qed

lemma free_steps_blocks:
  assumes "pmm_ok s"
  shows "free_blocks (free_steps cur n s) =
     free_blocks s \<union> {block_of (ucast (cur + 4096 * of_nat k)) | k. k < n} \<inter> {..<managed s}"
proof (induction n)
  case 0
  then show ?case by (simp add: free_steps_def)
next
  case (Suc n)
  show ?case using assms
    by (auto simp: free_steps_Suc free_blocks_free free_steps_keeps Suc.IH less_Suc_eq)
qed

lemma free_steps_accounted: "accounted s \<Longrightarrow> accounted (free_steps cur n s)"
  by (induction n) (auto simp: free_steps_Suc accounted_free, simp add: free_steps_def)

lemma free_range_blocks:
  assumes "pmm_ok s" "unat base + unat len + 4095 < 2 ^ 64"
  shows "\<exists>n. free_range base (base + len) s = Some (free_steps base n s) \<and>
     free_blocks (free_steps base n s) = free_blocks s \<union> region_blocks base len \<inter> {..<managed s}"
proof -
  have e: "unat (base + len) = unat base + unat len" using assms(2) by (simp add: unat_word_ariths)
  define n where "n = (unat (base + len) - unat base + 4095) div 4096"
  have kn: "k < n \<longleftrightarrow> unat base + 4096 * k < unat (base + len)" for k
    unfolding n_def e by (auto simp: less_eq_div_iff_mult_less_eq Suc_le_eq [symmetric])
  have b: "block_of (ucast (base + 4096 * of_nat k)) = (unat base + 4096 * k) mod 2 ^ 32 div 4096"
    if "k < n" for k
  proof -
    have "unat base + 4096 * k < 2 ^ 64" using that kn [of k] e assms(2) by simp
    then have "unat (base + 4096 * of_nat k) = unat base + 4096 * k"
      by (simp add: unat_word_ariths unat_of_nat mod_simps)
    then show ?thesis by (simp add: unsigned_ucast_eq take_bit_eq_mod)
  qed
  have "{block_of (ucast (base + 4096 * of_nat k)) | k. k < n} = region_blocks base len"
    unfolding region_blocks_def using b kn by (metis (no_types, lifting))
  then show ?thesis using free_range_steps [of "base + len" n base s] e assms(2)
      free_steps_blocks [OF assms(1), of base n] n_def by auto
qed

section \<open>The map as a list of entries\<close>

record mmap_entry =
  e_size :: u32
  e_addr :: u64
  e_len :: u64
  e_type :: u32

definition entry_at :: "memory \<Rightarrow> u32 \<Rightarrow> mmap_entry" where
  "entry_at m p = \<lparr>e_size = mmap_size m p, e_addr = mmap_base m p, e_len = mmap_len m p,
     e_type = mmap_type m p\<rparr>"

text \<open>
  \<open>map_at m p limit es\<close>: walking from \<open>p\<close> by the entries' own sizes, the entries below
  \<open>limit\<close> are \<open>es\<close>; \<open>map_bytes\<close> are the bytes they occupy.
\<close>

fun map_at :: "memory \<Rightarrow> u32 \<Rightarrow> u32 \<Rightarrow> mmap_entry list \<Rightarrow> bool" where
  "map_at m p limit [] = (\<not> p < limit)"
| "map_at m p limit (e # es) =
     (p < limit \<and> entry_at m p = e \<and> map_at m (p + e_size e + 4) limit es)"

fun map_bytes :: "u32 \<Rightarrow> mmap_entry list \<Rightarrow> u32 set" where
  "map_bytes p [] = {}"
| "map_bytes p (e # es) = span p 24 \<union> map_bytes (p + e_size e + 4) es"

lemma entry_at_agree: "agree (span p 24) m m' \<Longrightarrow> entry_at m' p = entry_at m p"
  using load32_agree [of p 24 m m' 0] load32_agree [of p 24 m m' 4] load32_agree [of p 24 m m' 8]
    load32_agree [of p 24 m m' 12] load32_agree [of p 24 m m' 16] load32_agree [of p 24 m m' 20]
  by (simp add: entry_at_def mmap_defs load64_def add.commute)

lemma map_at_agree:
  "map_at m p limit es \<Longrightarrow> agree (map_bytes p es) m m' \<Longrightarrow> map_at m' p limit es"
  by (induction es arbitrary: p) (auto simp: agree_def entry_at_agree)

definition available :: "mmap_entry list \<Rightarrow> nat set" where
  "available es = (\<Union>e \<in> {e \<in> set es. e_type e = 1}. region_blocks (e_addr e) (e_len e))"

definition no_overflow :: "mmap_entry list \<Rightarrow> bool" where
  "no_overflow es \<longleftrightarrow>
     (\<forall>e \<in> set es. e_type e = 1 \<longrightarrow> unat (e_addr e) + unat (e_len e) + 4095 < 2 ^ 64)"

text \<open>What a pass over the map leaves of the state: only blocks \<open>B\<close> released, only bitmap bytes written.\<close>

definition released :: "nat set \<Rightarrow> 'a pmm_scheme \<Rightarrow> 'a pmm_scheme \<Rightarrow> bool" where
  "released B s t \<longleftrightarrow> free_blocks t = free_blocks s \<union> B \<inter> {..<managed s} \<and> managed t = managed s \<and>
     total_blocks t = total_blocks s \<and> pmm_bitmap t = pmm_bitmap s \<and> pmm.more t = pmm.more s \<and>
     agree (- bitmap_span s) (mem s) (mem t) \<and> (accounted s \<longrightarrow> accounted t)"

lemma released_same: "same_pmm s t \<Longrightarrow> released {} s t"
  by (simp add: released_def same_pmm_blocks)

lemma released_trans: "released B s t \<Longrightarrow> released C t u \<Longrightarrow> released (B \<union> C) s u"
  by (auto simp: released_def bitmap_span_def agree_def)

lemma released_ok: "released B s t \<Longrightarrow> pmm_ok t = pmm_ok s"
  by (simp add: released_def pmm_ok_def)

text \<open>One round of the outer loop.\<close>

definition entry_body :: "u32 \<Rightarrow> 'a pmm_scheme \<Rightarrow> 'a pmm_scheme option" where
  "entry_body mmap s =
     (let s = print_entry mmap s
      in if mmap_type (mem s) mmap = 1 then
           (let s = vga_print (lit '' | TYPE: AVAILABLE\<newline>'') s
            in free_range (mmap_base (mem s) mmap) (mmap_base (mem s) mmap + mmap_len (mem s) mmap) s)
         else Some (vga_print (lit '' | TYPE: RESERVED\<newline>'') s))"

lemma mmap_loop_unfold:
  "mmap_loop p limit s =
     (if p < limit then Option.bind (entry_body p s)
        (\<lambda>s. mmap_loop (p + mmap_size (mem s) p + 4) limit s)
      else Some s)"
  by (subst mmap_loop.simps) (simp add: entry_body_def Let_def)

lemma entry_body_releases:
  assumes "pmm_ok s" "no_overflow [entry_at (mem s) p]"
  shows "\<exists>t. entry_body p s = Some t \<and> released (available [entry_at (mem s) p]) s t"
proof -
  define s1 where "s1 = print_entry p s"
  have s1: "same_pmm s s1" unfolding s1_def by (rule print_entry_same_pmm)
  then have m1: "mem s1 = mem s" by (rule same_pmm_blocks)
  show ?thesis
  proof (cases "mmap_type (mem s) p = 1")
    case False
    have "same_pmm s (vga_print (lit '' | TYPE: RESERVED\<newline>'') s1)" using s1 by (rule frp.print)
    then have "released {} s (vga_print (lit '' | TYPE: RESERVED\<newline>'') s1)" by (rule released_same)
    then show ?thesis using False
      by (simp add: entry_body_def s1_def [symmetric] m1 available_def entry_at_def)
  next
    case True
    define s2 where "s2 = vga_print (lit '' | TYPE: AVAILABLE\<newline>'') s1"
    have s2: "same_pmm s s2" unfolding s2_def using s1 by (rule frp.print)
    note b2 = same_pmm_blocks [OF s2]
    let ?a = "mmap_base (mem s) p" and ?l = "mmap_len (mem s) p"
    have "unat ?a + unat ?l + 4095 < 2 ^ 64"
      using assms(2) True by (simp add: no_overflow_def entry_at_def)
    moreover have "pmm_ok s2" using assms(1) b2 by simp
    ultimately obtain n where n: "free_range ?a (?a + ?l) s2 = Some (free_steps ?a n s2)"
      "free_blocks (free_steps ?a n s2) = free_blocks s2 \<union> region_blocks ?a ?l \<inter> {..<managed s2}"
      using free_range_blocks by blast
    have "released (region_blocks ?a ?l) s (free_steps ?a n s2)"
      using n(2) free_steps_keeps [where cur = ?a and n = n and s = s2] free_steps_accounted [of s2 ?a n] same_pmm_span [OF s2]
      by (simp add: released_def b2)
    then show ?thesis using True n(1)
      by (simp add: entry_body_def s1_def [symmetric] m1 s2_def [symmetric] b2 Let_def available_def
          entry_at_def)
  qed
qed

lemma no_overflow_Cons: "no_overflow (e # es) \<longleftrightarrow> no_overflow [e] \<and> no_overflow es"
  by (auto simp: no_overflow_def)

lemma available_Cons: "available (e # es) = available [e] \<union> available es"
  by (auto simp: available_def)

lemma mmap_loop_releases:
  "map_at (mem s) p limit es \<Longrightarrow> no_overflow es \<Longrightarrow> pmm_ok s \<Longrightarrow> map_bytes p es \<inter> bitmap_span s = {} \<Longrightarrow>
     \<exists>t. mmap_loop p limit s = Some t \<and> released (available es) s t"
proof (induction es arbitrary: p s)
  case Nil
  have "mmap_loop p limit s = Some s" using Nil.prems(1) by (subst mmap_loop_unfold) simp
  then show ?case using released_same [OF same_pmm_refl, of s] by (simp add: available_def)
next
  case (Cons e es)
  then have p: "p < limit" "entry_at (mem s) p = e" "map_at (mem s) (p + e_size e + 4) limit es"
    and no: "no_overflow [e]" "no_overflow es"
    by (simp_all only: map_at.simps no_overflow_Cons [of e es])
  obtain t where t: "entry_body p s = Some t" "released (available [e]) s t"
    using entry_body_releases [OF Cons.prems(3), of p] no p(2) by auto
  have ag: "agree (- bitmap_span s) (mem s) (mem t)" and sp: "bitmap_span t = bitmap_span s"
    using t(2) by (auto simp: released_def bitmap_span_def)
  have "entry_at (mem t) p = e"
    using entry_at_agree [of p "mem s" "mem t"] p(2) agree_mono [OF ag, of "span p 24"] Cons.prems(4)
    by auto
  then have sz: "mmap_size (mem t) p = e_size e" by (auto simp: entry_at_def)
  have "map_at (mem t) (p + e_size e + 4) limit es"
    by (rule map_at_agree [OF p(3) agree_mono [OF ag]]) (use Cons.prems(4) in auto)
  then obtain u where u: "mmap_loop (p + e_size e + 4) limit t = Some u" "released (available es) t u"
    using Cons.IH [of t "p + e_size e + 4"] no Cons.prems(3,4) released_ok [OF t(2)] sp by auto
  have "mmap_loop p limit s = Some u" using p(1) t(1) u(1) sz by (subst mmap_loop_unfold) simp
  then show ?case using released_trans [OF t(2) u(2)] available_Cons [of e es] by auto
qed

section \<open>Properties\<close>

lemma parse_memory_map_releases:
  assumes "mb_flags (mem s) mb AND push_bit 6 1 \<noteq> 0"
    and "map_at (mem s) (mb_mmap_addr (mem s) mb)
           (mb_mmap_addr (mem s) mb + mb_mmap_length (mem s) mb) es"
    and "map_bytes (mb_mmap_addr (mem s) mb) es \<inter> bitmap_span s = {}"
    and "no_overflow es" and "pmm_ok s"
  shows "\<exists>t. parse_memory_map mb s = Some t \<and> released (available es) s t"
proof -
  define s1 where "s1 = vga_print (lit ''System Memory map:\<newline>'') s"
  have s1: "same_pmm s s1" unfolding s1_def by (rule frp.print) simp
  note b = same_pmm_blocks [OF s1]
  let ?p = "mb_mmap_addr (mem s) mb" and ?q = "mb_mmap_addr (mem s) mb + mb_mmap_length (mem s) mb"
  have 1: "map_at (mem s1) ?p ?q es" using assms(2) b(6) by simp
  have 2: "pmm_ok s1" using assms(5) b(4) by simp
  have 3: "map_bytes ?p es \<inter> bitmap_span s1 = {}" using assms(3) same_pmm_span [OF s1] by simp
  obtain t where t: "mmap_loop ?p ?q s1 = Some t" "released (available es) s1 t"
    using mmap_loop_releases [OF 1 assms(4) 2 3] by blast
  have "released (available es) s t"
    using released_trans [OF released_same [OF s1] t(2)] by simp
  then show ?thesis using assms(1) t(1)
    by (simp add: parse_memory_map_def s1_def [symmetric] b)
qed

text \<open>C15: On a well-formed memory map whose bytes the bitmap does not overlap and whose available
  regions end at least 4095 bytes below \<open>2^64\<close>, \<open>parse_memory_map\<close> terminates, and the free
  blocks are then those that were free before and the managed blocks that some available
  region reaches in steps of 4096 from its base, addresses cut to 32 bits. Outside the bitmap
  no memory changes, and the accounting is kept.\<close>

theorem parse_memory_map_spec:
  assumes "mb_flags (mem s) mb AND push_bit 6 1 \<noteq> 0"
    and "map_at (mem s) (mb_mmap_addr (mem s) mb)
           (mb_mmap_addr (mem s) mb + mb_mmap_length (mem s) mb) es"
    and "map_bytes (mb_mmap_addr (mem s) mb) es \<inter> bitmap_span s = {}"
    and "no_overflow es" and "pmm_ok s"
  shows "\<exists>t. parse_memory_map mb s = Some t \<and>
     free_blocks t = free_blocks s \<union>
       {b. b < managed s \<and> (\<exists>e \<in> set es. e_type e = 1 \<and>
          (\<exists>k. unat (e_addr e) + 4096 * k < unat (e_addr e + e_len e) \<and>
               b = (unat (e_addr e) + 4096 * k) mod 2 ^ 32 div 4096))} \<and>
     agree (- bitmap_span s) (mem s) (mem t) \<and> (accounted s \<longrightarrow> accounted t)"
proof -
  have "available es \<inter> {..<managed s} =
      {b. b < managed s \<and> (\<exists>e \<in> set es. e_type e = 1 \<and>
          (\<exists>k. unat (e_addr e) + 4096 * k < unat (e_addr e + e_len e) \<and>
               b = (unat (e_addr e) + 4096 * k) mod 2 ^ 32 div 4096))}"
    by (auto simp: available_def region_blocks_def)
  with parse_memory_map_releases [OF assms] show ?thesis by (auto simp: released_def)
qed

text \<open>
  A boot with the information block at 0x9000 and one map entry at 0x9100: \<open>len\<close> bytes of
  available memory from \<open>hi * 2^32 + lo\<close> on; 64 blocks, the bitmap at 2 MB.
\<close>

definition boot_info :: "u32 \<Rightarrow> u32 \<Rightarrow> u32 \<Rightarrow> memory \<Rightarrow> memory" where
  "boot_info lo hi len m = fold (\<lambda>(a, v) m. store32 m a v)
     [(0x9000, 0x40), (0x902C, 24), (0x9030, 0x9100),
      (0x9100, 20), (0x9104, lo), (0x9108, hi), (0x910C, len), (0x9110, 0), (0x9114, 1)] m"

definition booted :: "u32 \<Rightarrow> u32 \<Rightarrow> u32 \<Rightarrow> pmm" where
  "booted lo hi len = ram64\<lparr>mem := boot_info lo hi len (mem ram64)\<rparr>"

lemma boot_info_loads:
  "load32 (boot_info lo hi len m) 0x9000 = 0x40" "load32 (boot_info lo hi len m) 0x902C = 24"
  "load32 (boot_info lo hi len m) 0x9030 = 0x9100" "load32 (boot_info lo hi len m) 0x9100 = 20"
  "load32 (boot_info lo hi len m) 0x9104 = lo" "load32 (boot_info lo hi len m) 0x9108 = hi"
  "load32 (boot_info lo hi len m) 0x910C = len" "load32 (boot_info lo hi len m) 0x9110 = 0"
  "load32 (boot_info lo hi len m) 0x9114 = 1"
  by (simp_all add: boot_info_def load32_store32_sep sep_def)


definition boot_entry :: "u32 \<Rightarrow> u32 \<Rightarrow> u32 \<Rightarrow> mmap_entry" where
  "boot_entry lo hi len = \<lparr>e_size = 20, e_addr = ucast lo OR push_bit 32 (ucast hi), e_len = ucast len,
     e_type = 1\<rparr>"

lemma booted_map:
  "mb_flags (mem (booted lo hi len)) 0x9000 AND push_bit 6 1 \<noteq> 0"
  "mb_mmap_addr (mem (booted lo hi len)) 0x9000 = 0x9100"
  "mb_mmap_length (mem (booted lo hi len)) 0x9000 = 24"
  "map_at (mem (booted lo hi len)) 0x9100 (0x9100 + 24) [boot_entry lo hi len]"
  by (simp_all add: booted_def mb_flags_def mb_mmap_addr_def mb_mmap_length_def boot_info_loads
      entry_at_def mmap_defs load64_def boot_entry_def)

lemma booted_span: "map_bytes 0x9100 [boot_entry lo hi len] \<inter> bitmap_span (booted lo hi len) = {}"
proof -
  have bm: "pmm_bitmap (booted lo hi len) = 0x200000" "total_blocks (booted lo hi len) = 64"
    by (simp_all add: booted_def ram64_facts) (simp add: ram64_def)
  have "8 \<le> unat (0x9100 + of_nat i - 0x200000 :: u32)" if "i < 24" for i
  proof -
    have "(0x9100 + of_nat i - 0x200000 :: u32) = of_nat (0xFFE09100 + i)" by simp
    then show ?thesis using that by (simp only: unat_of_nat) simp
  qed
  then show ?thesis by (fastforce simp: bitmap_span_def bm span_def)
qed

lemma booted_pre:
  "mb_flags (mem (booted lo hi len)) 0x9000 AND push_bit 6 1 \<noteq> 0"
  "map_at (mem (booted lo hi len)) (mb_mmap_addr (mem (booted lo hi len)) 0x9000)
     (mb_mmap_addr (mem (booted lo hi len)) 0x9000 + mb_mmap_length (mem (booted lo hi len)) 0x9000)
     [boot_entry lo hi len]"
  "map_bytes (mb_mmap_addr (mem (booted lo hi len)) 0x9000) [boot_entry lo hi len] \<inter>
     bitmap_span (booted lo hi len) = {}"
  unfolding booted_map(2,3) by (rule booted_map(1) booted_map(4) booted_span)+

lemma booted_blocks:
  "pmm_ok (booted lo hi len)" "managed (booted lo hi len) = 64"
  by (simp_all add: booted_def pmm_ok_def managed_def ram64_facts)

theorem parse_memory_map_spec_witness:
  "\<exists>t. parse_memory_map 0x9000 (booted 0x5000 0 0x1800) = Some t \<and> 5 \<in> free_blocks t \<and> 6 \<in> free_blocks t"
proof -
  have no: "no_overflow [boot_entry 0x5000 0 0x1800]" by (simp add: no_overflow_def boot_entry_def)
  have u: "unat (0x5000 + 0x1800 :: u64) = 0x6800" by simp
  obtain t where t: "parse_memory_map 0x9000 (booted 0x5000 0 0x1800) = Some t"
    "free_blocks t = free_blocks (booted 0x5000 0 0x1800) \<union>
       {b. b < managed (booted 0x5000 0 0x1800) \<and> (\<exists>e \<in> set [boot_entry 0x5000 0 0x1800]. e_type e = 1 \<and>
          (\<exists>k. unat (e_addr e) + 4096 * k < unat (e_addr e + e_len e) \<and>
               b = (unat (e_addr e) + 4096 * k) mod 2 ^ 32 div 4096))}"
    using parse_memory_map_spec [OF booted_pre no booted_blocks(1)] by blast
  have "5 \<in> free_blocks t" unfolding t(2)
    by (auto simp: booted_blocks boot_entry_def u intro!: exI [of _ 0])
  moreover have "6 \<in> free_blocks t" unfolding t(2)
    by (auto simp: booted_blocks boot_entry_def u intro!: exI [of _ 1])
  ultimately show ?thesis using t(1) by blast
qed

text \<open>C37: An available region above 4 GB releases low memory: since the loop cuts the 64-bit
  address to 32 bits, a region that starts at \<open>2^32 + a\<close> releases the block of the low
  address \<open>a\<close>, although the map says nothing about it.\<close>

theorem high_region_releases_low_block:
  assumes "mb_flags (mem s) mb AND push_bit 6 1 \<noteq> 0"
    and "map_at (mem s) (mb_mmap_addr (mem s) mb)
           (mb_mmap_addr (mem s) mb + mb_mmap_length (mem s) mb) es"
    and "map_bytes (mb_mmap_addr (mem s) mb) es \<inter> bitmap_span s = {}"
    and "no_overflow es" and "pmm_ok s"
    and "e \<in> set es" and "e_type e = 1" and "0 < e_len e"
    and "unat (e_addr e) = 2 ^ 32 + a" and "a div 4096 < managed s" and "a < 2 ^ 32"
  shows "\<exists>t. parse_memory_map mb s = Some t \<and> a div 4096 \<in> free_blocks t"
proof -
  have "unat (e_addr e) < unat (e_addr e + e_len e)"
    using assms(4,6,7,8) by (auto simp: no_overflow_def unat_word_ariths word_less_nat_alt)
  then have "a div 4096 \<in> region_blocks (e_addr e) (e_len e)"
    using assms(9,11) by (auto simp: region_blocks_def mod_simps intro!: exI [of _ 0])
  then have "a div 4096 \<in> available es" using assms(6,7) by (auto simp: available_def)
  then show ?thesis using parse_memory_map_releases [OF assms(1-5)] assms(10)
    by (auto simp: released_def)
qed

theorem high_region_releases_low_block_witness:
  "\<exists>t. parse_memory_map 0x9000 (booted 0x3000 1 0x1000) = Some t \<and> 3 \<in> free_blocks t"
proof -
  have a: "unat (e_addr (boot_entry 0x3000 1 0x1000)) = 2 ^ 32 + 0x3000" by (simp add: boot_entry_def)
  have l: "0 < e_len (boot_entry 0x3000 1 0x1000)" by (simp add: boot_entry_def)
  have no: "no_overflow [boot_entry 0x3000 1 0x1000]" using a
    by (simp add: no_overflow_def) (simp add: boot_entry_def)
  have "\<exists>t. parse_memory_map 0x9000 (booted 0x3000 1 0x1000) = Some t \<and> 0x3000 div 4096 \<in> free_blocks t"
    by (rule high_region_releases_low_block [OF booted_pre no booted_blocks(1) _ _ l a])
      (simp_all add: boot_entry_def booted_blocks)
  then show ?thesis by simp
qed

end
