(* ===== verification/Paging.thy ===== *)
theory Paging
  imports Memmap
begin

text \<open>
  Page tables (\<open>paging.h\<close>, \<open>paging.c\<close>). A directory and its tables are arrays of 1024 entries
  in frames of memory. \<open>paging_init\<close> builds them with paging off, at their physical addresses. The
  control registers that the code sets are state; the page walk that the hardware then makes on
  these tables is the specification they are judged by.
\<close>

section \<open>State and operations\<close>

record paging = pmm +
  kernel_directory :: u32
  cr3 :: u32
  cr0 :: u32

definition paging_init :: "'a paging_scheme \<Rightarrow> 'a paging_scheme outcome" where
  "paging_init s =
     (let (directory_address, s) = pmm_alloc_block s
      in if directory_address = 0xFFFFFFFF
         then Halts (klog_err (lit ''FATAL OS ERROR: Out of physical memory for Page Directory!\<newline>'') s)
         else
           let s = s\<lparr>kernel_directory := directory_address\<rparr>;
               s = s\<lparr>mem := fill32 (kernel_directory s) 1024 (\<lambda>_. 0x00000002) (mem s)\<rparr>;
               s = klog_ok (lit ''Page Directory aligned & initialized!\<newline>'') s;
               (page_table_address, s) = pmm_alloc_block s
           in if page_table_address = 0xFFFFFFFF
              then Halts (klog_err (lit ''FATAL OS ERROR: Out of physical memory for Page Table!\<newline>'') s)
              else
                let s = s\<lparr>mem := fill32 page_table_address 1024 (\<lambda>i. of_nat i * 4096 OR 7) (mem s)\<rparr>;
                    s = s\<lparr>mem := store32 (mem s) (kernel_directory s) (page_table_address OR 7)\<rparr>;
                    s = s\<lparr>mem := fill32 page_table_address 1024 (\<lambda>i. of_nat i * 4096 OR 7) (mem s)\<rparr>;
                    s = s\<lparr>mem := store32 (mem s) (kernel_directory s) (page_table_address OR 7)\<rparr>;
                    s = vga_print (lit ''Flipping MMU Switch.\<newline>'') s;
                    s = s\<lparr>cr3 := directory_address, cr0 := cr0 s OR 0x80000000\<rparr>
                in Returns (klog_ok (lit ''Paging Active.\<newline>'') s))"

text \<open>The faulting address that the CPU leaves in CR2 is an argument.\<close>

definition page_fault_handler :: "u32 \<Rightarrow> 'a paging_scheme \<Rightarrow> 'a paging_scheme outcome" where
  "page_fault_handler cr2 s =
     (let s = klog_err (lit ''PAGE FAULT DETECTED\<newline>System attempted to access unmapped address:'') s
      in Halts (vga_print_hex_64 (ucast cr2) s))"

definition switch_page_directory :: "u32 \<Rightarrow> 'a paging_scheme \<Rightarrow> 'a paging_scheme" where
  "switch_page_directory dir s = s\<lparr>cr3 := dir\<rparr>"

section \<open>The page walk\<close>

definition dix :: "u32 \<Rightarrow> nat" where "dix va = unat (drop_bit 22 va AND 0x3FF)"
definition tix :: "u32 \<Rightarrow> nat" where "tix va = unat (drop_bit 12 va AND 0x3FF)"
definition frame_of :: "u32 \<Rightarrow> u32" where "frame_of e = e AND NOT 0xFFF"

abbreviation present :: "u32 \<Rightarrow> bool" where "present e \<equiv> bit e 0"

text \<open>
  The two-level walk of a 32-bit x86 with 4 KB pages from the directory at \<open>dir\<close>: \<open>None\<close> is
  a page fault. \<open>user_page\<close> tells whether ring 3 may use the page.
\<close>

definition walk :: "memory \<Rightarrow> u32 \<Rightarrow> u32 \<Rightarrow> u32 option" where
  "walk m dir va =
     (let pde = load32 m (entry dir (dix va))
      in if \<not> present pde then None
         else let pte = load32 m (entry (frame_of pde) (tix va))
              in if \<not> present pte then None else Some (frame_of pte OR (va AND 0xFFF)))"

definition user_page :: "memory \<Rightarrow> u32 \<Rightarrow> u32 \<Rightarrow> bool" where
  "user_page m dir va \<longleftrightarrow>
     (let pde = load32 m (entry dir (dix va)); pte = load32 m (entry (frame_of pde) (tix va))
      in present pde \<and> present pte \<and> bit pde 2 \<and> bit pte 2)"

section \<open>Frames\<close>

definition aligned :: "u32 \<Rightarrow> bool" where "aligned a \<longleftrightarrow> 4096 dvd unat a"

lemma mask12: "(0xFFF :: u32) = mask 12"
  by (simp add: mask_numeral)

lemma mask10: "(0x3FF :: u32) = mask 10"
  by (simp add: mask_numeral)

lemma bit_not_fff: "n < 32 \<Longrightarrow> bit (NOT 0xFFF :: u32) n \<longleftrightarrow> 12 \<le> n"
  unfolding mask12 by (auto simp: bit_not_iff bit_mask_iff)

lemma bit_frame_of: "bit (frame_of e) n \<longleftrightarrow> bit e n \<and> 12 \<le> n"
  using bit_imp_le_length [of e n] bit_not_fff [of n] by (auto simp: frame_of_def bit_and_iff)

lemma aligned_bits: "aligned a \<longleftrightarrow> (\<forall>n < 12. \<not> bit a n)"
proof -
  have "aligned a \<longleftrightarrow> take_bit 12 a = 0"
    by (simp add: aligned_def take_bit_eq_mod word_unat_eq_iff unat_mod dvd_eq_mod_eq_0)
  also have "\<dots> \<longleftrightarrow> (\<forall>n < 12. \<not> bit a n)"
    by (auto simp: bit_eq_iff bit_take_bit_iff) 
  finally show ?thesis .
qed

lemma bit_7: "bit (7 :: u32) n \<longleftrightarrow> n < 3"
proof -
  have "(7 :: u32) = mask 3" by (simp add: mask_numeral)
  then have "bit (7 :: u32) n \<longleftrightarrow> bit (mask 3 :: u32) n" by (simp only:)
  also have "\<dots> \<longleftrightarrow> n < 3" by (simp only: bit_mask_iff) auto
  finally show ?thesis .
qed

lemma aligned_frame_of: "aligned (frame_of e)"
  by (simp add: aligned_bits bit_frame_of)

lemma frame_of_or7: "frame_of (a OR 7) = frame_of a"
  by (rule bit_word_eqI) (auto simp: bit_frame_of bit_or_iff bit_7 simp del: bit_numeral_word_iff)

lemma frame_of_aligned: "aligned a \<Longrightarrow> frame_of a = a"
  by (rule bit_word_eqI) (auto simp: bit_frame_of aligned_bits not_less)

lemma present_or7 [simp]: "bit (a OR 7 :: u32) 0" "bit (a OR 7 :: u32) 2"
  by (simp_all add: bit_or_iff bit_7)

lemma and_1_present: "(e :: u32) AND 1 = 0 \<longleftrightarrow> \<not> present e"
  by (simp add: and_one_eq bit_0 even_iff_mod_2_eq_zero)

lemma index_bounds: "dix va < 1024" "tix va < 1024"
proof -
  have "unat (x AND 0x3FF) < 1024" for x :: u32
  proof -
    have "x AND 0x3FF \<le> (0x3FF :: u32)" by (rule word_and_le1)
    then show ?thesis by (simp add: word_le_nat_alt)
  qed
  then show "dix va < 1024" "tix va < 1024" by (simp_all add: dix_def tix_def)
qed

lemma entry_index:
  "b + 4 * (drop_bit 22 va AND 0x3FF) = entry b (dix va)"
  "b + 4 * (drop_bit 12 va AND 0x3FF) = entry b (tix va)"
  by (simp_all add: dix_def tix_def)

text \<open>Different frames do not meet, and the entries of a frame lie in it.\<close>

lemma frames_sep:
  assumes "aligned a" "aligned b" "a \<noteq> b"
  shows "sep 4096 a 4096 b"
proof -
  have *: "sep 4096 a 4096 b" if al: "aligned a" "aligned b" "unat a < unat b" for a b :: u32
  proof -
    obtain i where i: "unat a = 4096 * i" using al(1) unfolding aligned_def by (rule dvdE)
    obtain j where j: "unat b = 4096 * j" using al(2) unfolding aligned_def by (rule dvdE)
    note ij = i j
    have "j < 1048576" using ij unat_less_32 [of b] by simp
    then show ?thesis using ij al by (intro sep_interval) auto
  qed
  have "unat a < unat b \<or> unat b < unat a" using assms(3) by (metis nat_neq_iff word_unat_eq_iff)
  then show ?thesis using * [of a b] * [of b a] assms sep_sym by blast
qed

lemma sep_entry: "sep 4096 a k b \<Longrightarrow> i < 1024 \<Longrightarrow> sep 4 (entry a i) k b"
  using sep_sub [of 4096 a k b "4 * i" 4] by simp

lemma sep_entries:
  "sep 4096 a 4096 b \<Longrightarrow> i < 1024 \<Longrightarrow> j < 1024 \<Longrightarrow> sep 4 (entry a i) 4 (entry b j)"
  by (meson sep_entry sep_sym)

lemma sep_same_frame: "i < 1024 \<Longrightarrow> j < 1024 \<Longrightarrow> i \<noteq> j \<Longrightarrow> sep 4 (entry a i) 4 (entry a j)"
  by (rule sep_array) simp_all

lemma same_page: "dix v = dix va \<and> tix v = tix va \<longleftrightarrow> drop_bit 12 v = drop_bit 12 va"
proof -
  have d: "bit (drop_bit 22 x AND 0x3FF) n \<longleftrightarrow> n < 10 \<and> bit x (22 + n)" for x :: u32 and n
    unfolding mask10 by (auto simp: bit_and_iff bit_mask_iff bit_drop_bit_eq)
  have t: "bit (drop_bit 12 x AND 0x3FF) n \<longleftrightarrow> n < 10 \<and> bit x (12 + n)" for x :: u32 and n
    unfolding mask10 by (auto simp: bit_and_iff bit_mask_iff bit_drop_bit_eq)
  have len: "bit x (12 + n) \<Longrightarrow> n < 20" for x :: u32 and n
    using bit_imp_le_length [of x "12 + n"] by simp
  have small: "(\<forall>n < 32. (n < 10 \<and> P n) = (n < 10 \<and> Q n)) \<longleftrightarrow> (\<forall>n < (10 :: nat). P n = Q n)" for P Q
    by (safe; erule_tac x = n in allE; simp)
  have "dix v = dix va \<and> tix v = tix va \<longleftrightarrow>
      (\<forall>n < 10. bit v (22 + n) = bit va (22 + n)) \<and> (\<forall>n < 10. bit v (12 + n) = bit va (12 + n))"
    unfolding dix_def tix_def word_unat_eq_iff [symmetric] by (simp add: bit_eq_iff d t small)
  also have "\<dots> \<longleftrightarrow> (\<forall>n < 20. bit v (12 + n) = bit va (12 + n))"
  proof (rule iffI; intro allI impI conjI)
    fix n assume *: "(\<forall>n < 10. bit v (22 + n) = bit va (22 + n)) \<and> (\<forall>n < 10. bit v (12 + n) = bit va (12 + n))"
      and n: "n < (20 :: nat)"
    show "bit v (12 + n) = bit va (12 + n)"
    proof (cases "n < 10")
      case False
      then have "12 + n = 22 + (n - 10)" "n - 10 < 10" using n by simp_all
      with * show ?thesis by metis
    qed (use * in simp)
  next
    fix n assume *: "\<forall>n < 20. bit v (12 + n) = bit va (12 + n)" and n: "n < (10 :: nat)"
    have "22 + n = 12 + (10 + n)" "10 + n < 20" using n by simp_all
    with * show "bit v (22 + n) = bit va (22 + n)" by metis
  qed auto
  also have "\<dots> \<longleftrightarrow> drop_bit 12 v = drop_bit 12 va"
    by (auto simp: bit_eq_iff bit_drop_bit_eq dest: len)
  finally show ?thesis .
qed

section \<open>Well-formed page structures\<close>

definition pde :: "memory \<Rightarrow> u32 \<Rightarrow> nat \<Rightarrow> u32" where
  "pde m dir i = load32 m (entry dir i)"

definition pte :: "memory \<Rightarrow> u32 \<Rightarrow> nat \<Rightarrow> nat \<Rightarrow> u32" where
  "pte m dir i j = load32 m (entry (frame_of (pde m dir i)) j)"

lemma walk_entries:
  "walk m dir va =
     (if \<not> present (pde m dir (dix va)) then None
      else if \<not> present (pte m dir (dix va) (tix va)) then None
      else Some (frame_of (pte m dir (dix va) (tix va)) OR (va AND 0xFFF)))"
  by (simp add: walk_def pde_def pte_def Let_def)

lemma user_page_entries:
  "user_page m dir va \<longleftrightarrow>
     present (pde m dir (dix va)) \<and> present (pte m dir (dix va) (tix va)) \<and>
     bit (pde m dir (dix va)) 2 \<and> bit (pte m dir (dix va) (tix va)) 2"
  by (simp add: user_page_def pde_def pte_def Let_def)

text \<open>The directory and the tables it points to are pairwise different frames.\<close>

definition tables_ok :: "memory \<Rightarrow> u32 \<Rightarrow> bool" where
  "tables_ok m dir \<longleftrightarrow> aligned dir \<and>
     (\<forall>i < 1024. present (pde m dir i) \<longrightarrow> frame_of (pde m dir i) \<noteq> dir) \<and>
     (\<forall>i < 1024. \<forall>j < 1024. i \<noteq> j \<longrightarrow> present (pde m dir i) \<longrightarrow> present (pde m dir j) \<longrightarrow>
        frame_of (pde m dir i) \<noteq> frame_of (pde m dir j))"

text \<open>Writing a table entry of a present table.\<close>

lemma pde_table_write:
  assumes ok: "tables_ok m dir" and d: "d < 1024" "present (pde m dir d)" and t: "t < 1024" and i: "i < 1024"
  shows "pde (store32 m (entry (frame_of (pde m dir d)) t) v) dir i = pde m dir i"
proof -
  have "sep 4096 (frame_of (pde m dir d)) 4096 dir"
    using ok d by (intro frames_sep aligned_frame_of) (auto simp: tables_ok_def)
  from sep_entries [OF this t i] show ?thesis by (simp add: pde_def load32_store32_sep)
qed

lemma pte_table_write:
  assumes ok: "tables_ok m dir" and d: "d < 1024" "present (pde m dir d)" and t: "t < 1024"
    and i: "i < 1024" "present (pde m dir i)" and j: "j < 1024"
  shows "pte (store32 m (entry (frame_of (pde m dir d)) t) v) dir i j =
     (if i = d \<and> j = t then v else pte m dir i j)"
proof -
  note p = pde_table_write [OF ok d t i(1), of v]
  show ?thesis
  proof (cases "i = d")
    case True
    then show ?thesis using p t j by (auto simp: pte_def load32_store32_sep sep_same_frame)
  next
    case False
    then have "sep 4096 (frame_of (pde m dir d)) 4096 (frame_of (pde m dir i))"
      using ok d i by (intro frames_sep aligned_frame_of) (auto simp: tables_ok_def)
    from sep_entries [OF this t j] False p show ?thesis by (simp add: pte_def load32_store32_sep)
  qed
qed

lemma walk_table_write:
  assumes ok: "tables_ok m dir" and d: "present (pde m dir (dix va))" and v: "present v"
  shows "walk (store32 m (entry (frame_of (pde m dir (dix va))) (tix va)) v) dir w =
     (if drop_bit 12 w = drop_bit 12 va then Some (frame_of v OR (w AND 0xFFF)) else walk m dir w)"
    "tables_ok (store32 m (entry (frame_of (pde m dir (dix va))) (tix va)) v) dir"
proof -
  let ?m = "store32 m (entry (frame_of (pde m dir (dix va))) (tix va)) v"
  have pd: "pde ?m dir i = pde m dir i" if "i < 1024" for i
    by (rule pde_table_write [OF ok index_bounds(1) d index_bounds(2) that])
  have pt: "pte ?m dir (dix w) (tix w) =
      (if dix w = dix va \<and> tix w = tix va then v else pte m dir (dix w) (tix w))"
    if "present (pde m dir (dix w))"
    by (rule pte_table_write [OF ok index_bounds(1) d index_bounds(2) index_bounds(1) that index_bounds(2)])
  show "walk ?m dir w =
     (if drop_bit 12 w = drop_bit 12 va then Some (frame_of v OR (w AND 0xFFF)) else walk m dir w)"
    unfolding same_page [symmetric] using d v pt by (auto simp: walk_entries pd index_bounds)
  show "tables_ok ?m dir" using ok by (simp add: tables_ok_def pd)
qed

lemma user_table_write:
  assumes ok: "tables_ok m dir" and d: "present (pde m dir (dix va))" "bit (pde m dir (dix va)) 2"
    and v: "present v" "bit v 2" and w: "drop_bit 12 w = drop_bit 12 va"
  shows "user_page (store32 m (entry (frame_of (pde m dir (dix va))) (tix va)) v) dir w"
proof -
  have ix: "dix w = dix va" "tix w = tix va" using w by (simp_all add: same_page [symmetric])
  show ?thesis unfolding user_page_entries ix
    using pde_table_write [OF ok index_bounds(1) d(1) index_bounds(2) index_bounds(1), of va v va]
      pte_table_write [OF ok index_bounds(1) d(1) index_bounds(2) index_bounds(1) d(1) index_bounds(2), of va v va]
      d v by simp
qed

text \<open>Hooking an empty table into an empty directory slot, and raising the flags of a used one.\<close>

lemma pde_write:
  "d < 1024 \<Longrightarrow> i < 1024 \<Longrightarrow> pde (store32 m (entry dir d) e) dir i = (if i = d then e else pde m dir i)"
  by (auto simp: pde_def load32_store32_sep sep_same_frame)

lemma pte_dir_write:
  assumes ok: "tables_ok m dir" and d: "d < 1024" and i: "i < 1024" "present (pde m dir i)" and j: "j < 1024"
    and same: "pde (store32 m (entry dir d) e) dir i = e' \<and> frame_of e' = frame_of (pde m dir i)"
  shows "pte (store32 m (entry dir d) e) dir i j = pte m dir i j"
proof -
  have "sep 4096 dir 4096 (frame_of (pde m dir i))"
    using ok i by (intro frames_sep aligned_frame_of) (auto simp: tables_ok_def)
  from sep_entries [OF this d j] same show ?thesis by (simp add: pte_def load32_store32_sep)
qed

lemma upgrade_entry:
  assumes ok: "tables_ok m dir" and d: "d < 1024" "present (pde m dir d)"
  defines "m' \<equiv> store32 m (entry dir d) (pde m dir d OR 7)"
  shows "walk m' dir w = walk m dir w" "tables_ok m' dir" "frame_of (pde m' dir d) = frame_of (pde m dir d)"
    "present (pde m' dir d)"
proof -
  have p: "pde m' dir i = (if i = d then pde m dir d OR 7 else pde m dir i)" if "i < 1024" for i
    unfolding m'_def using pde_write [OF d(1) that] .
  have fr: "frame_of (pde m' dir i) = frame_of (pde m dir i)"
    and pr: "present (pde m' dir i) = present (pde m dir i)" if "i < 1024" for i
    using p [OF that] d by (auto simp: frame_of_or7)
  have pt: "pte m' dir i j = pte m dir i j" if "i < 1024" "j < 1024" "present (pde m dir i)" for i j
    unfolding m'_def using fr [OF that(1)]
    by (intro pte_dir_write [OF ok d(1) that(1) that(3) that(2), where e' = "pde m' dir i"])
      (simp add: m'_def)
  show "walk m' dir w = walk m dir w"
    using pr [OF index_bounds(1)] pt [OF index_bounds] by (simp add: walk_entries)
  show "tables_ok m' dir" using ok by (simp add: tables_ok_def fr pr)
  show "frame_of (pde m' dir d) = frame_of (pde m dir d)" "present (pde m' dir d)"
    using fr [OF d(1)] pr [OF d(1)] d(2) by simp_all
qed

lemma new_table:
  assumes ok: "tables_ok m dir" and d: "d < 1024" "\<not> present (pde m dir d)"
    and n: "aligned n" "n \<noteq> dir" "\<forall>i < 1024. present (pde m dir i) \<longrightarrow> frame_of (pde m dir i) \<noteq> n"
  defines "m' \<equiv> store32 (fill32 n 1024 (\<lambda>_. 2) m) (entry dir d) (n OR 7)"
  shows "walk m' dir w = walk m dir w" "tables_ok m' dir" "pde m' dir d = n OR 7"
proof -
  let ?f = "fill32 n 1024 (\<lambda>_. 2) m"
  have sd: "sep 4096 n 4096 dir" using ok n by (intro frames_sep) (auto simp: tables_ok_def)
  have pf: "pde ?f dir i = pde m dir i" if "i < 1024" for i
    unfolding pde_def using sep_sym [OF sep_entry [OF sep_sym [OF sd] that]]
    by (intro load32_fill32_sep) simp
  have p: "pde m' dir i = (if i = d then n OR 7 else pde m dir i)" if "i < 1024" for i
    unfolding m'_def using pde_write [OF d(1) that] pf [OF that] by simp
  have nf: "frame_of (n OR 7) = n" by (simp add: frame_of_or7 frame_of_aligned n(1))
  have pn: "pte m' dir d j = 2" if "j < 1024" for j
  proof -
    have "load32 m' (entry n j) = load32 ?f (entry n j)"
      unfolding m'_def using sep_entries [OF sep_sym [OF sd] d(1) that] by (simp add: load32_store32_sep)
    then show ?thesis using p [OF d(1)] that by (simp add: pte_def nf load32_fill32)
  qed
  have pt: "pte m' dir i j = pte m dir i j" if "i < 1024" "j < 1024" "present (pde m dir i)" for i j
  proof -
    let ?t = "frame_of (pde m dir i)"
    have "i \<noteq> d" using that d by auto
    then have e: "pde m' dir i = pde m dir i" using p that by simp
    have st: "sep 4096 dir 4096 ?t" "sep 4096 n 4096 ?t"
      using ok n that by (auto intro!: frames_sep aligned_frame_of simp: tables_ok_def)
    have "load32 m' (entry ?t j) = load32 ?f (entry ?t j)"
      unfolding m'_def using sep_entries [OF st(1) d(1) that(2)] by (simp add: load32_store32_sep)
    also have "\<dots> = load32 m (entry ?t j)"
      using sep_sym [OF sep_entry [OF sep_sym [OF st(2)] that(2)]] by (intro load32_fill32_sep) simp
    finally show ?thesis by (simp add: pte_def e)
  qed
  have nz: "\<not> present 2" by simp
  show "walk m' dir w = walk m dir w"
  proof (cases "dix w = d")
    case True
    then show ?thesis using d p [OF index_bounds(1), of w] pn [OF index_bounds(2), of w] nz
      by (auto simp: walk_entries)
  next
    case False
    then show ?thesis using p [OF index_bounds(1), of w] pt [OF index_bounds, of w]
      by (simp add: walk_entries)
  qed
  show "tables_ok m' dir" using ok n d by (auto simp: tables_ok_def p nf)
  show "pde m' dir d = n OR 7" using p d(1) by simp
qed

section \<open>Page tables and the frame bitmap\<close>

lemma span_sub: "k + n \<le> N \<Longrightarrow> span (a + of_nat k) n \<subseteq> span a N"
proof
  fix x assume h: "k + n \<le> N" "x \<in> span (a + of_nat k) n"
  then obtain i where "i < n" "x = a + of_nat k + of_nat i" by (auto simp: span_def)
  then have "x = a + of_nat (k + i)" "k + i < N" using h by simp_all
  then show "x \<in> span a N" unfolding span_def by blast
qed

lemma span_entry: "i < 1024 \<Longrightarrow> span (entry a i) 4 \<subseteq> span a 4096"
  using span_sub [of "4 * i" 4 4096 a] by simp

lemma entry_disjoint: "span a 4096 \<inter> S = {} \<Longrightarrow> i < 1024 \<Longrightarrow> span (entry a i) 4 \<inter> S = {}"
  using span_entry by blast

lemma store32_agree: "span a 4 \<inter> S = {} \<Longrightarrow> agree S m (store32 m a v)"
proof -
  assume "span a 4 \<inter> S = {}"
  then have "b \<notin> span a 4" if "b \<in> S" for b using that by blast
  then have "4 \<le> unat (b - a)" if "b \<in> S" for b using that by (auto simp: span_iff not_less)
  then show ?thesis by (simp add: agree_def store32_byte)
qed

lemma fill32_agree: "n \<le> 1024 \<Longrightarrow> span a 4096 \<inter> S = {} \<Longrightarrow> agree S m (fill32 a n f m)"
proof (induction n)
  case 0
  then show ?case by (simp add: fill32_def)
next
  case (Suc n)
  have "span (entry a n) 4 \<inter> S = {}" using span_entry [of n a] Suc.prems by fastforce
  from store32_agree [OF this] have "agree S (fill32 a n f m) (fill32 a (Suc n) f m)"
    by (simp add: fill32_def)
  with Suc show ?case by (simp add: agree_trans [of S m])
qed

lemma load32_agree0: "agree (span p n) m m' \<Longrightarrow> 4 \<le> n \<Longrightarrow> load32 m' p = load32 m p"
  using load32_agree [of p n m m' 0] by simp

lemma load32_agree_in: "agree S m m' \<Longrightarrow> span p 4 \<subseteq> S \<Longrightarrow> load32 m' p = load32 m p"
  using load32_agree0 [OF agree_mono, of S m m' p 4] by simp

text \<open>The words of managed blocks lie in the bitmap's bytes.\<close>

lemma bitmap_word_agree:
  assumes "pmm_ok s" "agree (bitmap_span s) (mem s) m" "b < managed s"
  shows "in_use (s\<lparr>mem := m\<rparr>) b = in_use s b"
proof -
  let ?i = "b div 32"
  have i: "?i < unat (total_blocks s) div 32" using assms(3) by (simp add: managed_def less_mult_imp_div_less)
  have tot: "unat (total_blocks s) < 2 ^ 20" using assms(1) by (simp add: pmm_ok_def)
  have "span (pmm_bitmap s + of_nat (4 * ?i)) 4 \<subseteq> span (pmm_bitmap s) (4 * ((unat (total_blocks s) + 31) div 32))"
    using i by (intro span_sub) simp
  also have "\<dots> = bitmap_span s" using tot by (auto simp: bitmap_span_def span_iff)
  finally have "load32 m (pmm_bitmap s + of_nat (4 * ?i)) = load32 (mem s) (pmm_bitmap s + of_nat (4 * ?i))"
    using assms(2) by (rule load32_agree_in [rotated])
  then show ?thesis by (simp add: in_use_def bitmap_word_def)
qed

lemma free_blocks_agree:
  assumes "pmm_ok s" "agree (bitmap_span s) (mem s) m"
  shows "free_blocks (s\<lparr>mem := m\<rparr>) = free_blocks s"
  using bitmap_word_agree [OF assms] by (auto simp: free_blocks_def managed_def)

lemma alloc_agree: "pmm_ok s \<Longrightarrow> agree (- bitmap_span s) (mem s) (mem (snd (pmm_alloc_block s)))"
proof -
  assume ok: "pmm_ok s"
  have "bitmap_bytes s \<le> 4 * ((unat (total_blocks s) + 31) div 32)"
    unfolding bitmap_bytes_def by (intro mult_le_mono2 div_le_mono) simp
  then show ?thesis by (auto simp: agree_def bitmap_span_def intro!: alloc_mem [OF ok])
qed

lemma alloc_span [simp]: "bitmap_span (snd (pmm_alloc_block s)) = bitmap_span s"
  by (simp add: bitmap_span_def)

definition frames :: "memory \<Rightarrow> u32 \<Rightarrow> u32 set" where
  "frames m dir = insert dir ((\<lambda>i. frame_of (pde m dir i)) ` {i. i < 1024 \<and> present (pde m dir i)})"

lemma frames_cong:
  assumes "\<And>i. i < 1024 \<Longrightarrow> present (pde m' dir i) = present (pde m dir i)"
    and "\<And>i. i < 1024 \<Longrightarrow> frame_of (pde m' dir i) = frame_of (pde m dir i)"
  shows "frames m' dir = frames m dir"
proof -
  have "{i. i < 1024 \<and> present (pde m' dir i)} = {i. i < 1024 \<and> present (pde m dir i)}"
    using assms(1) by auto
  then show ?thesis unfolding frames_def using assms(2) by (auto intro!: image_cong)
qed

definition frame_bytes :: "u32 set \<Rightarrow> u32 set" where
  "frame_bytes F = (\<Union>f \<in> F. span f 4096)"

text \<open>The page structure, its frames taken in the bitmap and apart from it.\<close>

definition paging_ok :: "'a paging_scheme \<Rightarrow> bool" where
  "paging_ok s \<longleftrightarrow> pmm_ok s \<and> tables_ok (mem s) (kernel_directory s) \<and>
     (\<forall>f \<in> frames (mem s) (kernel_directory s). block_of f \<notin> free_blocks s \<and> span f 4096 \<inter> bitmap_span s = {})"

text \<open>
  The allocator hands out the lowest free block. \<open>next_apart\<close>: that block does not overlap the
  bitmap; \<open>low_apart n\<close>: neither do the next \<open>n\<close> blocks that it will hand out.
\<close>

definition next_apart :: "'a pmm_scheme \<Rightarrow> bool" where
  "next_apart s \<longleftrightarrow> span (of_nat (Min (free_blocks s)) * BLOCK_SIZE) 4096 \<inter> bitmap_span s = {}"

definition low_apart :: "nat \<Rightarrow> 'a pmm_scheme \<Rightarrow> bool" where
  "low_apart n s \<longleftrightarrow> (\<forall>b \<in> free_blocks s. card {c \<in> free_blocks s. c < b} < n \<longrightarrow>
     span (of_nat b * BLOCK_SIZE) 4096 \<inter> bitmap_span s = {})"

lemma card_below:
  assumes "finite (F :: nat set)" "b \<in> F"
  shows "b = Min F \<Longrightarrow> card {c \<in> F. c < b} = 0"
    "b \<noteq> Min F \<Longrightarrow> card {c \<in> F. c < b} = Suc (card {c \<in> F - {Min F}. c < b})"
proof -
  define m where "m = Min F"
  have m: "m \<in> F" "\<forall>c \<in> F. m \<le> c"
    unfolding m_def using assms Min_in [of F] by (blast, simp)
  then have "{c \<in> F. c < m} = {}" by auto
  then show "b = Min F \<Longrightarrow> card {c \<in> F. c < b} = 0" by (simp flip: m_def)
  assume "b \<noteq> Min F"
  then have "{c \<in> F. c < b} = insert m {c \<in> F - {m}. c < b}"
    using m assms(2) by (auto simp: le_neq_implies_less simp flip: m_def)
  moreover have "finite {c \<in> F - {m}. c < b}" using assms(1) by simp
  ultimately show "card {c \<in> F. c < b} = Suc (card {c \<in> F - {Min F}. c < b})"
    by (simp flip: m_def)
qed

lemma low_apart_next:
  assumes "low_apart n s" "0 < n" "free_blocks s \<noteq> {}"
  shows "next_apart s"
proof -
  have b: "Min (free_blocks s) \<in> free_blocks s" using assms(3) by simp
  then have "card {c \<in> free_blocks s. c < Min (free_blocks s)} < n"
    using assms(2) by (simp only: card_below(1) [OF finite_free_blocks b refl])
  with b assms(1) show ?thesis unfolding low_apart_def next_apart_def by blast
qed

lemma low_apart_alloc:
  assumes "low_apart (Suc n) s" "free_blocks t = free_blocks s - {Min (free_blocks s)}"
    "bitmap_span t = bitmap_span s"
  shows "low_apart n t"
  unfolding low_apart_def
proof (intro ballI impI)
  fix b assume b: "b \<in> free_blocks t" and c: "card {c \<in> free_blocks t. c < b} < n"
  have bs: "b \<in> free_blocks s" "b \<noteq> Min (free_blocks s)" using b assms(2) by auto
  have "card {c \<in> free_blocks s. c < b} < Suc n"
    using card_below(2) [OF finite_free_blocks bs] c by (simp only: assms(2))
  with assms(1,3) bs(1) show "span (of_nat b * BLOCK_SIZE) 4096 \<inter> bitmap_span t = {}"
    unfolding low_apart_def by blast
qed

definition frames_apart :: "'a pmm_scheme \<Rightarrow> bool" where
  "frames_apart s \<longleftrightarrow> (\<forall>b \<in> free_blocks s. span (of_nat b * BLOCK_SIZE) 4096 \<inter> bitmap_span s = {})"

lemma frames_apart_low: "frames_apart s \<Longrightarrow> low_apart n s"
  by (simp add: low_apart_def frames_apart_def)

lemma structure_agree:
  assumes "agree (frame_bytes (frames m dir)) m m'"
  shows "\<forall>i < 1024. pde m' dir i = pde m dir i" "walk m' dir va = walk m dir va"
    "tables_ok m' dir = tables_ok m dir" "frames m' dir = frames m dir"
proof -
  have sub: "span f 4096 \<subseteq> frame_bytes (frames m dir)" if "f \<in> frames m dir" for f
    using that by (auto simp: frame_bytes_def)
  have d: "dir \<in> frames m dir" by (simp add: frames_def)
  show p: "\<forall>i < 1024. pde m' dir i = pde m dir i"
  proof (intro allI impI)
    fix i :: nat assume "i < 1024"
    then have "span (entry dir i) 4 \<subseteq> frame_bytes (frames m dir)"
      using span_entry [of i dir] sub [OF d] by (rule_tac order_trans)
    from load32_agree_in [OF assms this] show "pde m' dir i = pde m dir i" by (simp add: pde_def)
  qed
  have t: "pte m' dir i j = pte m dir i j" if "i < 1024" "j < 1024" "present (pde m dir i)" for i j
  proof -
    have "frame_of (pde m dir i) \<in> frames m dir" using that by (auto simp: frames_def)
    from sub [OF this] span_entry [OF that(2)] have
      "span (entry (frame_of (pde m dir i)) j) 4 \<subseteq> frame_bytes (frames m dir)" by blast
    from load32_agree_in [OF assms this] show ?thesis using p that by (simp add: pte_def)
  qed
  show "walk m' dir va = walk m dir va" using p t [OF index_bounds] index_bounds [of va]
    by (simp add: walk_entries)
  show "tables_ok m' dir = tables_ok m dir" using p by (auto simp: tables_ok_def)
  show "frames m' dir = frames m dir" using p by (intro frames_cong) simp_all
qed

section \<open>A page remapped\<close>

text \<open>
  What \<open>map_page\<close> is to do to the tables. \<open>linked\<close>: a new table is taken from the allocator,
  cleared and linked into the empty slot of the directory. \<open>entered\<close>: the slot is opened to ring 3
  and the entry of the page is written.
\<close>

definition linked :: "u32 \<Rightarrow> 'a paging_scheme \<Rightarrow> 'a paging_scheme" where
  "linked va s =
     (let (n, s) = pmm_alloc_block s
      in s\<lparr>mem := store32 (fill32 n 1024 (\<lambda>_. 2) (mem s)) (entry (kernel_directory s) (dix va)) (n OR 7)\<rparr>)"

definition entered :: "u32 \<Rightarrow> u32 \<Rightarrow> 'a paging_scheme \<Rightarrow> 'a paging_scheme" where
  "entered va pa s =
     (let d = kernel_directory s; m = store32 (mem s) (entry d (dix va)) (pde (mem s) d (dix va) OR 7)
      in s\<lparr>mem := store32 m (entry (frame_of (pde m d (dix va))) (tix va)) (pa OR 7)\<rparr>)"

definition remapped :: "u32 \<Rightarrow> u32 \<Rightarrow> 'a paging_scheme \<Rightarrow> 'a paging_scheme" where
  "remapped va pa s =
     entered va pa (if present (pde (mem s) (kernel_directory s) (dix va)) then s else linked va s)"

text \<open>Writes into page-table frames keep the frame bitmap and the rest of \<open>paging_ok\<close>.\<close>

lemma paging_ok_update:
  assumes ok: "paging_ok s" and ag: "agree (bitmap_span s) (mem s) m"
    and t: "tables_ok m (kernel_directory s)" and f: "frames m (kernel_directory s) = frames (mem s) (kernel_directory s)"
  shows "paging_ok (s\<lparr>mem := m\<rparr>)"
proof -
  have p: "pmm_ok s" using ok by (simp add: paging_ok_def)
  have "pmm_ok (s\<lparr>mem := m\<rparr>) = pmm_ok s" "bitmap_span (s\<lparr>mem := m\<rparr>) = bitmap_span s"
    by (simp_all add: pmm_ok_def bitmap_span_def)
  then show ?thesis using ok t f free_blocks_agree [OF p ag] by (simp add: paging_ok_def)
qed

lemma entered_present:
  assumes ok: "paging_ok s" and pr: "present (pde (mem s) (kernel_directory s) (dix va))"
  shows "paging_ok (entered va pa s)"
    "kernel_directory (entered va pa s) = kernel_directory s"
    "free_blocks (entered va pa s) = free_blocks s"
    "walk (mem (entered va pa s)) (kernel_directory s) w =
       (if drop_bit 12 w = drop_bit 12 va then Some (frame_of pa OR (w AND 0xFFF))
        else walk (mem s) (kernel_directory s) w)"
    "drop_bit 12 w = drop_bit 12 va \<Longrightarrow> user_page (mem (entered va pa s)) (kernel_directory s) w"
    "frames (mem (entered va pa s)) (kernel_directory s) = frames (mem s) (kernel_directory s)"
    "S \<inter> frame_bytes (frames (mem s) (kernel_directory s)) = {} \<Longrightarrow> agree S (mem s) (mem (entered va pa s))"
    "i < 1024 \<Longrightarrow> i \<noteq> dix va \<Longrightarrow> pde (mem (entered va pa s)) (kernel_directory s) i = pde (mem s) (kernel_directory s) i"
    "frame_of (pde (mem (entered va pa s)) (kernel_directory s) (dix va)) = frame_of (pde (mem s) (kernel_directory s) (dix va))"
proof -
  let ?d = "kernel_directory s" and ?i = "dix va"
  have tok: "tables_ok (mem s) ?d" and pok: "pmm_ok s" using ok by (simp_all add: paging_ok_def)
  define m1 where "m1 = store32 (mem s) (entry ?d ?i) (pde (mem s) ?d ?i OR 7)"
  define m2 where "m2 = store32 m1 (entry (frame_of (pde m1 ?d ?i)) (tix va)) (pa OR 7)"
  note u = upgrade_entry [OF tok index_bounds(1) pr, folded m1_def]
  note w = walk_table_write [OF u(2) u(4) present_or7(1) [of pa], folded m2_def]
  have eq: "entered va pa s = s\<lparr>mem := m2\<rparr>" by (simp add: entered_def Let_def m1_def m2_def)
  have p1: "pde m1 ?d i = (if i = ?i then pde (mem s) ?d ?i OR 7 else pde (mem s) ?d i)" if "i < 1024" for i
    unfolding m1_def using pde_write [OF index_bounds(1) that] .
  have p2: "pde m2 ?d i = pde m1 ?d i" if "i < 1024" for i
    unfolding m2_def by (rule pde_table_write [OF u(2) index_bounds(1) u(4) index_bounds(2) that])
  have f: "frames m2 ?d = frames (mem s) ?d"
    using p1 p2 pr by (intro frames_cong) (auto simp: frame_of_or7)
  have ins: "?d \<in> frames (mem s) ?d" "frame_of (pde m1 ?d ?i) \<in> frames (mem s) ?d"
    using pr u(3) index_bounds(1) [of va] by (auto simp: frames_def)
  have agS: "agree S (mem s) m2" if "S \<inter> frame_bytes (frames (mem s) ?d) = {}" for S
  proof -
    have "span ?d 4096 \<inter> S = {}" "span (frame_of (pde m1 ?d ?i)) 4096 \<inter> S = {}"
      using that ins by (auto simp: frame_bytes_def)
    then have "agree S (mem s) m1" "agree S m1 m2"
      unfolding m1_def m2_def by (simp_all add: store32_agree entry_disjoint index_bounds)
    then show ?thesis by (rule agree_trans)
  qed
  have "bitmap_span s \<inter> frame_bytes (frames (mem s) ?d) = {}"
    using ok by (auto simp: paging_ok_def frame_bytes_def)
  then have ag: "agree (bitmap_span s) (mem s) m2" by (rule agS)
  show "paging_ok (entered va pa s)" unfolding eq by (rule paging_ok_update [OF ok ag w(2) f])
  show "kernel_directory (entered va pa s) = ?d" by (simp add: eq)
  show "free_blocks (entered va pa s) = free_blocks s"
    unfolding eq by (rule free_blocks_agree [OF pok ag])
  show "walk (mem (entered va pa s)) ?d w =
       (if drop_bit 12 w = drop_bit 12 va then Some (frame_of pa OR (w AND 0xFFF))
        else walk (mem s) ?d w)"
    using w(1) u(1) by (simp add: eq frame_of_or7)
  show "drop_bit 12 w = drop_bit 12 va \<Longrightarrow> user_page (mem (entered va pa s)) ?d w"
    unfolding eq m2_def using user_table_write [OF u(2) u(4) _ present_or7] p1 [OF index_bounds(1)]
    by simp
  show "frames (mem (entered va pa s)) ?d = frames (mem s) ?d" by (simp add: eq f)
  show "S \<inter> frame_bytes (frames (mem s) ?d) = {} \<Longrightarrow> agree S (mem s) (mem (entered va pa s))"
    using agS by (simp add: eq)
  show "i < 1024 \<Longrightarrow> i \<noteq> dix va \<Longrightarrow> pde (mem (entered va pa s)) ?d i = pde (mem s) ?d i"
    using p1 p2 by (simp add: eq)
  show "frame_of (pde (mem (entered va pa s)) ?d ?i) = frame_of (pde (mem s) ?d ?i)"
    using p1 p2 index_bounds(1) [of va] by (simp add: eq frame_of_or7)
qed

lemma kernel_directory_alloc [simp, frame]:
  "kernel_directory (snd (pmm_alloc_block s)) = kernel_directory s"
  "cr0 (snd (pmm_alloc_block s)) = cr0 s" "cr3 (snd (pmm_alloc_block s)) = cr3 s"
  by (simp_all add: pmm_alloc_block_def set_bitmap_word_def Let_def)

lemma alloc_frame_facts:
  assumes ok: "paging_ok s" and ne: "free_blocks s \<noteq> {}"
  defines "n \<equiv> fst (pmm_alloc_block s)" and "s1 \<equiv> snd (pmm_alloc_block s)" and "d \<equiv> kernel_directory s"
  shows "aligned n" "block_of n = Min (free_blocks s)" "n \<notin> frames (mem s) d" "n \<noteq> 0xFFFFFFFF"
    "next_apart s \<Longrightarrow> span n 4096 \<inter> bitmap_span s = {}" "frames (mem s1) d = frames (mem s) d"
    "tables_ok (mem s1) d" "walk (mem s1) d w = walk (mem s) d w"
    "\<forall>i < 1024. pde (mem s1) d i = pde (mem s) d i" "paging_ok s1"
proof -
  have pok: "pmm_ok s" using ok by (simp add: paging_ok_def)
  note a = alloc_some [OF pok ne]
  let ?b = "Min (free_blocks s)"
  have b: "?b \<in> free_blocks s" using ne by simp
  have n: "n = of_nat ?b * BLOCK_SIZE" using a(1) by (simp add: n_def)
  show al: "aligned n" unfolding n aligned_def using block_address(1) [OF a(3)] by simp
  show bn: "block_of n = ?b" unfolding n using block_address(2) [OF a(3)] .
  show "n \<noteq> 0xFFFFFFFF" unfolding n using block_address(5) [OF a(3)] .
  show nf: "n \<notin> frames (mem s) d" using ok b bn by (auto simp: paging_ok_def d_def)
  show sp: "next_apart s \<Longrightarrow> span n 4096 \<inter> bitmap_span s = {}" by (simp add: next_apart_def n)
  have "frame_bytes (frames (mem s) d) \<subseteq> - bitmap_span s"
    using ok by (auto simp: paging_ok_def frame_bytes_def d_def)
  from agree_mono [OF alloc_agree [OF pok] this]
  have ag: "agree (frame_bytes (frames (mem s) d)) (mem s) (mem s1)" by (simp add: s1_def)
  note st = structure_agree [OF ag]
  show fr: "frames (mem s1) d = frames (mem s) d" by (rule st(4))
  show "walk (mem s1) d w = walk (mem s) d w" by (rule st(2))
  show "\<forall>i < 1024. pde (mem s1) d i = pde (mem s) d i" by (rule st(1))
  show t: "tables_ok (mem s1) d" using st(3) ok by (simp add: paging_ok_def d_def)
  have kd: "kernel_directory s1 = d" by (simp add: s1_def d_def)
  have "free_blocks s1 = free_blocks s - {?b}" using free_blocks_alloc [OF pok ne] by (simp add: s1_def)
  moreover have "pmm_ok s1" "bitmap_span s1 = bitmap_span s" using pok by (simp_all add: s1_def)
  ultimately show "paging_ok s1" using ok t fr kd by (auto simp: paging_ok_def d_def)
qed

lemma linked_facts:
  assumes ok: "paging_ok s" and pr: "\<not> present (pde (mem s) (kernel_directory s) (dix va))"
    and ne: "free_blocks s \<noteq> {}" and na: "next_apart s"
  shows "paging_ok (linked va s)" "kernel_directory (linked va s) = kernel_directory s"
    "free_blocks (linked va s) = free_blocks s - {Min (free_blocks s)}"
    "walk (mem (linked va s)) (kernel_directory s) w = walk (mem s) (kernel_directory s) w"
    "frames (mem (linked va s)) (kernel_directory s) =
       insert (fst (pmm_alloc_block s)) (frames (mem s) (kernel_directory s))"
    "i < 1024 \<Longrightarrow> pde (mem (linked va s)) (kernel_directory s) i =
       (if i = dix va then fst (pmm_alloc_block s) OR 7 else pde (mem s) (kernel_directory s) i)"
proof -
  let ?d = "kernel_directory s" and ?i = "dix va"
  define n where "n = fst (pmm_alloc_block s)"
  define s1 where "s1 = snd (pmm_alloc_block s)"
  define f where "f = fill32 n 1024 (\<lambda>_. 2) (mem s1)"
  define m1 where "m1 = store32 f (entry ?d ?i) (n OR 7)"
  note a = alloc_frame_facts [OF ok ne, folded n_def s1_def]
  have kd: "kernel_directory s1 = ?d" by (simp add: s1_def)
  have tabs: "\<forall>i < 1024. present (pde (mem s1) ?d i) \<longrightarrow> frame_of (pde (mem s1) ?d i) \<noteq> n"
    "n \<noteq> ?d" using a(3,6) by (auto simp: frames_def)
  have pr1: "\<not> present (pde (mem s1) ?d ?i)" using a(9) pr index_bounds by simp
  note nt = new_table [OF a(7) index_bounds(1) pr1 a(1) tabs(2) tabs(1), folded f_def m1_def]
  have eq: "linked va s = s1\<lparr>mem := m1\<rparr>"
    by (simp add: linked_def m1_def f_def n_def s1_def kd [unfolded s1_def] case_prod_beta Let_def)
  have p1: "pde m1 ?d i = (if i = ?i then n OR 7 else pde (mem s) ?d i)" if "i < 1024" for i
  proof -
    have "sep 4096 n 4096 ?d" using a(1,7) tabs(2) by (intro frames_sep) (auto simp: tables_ok_def)
    then have "sep (4 * 1024) n 4 (entry ?d i)"
      using sep_sym [OF sep_entry [OF sep_sym that]] by simp
    then show ?thesis unfolding m1_def using pde_write [OF index_bounds(1) that] a(9) that
      by (simp add: pde_def f_def load32_fill32_sep)
  qed
  have fr: "frames m1 ?d = insert n (frames (mem s) ?d)"
  proof -
    let ?P = "{i. i < 1024 \<and> present (pde (mem s) ?d i)}"
    have "{i. i < 1024 \<and> present (pde m1 ?d i)} = insert ?i ?P"
      using p1 pr index_bounds(1) [of va] by auto
    moreover have "(\<lambda>i. frame_of (pde m1 ?d i)) ` ?P = (\<lambda>i. frame_of (pde (mem s) ?d i)) ` ?P"
      using p1 pr by (intro image_cong) auto
    moreover have "frame_of (pde m1 ?d ?i) = n"
      using p1 index_bounds(1) [of va] by (simp add: frame_of_or7 frame_of_aligned a(1))
    ultimately show ?thesis unfolding frames_def by (simp add: insert_commute)
  qed
  have "?d \<in> frames (mem s) ?d" by (simp add: frames_def)
  then have "span ?d 4096 \<inter> bitmap_span s = {}" using ok by (simp add: paging_ok_def)
  then have "agree (bitmap_span s) (mem s1) f" "agree (bitmap_span s) f m1"
    unfolding f_def m1_def by (simp_all add: fill32_agree store32_agree entry_disjoint index_bounds a(5) [OF na])
  then have ag: "agree (bitmap_span s1) (mem s1) m1" by (auto simp: s1_def agree_def)
  have p1ok: "pmm_ok s1" using a(10) by (simp add: paging_ok_def)
  have fb: "free_blocks (s1\<lparr>mem := m1\<rparr>) = free_blocks s - {Min (free_blocks s)}"
    using free_blocks_agree [OF p1ok ag] free_blocks_alloc [of s] ok ne by (simp add: paging_ok_def s1_def)
  have sp: "bitmap_span (s1\<lparr>mem := m1\<rparr>) = bitmap_span s" by (simp add: bitmap_span_def s1_def)
  have "pmm_ok (s1\<lparr>mem := m1\<rparr>)" using p1ok by (simp add: pmm_ok_def)
  then show "paging_ok (linked va s)" unfolding eq paging_ok_def
    using ok nt(2) fr a(2) a(5) [OF na] by (auto simp: fb sp kd paging_ok_def)
  show "free_blocks (linked va s) = free_blocks s - {Min (free_blocks s)}" unfolding eq by (rule fb)
  show "kernel_directory (linked va s) = ?d" "walk (mem (linked va s)) ?d w = walk (mem s) ?d w"
    "frames (mem (linked va s)) ?d = insert (fst (pmm_alloc_block s)) (frames (mem s) ?d)"
    using nt(1) a(8) fr by (simp_all add: eq kd n_def)
  show "i < 1024 \<Longrightarrow> pde (mem (linked va s)) ?d i =
       (if i = ?i then fst (pmm_alloc_block s) OR 7 else pde (mem s) ?d i)"
    using p1 by (simp add: eq n_def)
qed

lemma remapped_present:
  assumes ok: "paging_ok s" and pr: "present (pde (mem s) (kernel_directory s) (dix va))"
  shows "paging_ok (remapped va pa s)"
    "kernel_directory (remapped va pa s) = kernel_directory s"
    "free_blocks (remapped va pa s) = free_blocks s"
    "walk (mem (remapped va pa s)) (kernel_directory s) w =
       (if drop_bit 12 w = drop_bit 12 va then Some (frame_of pa OR (w AND 0xFFF))
        else walk (mem s) (kernel_directory s) w)"
    "drop_bit 12 w = drop_bit 12 va \<Longrightarrow> user_page (mem (remapped va pa s)) (kernel_directory s) w"
    "frames (mem (remapped va pa s)) (kernel_directory s) = frames (mem s) (kernel_directory s)"
    "S \<inter> frame_bytes (frames (mem s) (kernel_directory s)) = {} \<Longrightarrow> agree S (mem s) (mem (remapped va pa s))"
    "i < 1024 \<Longrightarrow> i \<noteq> dix va \<Longrightarrow> pde (mem (remapped va pa s)) (kernel_directory s) i = pde (mem s) (kernel_directory s) i"
  using entered_present [OF assms, where pa = pa] pr by (simp_all add: remapped_def)

lemma remapped_absent:
  assumes ok: "paging_ok s" and pr: "\<not> present (pde (mem s) (kernel_directory s) (dix va))"
    and ne: "free_blocks s \<noteq> {}" and na: "next_apart s"
  shows "paging_ok (remapped va pa s)"
    "kernel_directory (remapped va pa s) = kernel_directory s"
    "free_blocks (remapped va pa s) = free_blocks s - {Min (free_blocks s)}"
    "walk (mem (remapped va pa s)) (kernel_directory s) w =
       (if drop_bit 12 w = drop_bit 12 va then Some (frame_of pa OR (w AND 0xFFF))
        else walk (mem s) (kernel_directory s) w)"
    "drop_bit 12 w = drop_bit 12 va \<Longrightarrow> user_page (mem (remapped va pa s)) (kernel_directory s) w"
    "frames (mem (remapped va pa s)) (kernel_directory s) =
       insert (fst (pmm_alloc_block s)) (frames (mem s) (kernel_directory s))"
    "i < 1024 \<Longrightarrow> i \<noteq> dix va \<Longrightarrow> pde (mem (remapped va pa s)) (kernel_directory s) i = pde (mem s) (kernel_directory s) i"
    "frame_of (pde (mem (remapped va pa s)) (kernel_directory s) (dix va)) = fst (pmm_alloc_block s)"
proof -
  let ?u = "linked va s"
  note l = linked_facts [OF ok pr ne na]
  have eq: "remapped va pa s = entered va pa ?u" using pr by (simp add: remapped_def)
  have "present (pde (mem ?u) (kernel_directory ?u) (dix va))" using l(2) l(6) [OF index_bounds(1)] by simp
  note e = entered_present [OF l(1) this, where pa = pa, unfolded l(2,3,5)]
  show "paging_ok (remapped va pa s)"
    "kernel_directory (remapped va pa s) = kernel_directory s"
    "free_blocks (remapped va pa s) = free_blocks s - {Min (free_blocks s)}"
    "walk (mem (remapped va pa s)) (kernel_directory s) w =
       (if drop_bit 12 w = drop_bit 12 va then Some (frame_of pa OR (w AND 0xFFF))
        else walk (mem s) (kernel_directory s) w)"
    "drop_bit 12 w = drop_bit 12 va \<Longrightarrow> user_page (mem (remapped va pa s)) (kernel_directory s) w"
    "frames (mem (remapped va pa s)) (kernel_directory s) =
       insert (fst (pmm_alloc_block s)) (frames (mem s) (kernel_directory s))"
    using e(1-6) l(4) by (simp_all add: eq)
  show "i < 1024 \<Longrightarrow> i \<noteq> dix va \<Longrightarrow> pde (mem (remapped va pa s)) (kernel_directory s) i = pde (mem s) (kernel_directory s) i"
    using e(8) l(6) by (simp add: eq)
  have "aligned (fst (pmm_alloc_block s))" by (rule alloc_frame_facts(1) [OF ok ne])
  then show "frame_of (pde (mem (remapped va pa s)) (kernel_directory s) (dix va)) = fst (pmm_alloc_block s)"
    using e(9) l(6) [OF index_bounds(1)] by (simp add: eq frame_of_or7 frame_of_aligned)
qed

section \<open>paging_init\<close>

lemma same_pmm_paging:
  fixes s t :: "'a paging_scheme"
  assumes "same_pmm s t"
  shows "kernel_directory t = kernel_directory s" "cr3 t = cr3 s" "cr0 t = cr0 s"
    "paging.more t = paging.more s" "paging_ok t = paging_ok s"
proof -
  have "pmm.more t = pmm.more s" using assms by (rule same_pmm_blocks)
  then show k: "kernel_directory t = kernel_directory s" "cr3 t = cr3 s" "cr0 t = cr0 s"
    "paging.more t = paging.more s"
    by (cases s; cases t; simp)+
  show "paging_ok t = paging_ok s"
    using same_pmm_blocks [OF assms] same_pmm_span [OF assms] k by (simp add: paging_ok_def)
qed

text \<open>The directory: a fresh frame, all of whose entries are made not present.\<close>

definition fresh_directory :: "'a paging_scheme \<Rightarrow> 'a paging_scheme" where
  "fresh_directory s =
     (let (d, s) = pmm_alloc_block s
      in s\<lparr>kernel_directory := d, mem := fill32 d 1024 (\<lambda>_. 2) (mem s)\<rparr>)"

lemma fresh_directory_facts:
  assumes pok: "pmm_ok s" and ne: "free_blocks s \<noteq> {}"
    and out: "next_apart s"
  defines "t \<equiv> fresh_directory s"
  shows "paging_ok t" "free_blocks t = free_blocks s - {Min (free_blocks s)}"
    "\<forall>i < 1024. pde (mem t) (kernel_directory t) i = 2"
    "kernel_directory t = of_nat (Min (free_blocks s)) * BLOCK_SIZE"
    "bitmap_span t = bitmap_span s"
proof -
  let ?b = "Min (free_blocks s)" and ?s1 = "snd (pmm_alloc_block s)"
  note a = alloc_some [OF pok ne]
  have b: "?b \<in> free_blocks s" using ne by simp
  define d where "d = of_nat ?b * BLOCK_SIZE"
  have t: "t = ?s1\<lparr>kernel_directory := d, mem := fill32 d 1024 (\<lambda>_. 2) (mem ?s1)\<rparr>"
    using a(1) by (simp add: t_def fresh_directory_def Let_def d_def case_prod_beta)
  have al: "aligned d" unfolding d_def aligned_def using block_address(1) [OF a(3)] by simp
  have bd: "block_of d = ?b" unfolding d_def using block_address(2) [OF a(3)] .
  have sp: "span d 4096 \<inter> bitmap_span s = {}" using out by (simp add: next_apart_def d_def)
  show spt: "bitmap_span t = bitmap_span s" by (simp add: t bitmap_span_def)
  show kd: "kernel_directory t = of_nat ?b * BLOCK_SIZE" by (simp add: t d_def)
  show p: "\<forall>i < 1024. pde (mem t) (kernel_directory t) i = 2"
    by (simp add: t pde_def load32_fill32)
  have ag: "agree (bitmap_span ?s1) (mem ?s1) (fill32 d 1024 (\<lambda>_. 2) (mem ?s1))"
    using fill32_agree [OF _ sp, of 1024] by simp
  have "free_blocks t = free_blocks (?s1\<lparr>mem := fill32 d 1024 (\<lambda>_. 2) (mem ?s1)\<rparr>)"
    by (simp add: t free_blocks_def managed_def in_use_def bitmap_word_def)
  then show fb: "free_blocks t = free_blocks s - {?b}"
    using free_blocks_agree [OF _ ag] pok free_blocks_alloc [OF pok ne] by simp
  have "pmm_ok t" using pok by (simp add: t pmm_ok_def)
  moreover have "\<not> present 2" by simp
  then have "frames (mem t) (kernel_directory t) = {d}" "tables_ok (mem t) (kernel_directory t)"
    using p al kd by (auto simp: frames_def tables_ok_def d_def)
  ultimately show "paging_ok t" using fb spt sp bd by (auto simp: paging_ok_def)
qed

text \<open>The identity table in the first slot of such a directory; the code writes it twice.\<close>

definition identity_map :: "u32 \<Rightarrow> u32 \<Rightarrow> memory \<Rightarrow> memory" where
  "identity_map d n m = store32 (fill32 n 1024 (\<lambda>i. of_nat i * 4096 OR 7) m) d (n OR 7)"

lemma identity_walk:
  assumes "dix va = 0"
  shows "frame_of (of_nat (tix va) * 4096 OR 7) OR (va AND 0xFFF) = va"
proof -
  have "(4096 :: u32) = 2 ^ 12" by simp
  then have e: "of_nat (tix va) * 4096 = push_bit 12 (drop_bit 12 va AND mask 10)"
    by (simp only: push_bit_eq_mult mask10 [symmetric]) (simp add: tix_def)
  have hi: "\<not> bit va n" if "22 \<le> n" for n
  proof
    assume b: "bit va n"
    then have "n < 32" using bit_imp_le_length by fastforce
    then have "bit (drop_bit 22 va AND mask 10) (n - 22)" using b that
      by (auto simp: bit_and_iff bit_mask_iff bit_drop_bit_eq)
    moreover have "drop_bit 22 va AND mask 10 = 0" using assms
      by (simp add: dix_def mask10 [symmetric] unat_eq_0)
    ultimately show False by simp
  qed
  have "frame_of (push_bit 12 (drop_bit 12 va AND mask 10)) OR (va AND mask 12) = va"
  proof (rule bit_word_eqI)
    fix n :: nat assume "n < LENGTH(32)"
    then show "bit (frame_of (push_bit 12 (drop_bit 12 va AND mask 10)) OR (va AND mask 12)) n = bit va n"
      using hi [of n] by (cases "22 \<le> n") (auto simp: bit_frame_of bit_or_iff bit_and_iff bit_mask_iff
          bit_push_bit_iff bit_drop_bit_eq not_less)
  qed
  then show ?thesis by (simp only: e mask12 [symmetric] frame_of_or7)
qed

lemma dix_0: "dix va = 0 \<longleftrightarrow> unat va < 0x400000"
proof -
  have "dix va = unat va div 2 ^ 22"
  proof -
    have "unat va div 2 ^ 22 < 2 ^ 10" using unat_less_32 [of va] by simp
    then show ?thesis
      by (simp add: dix_def mask10 take_bit_eq_mask [symmetric] take_bit_eq_mod unat_mod drop_bit_eq_div unat_div)
  qed
  then show ?thesis by auto
qed

lemma identity_map_once:
  assumes al: "aligned d" "aligned n" "n \<noteq> d"
  shows "i < 1024 \<Longrightarrow> pde (identity_map d n m) d i = (if i = 0 then n OR 7 else pde m d i)"
    "j < 1024 \<Longrightarrow> load32 (identity_map d n m) (entry n j) = of_nat j * 4096 OR 7"
    "span d 4096 \<inter> S = {} \<Longrightarrow> span n 4096 \<inter> S = {} \<Longrightarrow> agree S m (identity_map d n m)"
proof -
  let ?f = "fill32 n 1024 (\<lambda>i. of_nat i * 4096 OR 7) m"
  have e: "identity_map d n m = store32 ?f (entry d 0) (n OR 7)" by (simp add: identity_map_def)
  have sd: "sep 4096 n 4096 d" using al by (intro frames_sep)
  have "pde ?f d i = pde m d i" if "i < 1024"
    unfolding pde_def using sep_sym [OF sep_entry [OF sep_sym [OF sd] that]]
    by (intro load32_fill32_sep) simp
  then show "i < 1024 \<Longrightarrow> pde (identity_map d n m) d i = (if i = 0 then n OR 7 else pde m d i)"
    unfolding e using pde_write [of 0 i ?f d "n OR 7"] by simp
  show "j < 1024 \<Longrightarrow> load32 (identity_map d n m) (entry n j) = of_nat j * 4096 OR 7"
    unfolding e using sep_entries [OF sep_sym [OF sd], of 0 j]
    by (simp add: load32_store32_sep load32_fill32)
  assume d: "span d 4096 \<inter> S = {}" and n: "span n 4096 \<inter> S = {}"
  have "agree S m ?f" by (rule fill32_agree [OF _ n]) simp
  moreover have "agree S ?f (store32 ?f (entry d 0) (n OR 7))"
    by (rule store32_agree [OF entry_disjoint [OF d]]) simp
  ultimately show "agree S m (identity_map d n m)" unfolding e by (rule agree_trans)
qed

lemma identity_map_facts:
  assumes al: "aligned d" "aligned n" "n \<noteq> d" and p: "\<forall>i < 1024. pde m d i = 2"
  defines "t \<equiv> identity_map d n (identity_map d n m)"
  shows "walk t d va = (if unat va < 0x400000 then Some va else None)"
    and "user_page t d va \<longleftrightarrow> unat va < 0x400000"
    and "tables_ok t d" and "frames t d = {d, n}"
    and "span d 4096 \<inter> S = {} \<Longrightarrow> span n 4096 \<inter> S = {} \<Longrightarrow> agree S m t"
    and "\<forall>i < 1024. present (pde t d i) \<longleftrightarrow> i = 0" and "\<forall>i < 1024. 0 < i \<longrightarrow> pde t d i = 2"
proof -
  note o = identity_map_once [OF al]
  have pd: "pde t d i = (if i = 0 then n OR 7 else 2)" if "i < 1024" for i
    unfolding t_def using o(1) [OF that] p that by simp
  have nf: "frame_of (n OR 7) = n" by (simp add: frame_of_or7 frame_of_aligned al)
  have pt: "pte t d 0 j = of_nat j * 4096 OR 7" if "j < 1024" for j
    using o(2) [OF that] pd [of 0] by (simp add: pte_def nf t_def)
  have n2: "\<not> present 2" by simp
  show "walk t d va = (if unat va < 0x400000 then Some va else None)"
    using pd [OF index_bounds(1), of va] pt [OF index_bounds(2), of va] identity_walk [of va] n2
    by (cases "dix va = 0") (simp_all add: walk_entries dix_0 [symmetric])
  show "user_page t d va \<longleftrightarrow> unat va < 0x400000"
    using pd [OF index_bounds(1), of va] pt [OF index_bounds(2), of va] n2
    by (cases "dix va = 0")
      (simp_all add: user_page_entries dix_0 [symmetric])
  show "tables_ok t d" using al(1,3) n2 by (auto simp: tables_ok_def pd nf)
  have "{i. i < 1024 \<and> present (pde t d i)} = {0}" using pd n2 by (auto split: if_splits)
  then show "frames t d = {d, n}" using pd [of 0] nf by (simp add: frames_def insert_commute)
  show "span d 4096 \<inter> S = {} \<Longrightarrow> span n 4096 \<inter> S = {} \<Longrightarrow> agree S m t"
    unfolding t_def by (metis agree_trans o(3))
  show "\<forall>i < 1024. present (pde t d i) \<longleftrightarrow> i = 0" "\<forall>i < 1024. 0 < i \<longrightarrow> pde t d i = 2" using pd n2 by simp_all
qed

text \<open>The two stages put together.\<close>

lemma paging_init_eq:
  "paging_init s =
     (if fst (pmm_alloc_block s) = 0xFFFFFFFF
      then Halts (klog_err (lit ''FATAL OS ERROR: Out of physical memory for Page Directory!\<newline>'') (snd (pmm_alloc_block s)))
      else
        let s = klog_ok (lit ''Page Directory aligned & initialized!\<newline>'') (fresh_directory s);
            (n, s) = pmm_alloc_block s
        in if n = 0xFFFFFFFF
           then Halts (klog_err (lit ''FATAL OS ERROR: Out of physical memory for Page Table!\<newline>'') s)
           else
             let d = kernel_directory s;
                 s = s\<lparr>mem := identity_map d n (identity_map d n (mem s))\<rparr>;
                 s = vga_print (lit ''Flipping MMU Switch.\<newline>'') s;
                 s = s\<lparr>cr3 := d, cr0 := cr0 s OR 0x80000000\<rparr>
             in Returns (klog_ok (lit ''Paging Active.\<newline>'') s))"
proof -
  obtain d s1 where a: "pmm_alloc_block s = (d, s1)" by fastforce
  define s2 where "s2 = klog_ok (lit ''Page Directory aligned & initialized!\<newline>'') (fresh_directory s)"
  obtain n s3 where b: "pmm_alloc_block s2 = (n, s3)" by fastforce
  have "same_pmm (fresh_directory s) s2" unfolding s2_def by (rule frp.ok [OF same_pmm_refl])
  then have "kernel_directory s2 = d" by (simp add: same_pmm_paging fresh_directory_def a)
  then have k: "kernel_directory s3 = d" using kernel_directory_alloc [of s2] b by simp
  show ?thesis
    using a b k unfolding paging_init_def fresh_directory_def identity_map_def s2_def
    by (simp add: Let_def)
qed

text \<open>The table of the first four megabytes, in the next free block.\<close>

definition with_table :: "'a paging_scheme \<Rightarrow> 'a paging_scheme" where
  "with_table s =
     (let (n, t) = pmm_alloc_block s; d = kernel_directory s
      in t\<lparr>mem := identity_map d n (identity_map d n (mem t))\<rparr>)"

lemma with_table_facts:
  assumes ok: "paging_ok s" and p: "\<forall>i < 1024. pde (mem s) (kernel_directory s) i = 2"
    and ne: "free_blocks s \<noteq> {}" and na: "next_apart s"
  defines "d \<equiv> kernel_directory s" and "n \<equiv> of_nat (Min (free_blocks s)) * BLOCK_SIZE" and "t \<equiv> with_table s"
  shows "fst (pmm_alloc_block s) \<noteq> 0xFFFFFFFF" "paging_ok t" "kernel_directory t = d"
    "free_blocks t = free_blocks s - {Min (free_blocks s)}" "bitmap_span t = bitmap_span s"
    "walk (mem t) d va = (if unat va < 0x400000 then Some va else None)"
    "user_page (mem t) d va \<longleftrightarrow> unat va < 0x400000" "frames (mem t) d = {d, n}"
    "\<forall>i < 1024. present (pde (mem t) d i) \<longleftrightarrow> i = 0" "\<forall>i < 1024. 0 < i \<longrightarrow> pde (mem t) d i = 2"
proof -
  let ?u = "snd (pmm_alloc_block s)"
  note a = alloc_frame_facts [OF ok ne]
  note a5 = a(5) [OF na]
  have n: "fst (pmm_alloc_block s) = n" using alloc_some(1) [of s] ne ok by (simp add: n_def paging_ok_def)
  have p3: "\<forall>i < 1024. pde (mem ?u) d i = 2" using a(9) p by (simp add: d_def)
  have al: "aligned d" using ok by (simp add: paging_ok_def tables_ok_def d_def)
  have nd: "n \<noteq> d" using a(3) n by (auto simp: frames_def d_def)
  have spd: "span d 4096 \<inter> bitmap_span s = {}" using ok by (auto simp: paging_ok_def frames_def d_def)
  have t: "t = ?u\<lparr>mem := identity_map d n (identity_map d n (mem ?u))\<rparr>"
    by (simp add: t_def with_table_def Let_def case_prod_beta n d_def)
  note i = identity_map_facts [OF al a(1) [unfolded n] nd p3]
  show "fst (pmm_alloc_block s) \<noteq> 0xFFFFFFFF" by (rule a(4))
  show kd: "kernel_directory t = d" by (simp add: t d_def)
  show bs: "bitmap_span t = bitmap_span s" by (simp add: t bitmap_span_def)
  have pok: "pmm_ok ?u" using a(10) by (simp add: paging_ok_def)
  have ag: "agree (bitmap_span ?u) (mem ?u) (mem t)"
    using i(5) [OF spd a5 [unfolded n]] by (simp add: t)
  have "free_blocks t = free_blocks ?u" using free_blocks_agree [OF pok ag] by (simp add: t)
  then show fb: "free_blocks t = free_blocks s - {Min (free_blocks s)}"
    using free_blocks_alloc [of s] ne ok by (simp add: paging_ok_def)
  have m: "Min (free_blocks s) \<in> free_blocks s" using ne by simp
  show "paging_ok t" unfolding paging_ok_def
    using a(2) a5 n ok m i(3,4) kd spd fb bs pok
    by (auto simp: t paging_ok_def pmm_ok_def frames_def d_def)
  show "walk (mem t) d va = (if unat va < 0x400000 then Some va else None)" "user_page (mem t) d va \<longleftrightarrow> unat va < 0x400000"
    "frames (mem t) d = {d, n}" "\<forall>i < 1024. present (pde (mem t) d i) \<longleftrightarrow> i = 0"
    "\<forall>i < 1024. 0 < i \<longrightarrow> pde (mem t) d i = 2"
    using i(1,2,4,6,7) by (simp_all add: t)
qed

text \<open>The switch.\<close>

definition mmu_on :: "'a paging_scheme \<Rightarrow> 'a paging_scheme" where
  "mmu_on s =
     (let d = kernel_directory s;
          s = vga_print (lit ''Flipping MMU Switch.\<newline>'') s;
          s = s\<lparr>cr3 := d, cr0 := cr0 s OR 0x80000000\<rparr>
      in klog_ok (lit ''Paging Active.\<newline>'') s)"

lemma mmu_on_facts:
  "mem (mmu_on s) = mem s" "kernel_directory (mmu_on s) = kernel_directory s" "cr3 (mmu_on s) = kernel_directory s"
  "bit (cr0 (mmu_on s)) 31" "free_blocks (mmu_on s) = free_blocks s" "bitmap_span (mmu_on s) = bitmap_span s"
  "paging_ok (mmu_on s) = paging_ok s"
proof -
  define u where "u = vga_print (lit ''Flipping MMU Switch.\<newline>'') s"
  define v where "v = u\<lparr>cr3 := kernel_directory s, cr0 := cr0 u OR 0x80000000\<rparr>"
  have t: "mmu_on s = klog_ok (lit ''Paging Active.\<newline>'') v" by (simp add: mmu_on_def v_def u_def Let_def)
  have su: "same_pmm s u" unfolding u_def by (rule frp.print [OF same_pmm_refl])
  have sv: "same_pmm v (mmu_on s)" unfolding t by (rule frp.ok [OF same_pmm_refl])
  note q = same_pmm_blocks [OF su] same_pmm_paging [OF su] same_pmm_span [OF su]
    same_pmm_blocks [OF sv] same_pmm_paging [OF sv] same_pmm_span [OF sv]
  have "paging_ok v = paging_ok u" "free_blocks v = free_blocks u" "bitmap_span v = bitmap_span u"
    by (simp_all add: v_def paging_ok_def free_blocks_def managed_def in_use_def bitmap_word_def pmm_ok_def bitmap_span_def)
  with q show "mem (mmu_on s) = mem s" "kernel_directory (mmu_on s) = kernel_directory s" "cr3 (mmu_on s) = kernel_directory s"
    "bit (cr0 (mmu_on s)) 31" "free_blocks (mmu_on s) = free_blocks s" "bitmap_span (mmu_on s) = bitmap_span s"
    "paging_ok (mmu_on s) = paging_ok s"
    by (simp_all add: v_def bit_or_iff)
qed

lemma paging_init_steps:
  assumes "fst (pmm_alloc_block s) \<noteq> 0xFFFFFFFF"
  defines "u \<equiv> klog_ok (lit ''Page Directory aligned & initialized!\<newline>'') (fresh_directory s)"
  assumes "fst (pmm_alloc_block u) \<noteq> 0xFFFFFFFF"
  shows "paging_init s = Returns (mmu_on (with_table u))"
  using assms unfolding paging_init_eq
  by (simp add: Let_def case_prod_beta mmu_on_def with_table_def)

lemma paging_init_returns:
  assumes pok: "pmm_ok s" and c: "2 \<le> card (free_blocks s)" and out: "low_apart 2 s"
  shows "\<exists>t. paging_init s = Returns t \<and> paging_ok t \<and>
     (\<forall>va. walk (mem t) (cr3 t) va = (if unat va < 0x400000 then Some va else None)) \<and>
     (\<forall>va. user_page (mem t) (cr3 t) va \<longleftrightarrow> unat va < 0x400000) \<and>
     (\<forall>i < 1024. present (pde (mem t) (cr3 t) i) \<longleftrightarrow> i = 0) \<and>
     (\<forall>i < 1024. 0 < i \<longrightarrow> pde (mem t) (cr3 t) i = 2) \<and>
     cr3 t = kernel_directory t \<and> bit (cr0 t) 31 \<and>
     kernel_directory t = of_nat (Min (free_blocks s)) * BLOCK_SIZE \<and>
     free_blocks t = free_blocks s - {Min (free_blocks s), Min (free_blocks s - {Min (free_blocks s)})} \<and>
     bitmap_span t = bitmap_span s \<and>
     frames (mem t) (cr3 t) = {of_nat (Min (free_blocks s)) * BLOCK_SIZE,
       of_nat (Min (free_blocks s - {Min (free_blocks s)})) * BLOCK_SIZE}"
proof -
  define m where "m = Min (free_blocks s)"
  have ne: "free_blocks s \<noteq> {}" using c by auto
  have na: "next_apart s" by (rule low_apart_next [OF out _ ne]) simp
  note f = fresh_directory_facts [OF pok ne na, folded m_def]
  define u where "u = klog_ok (lit ''Page Directory aligned & initialized!\<newline>'') (fresh_directory s)"
  have same: "same_pmm (fresh_directory s) u" unfolding u_def by (rule frp.ok [OF same_pmm_refl])
  note q = same_pmm_blocks [OF same] same_pmm_paging [OF same] same_pmm_span [OF same]
  have u: "paging_ok u" "\<forall>i < 1024. pde (mem u) (kernel_directory u) i = 2" "free_blocks u = free_blocks s - {m}"
    "bitmap_span u = bitmap_span s" "kernel_directory u = of_nat m * BLOCK_SIZE" using f q by simp_all
  have neu: "free_blocks u \<noteq> {}"
  proof
    assume "free_blocks u = {}"
    then have "free_blocks s \<subseteq> {m}" unfolding u(3) by blast
    from card_mono [OF _ this] c show False by simp
  qed
  have "low_apart (Suc 0) u"
    by (rule low_apart_alloc [OF out [unfolded numeral_2_eq_2] u(3) [unfolded m_def] u(4)])
  then have nau: "next_apart u" by (rule low_apart_next [OF _ _ neu]) simp
  note t = with_table_facts [OF u(1,2) neu nau] and on = mmu_on_facts [of "with_table u"]
  have "fst (pmm_alloc_block s) \<noteq> 0xFFFFFFFF"
    using alloc_some(1,3) [OF pok ne] block_address(5) by simp
  from paging_init_steps [OF this] t(1) have "paging_init s = Returns (mmu_on (with_table u))" by (simp add: u_def)
  moreover have "free_blocks s - {m} - {Min (free_blocks s - {m})} = free_blocks s - {m, Min (free_blocks s - {m})}" by blast
  ultimately show ?thesis unfolding m_def [symmetric] using t on u(3-5)
    by (intro exI [of _ "mmu_on (with_table u)"] conjI) simp_all
qed

section \<open>Properties\<close>

text \<open>Demonstration: 64 blocks with the bitmap at 2 MB, the blocks 5, 9 and 12 free.\<close>

definition ram64_paging :: paging where
  "ram64_paging = pmm.extend (pmm_free_memory 0xC000 ram64_two_free)
     (paging.fields 0 0 0x11)"

lemma pmm_extend_facts:
  fixes s :: pmm and e :: 'a
  defines "t \<equiv> (pmm.extend s e :: 'a pmm_scheme)"
  shows "free_blocks t = free_blocks s" "managed t = managed s" "pmm_ok t = pmm_ok s"
    "bitmap_span t = bitmap_span s" "in_use t b = in_use s b" "mem t = mem s"
  by (simp_all add: t_def pmm.defs free_blocks_def managed_def pmm_ok_def bitmap_span_def in_use_def
      bitmap_word_def)

lemma ram64_span: "bitmap_span (ram64_two_free) = span 0x200000 8"
proof -
  have "pmm_bitmap ram64_two_free = 0x200000" by (simp add: ram64_two_free_def ram64_def)
  then show ?thesis by (auto simp: bitmap_span_def ram64_two_free_facts span_iff)
qed

lemma low_span: "k < 0x200 \<Longrightarrow> span (of_nat k * BLOCK_SIZE) 4096 \<inter> span 0x200000 8 = {}"
proof -
  assume k: "k < 0x200"
  have "unat (x - 0x200000) \<ge> 8" if "unat (x - of_nat k * BLOCK_SIZE) < 4096" for x :: u32
  proof -
    define j where "j = unat (x - of_nat k * BLOCK_SIZE)"
    have "x = of_nat (k * 4096 + j)" by (simp add: j_def BLOCK_SIZE_def)
    then have "x - 0x200000 = of_nat (0xFFE00000 + (k * 4096 + j))" by simp
    then show ?thesis using that k
      by (simp only: unat_of_nat j_def [symmetric]) (simp del: of_nat_add of_nat_numeral of_nat_mult)
  qed
  then show ?thesis by (fastforce simp: span_iff not_less)
qed

lemma ram64_paging_facts:
  "pmm_ok ram64_paging" "free_blocks ram64_paging = {5, 9, 12}" "frames_apart ram64_paging"
proof -
  show "pmm_ok ram64_paging" by (simp add: ram64_paging_def pmm_extend_facts ram64_two_free_facts)
  have "managed ram64_two_free = 64" by (simp add: managed_def ram64_two_free_facts)
  then show fb: "free_blocks ram64_paging = {5, 9, 12}"
    by (auto simp: ram64_paging_def pmm_extend_facts free_blocks_free ram64_two_free_facts)
  have "bitmap_span ram64_paging = span 0x200000 8"
    by (simp add: ram64_paging_def pmm_extend_facts ram64_span)
  then show "frames_apart ram64_paging"
    unfolding frames_apart_def fb using low_span [of 5] low_span [of 9] low_span [of 12] by simp
qed

lemma ram64_paging_boot:
  "\<exists>t. paging_init ram64_paging = Returns t \<and> paging_ok t \<and> free_blocks t = {12} \<and>
     kernel_directory t = 0x5000 \<and> cr3 t = kernel_directory t \<and> bit (cr0 t) 31 \<and> next_apart t \<and>
     (\<forall>i < 1024. present (pde (mem t) (kernel_directory t) i) \<longleftrightarrow> i = 0) \<and>
     (\<forall>va. walk (mem t) (kernel_directory t) va = (if unat va < 0x400000 then Some va else None))"
proof -
  have c: "card (free_blocks ram64_paging) = 3" by (simp add: ram64_paging_facts)
  then have "2 \<le> card (free_blocks ram64_paging)" by simp
  note r = paging_init_returns [OF ram64_paging_facts(1) this frames_apart_low [OF ram64_paging_facts(3)]]
  obtain t where t: "paging_init ram64_paging = Returns t" "paging_ok t"
    "\<forall>va. walk (mem t) (cr3 t) va = (if unat va < 0x400000 then Some va else None)"
    "cr3 t = kernel_directory t" "kernel_directory t = of_nat (Min (free_blocks ram64_paging)) * BLOCK_SIZE"
    "free_blocks t = free_blocks ram64_paging -
       {Min (free_blocks ram64_paging), Min (free_blocks ram64_paging - {Min (free_blocks ram64_paging)})}"
    "\<forall>i < 1024. present (pde (mem t) (cr3 t) i) \<longleftrightarrow> i = 0" "bitmap_span t = bitmap_span ram64_paging"
    "bit (cr0 t) 31"
    using r by (elim exE conjE) (rule that)
  have fb: "free_blocks t = {12}" using t(6) by (simp add: ram64_paging_facts insert_Diff_if)
  moreover have "next_apart t"
    using ram64_paging_facts(3) unfolding frames_apart_def next_apart_def fb t(8) ram64_paging_facts(2) by simp
  moreover have "kernel_directory t = 0x5000" using t(5) by (simp add: ram64_paging_facts BLOCK_SIZE_def)
  ultimately show ?thesis using t(1,2,4,9) t(3,7) [unfolded t(4)] by (intro exI [of _ t] conjI)
qed

text \<open>C5: With two free blocks, the lowest two clear of the bitmap, \<open>paging_init\<close> returns with paging switched
  on in CR0 and CR3 on a directory that translates the first four megabytes to themselves and
  faults on every other address; the directory is the lowest free block. The page structure is well formed, and the two
  lowest blocks were consumed. Every page of the map can be used from ring 3, in spite of the comment
  "Supervisor Only" at the entries.\<close>

theorem paging_init_spec:
  assumes "pmm_ok s" and "2 \<le> card (free_blocks s)" and "low_apart 2 s"
  shows "\<exists>t. paging_init s = Returns t \<and> paging_ok t \<and>
     (\<forall>va. walk (mem t) (cr3 t) va = (if unat va < 0x400000 then Some va else None)) \<and>
     (\<forall>va. user_page (mem t) (cr3 t) va \<longleftrightarrow> unat va < 0x400000) \<and>
     (\<forall>i < 1024. present (pde (mem t) (cr3 t) i) \<longleftrightarrow> i = 0) \<and>
     (\<forall>i < 1024. 0 < i \<longrightarrow> pde (mem t) (cr3 t) i = 2) \<and>
     cr3 t = kernel_directory t \<and> bit (cr0 t) 31 \<and>
     kernel_directory t = of_nat (Min (free_blocks s)) * BLOCK_SIZE \<and>
     free_blocks t = free_blocks s - {Min (free_blocks s), Min (free_blocks s - {Min (free_blocks s)})} \<and>
     bitmap_span t = bitmap_span s \<and>
     frames (mem t) (cr3 t) = {of_nat (Min (free_blocks s)) * BLOCK_SIZE,
       of_nat (Min (free_blocks s - {Min (free_blocks s)})) * BLOCK_SIZE}"
  by (rule paging_init_returns [OF assms])

theorem paging_init_spec_witness:
  "\<exists>t. paging_init ram64_paging = Returns t \<and> walk (mem t) (cr3 t) 0x100123 = Some 0x100123 \<and>
     walk (mem t) (cr3 t) 0x400000 = None"
proof -
  have "2 \<le> card (free_blocks ram64_paging)" by (simp add: ram64_paging_facts)
  from paging_init_spec [OF ram64_paging_facts(1) this frames_apart_low [OF ram64_paging_facts(3)]]
  obtain t where t: "paging_init ram64_paging = Returns t"
    "\<forall>va. walk (mem t) (cr3 t) va = (if unat va < 0x400000 then Some va else None)"
    by (elim exE conjE) (rule that)
  then show ?thesis by simp
qed

text \<open>With fewer than two free blocks \<open>paging_init\<close> stops the machine instead of building a
  directory or a table at the failure address.\<close>

theorem paging_init_out_of_memory:
  assumes "pmm_ok s" and "card (free_blocks s) < 2" and "low_apart 1 s"
  shows "\<exists>t. paging_init s = Halts t \<and> cr0 t = cr0 s \<and> cr3 t = cr3 s"
proof (cases "free_blocks s = {}")
  case True
  let ?m = "lit ''FATAL OS ERROR: Out of physical memory for Page Directory!\<newline>''"
  have same: "same_pmm s (klog_err ?m s)" by (rule frp.err [OF same_pmm_refl])
  show ?thesis using alloc_none [OF assms(1) True] same_pmm_paging [OF same] by (simp add: paging_init_eq)
next
  case False
  let ?m = "lit ''FATAL OS ERROR: Out of physical memory for Page Table!\<newline>''"
  note f = fresh_directory_facts [OF assms(1) False low_apart_next [OF assms(3) _ False], simplified]
  define u where "u = fresh_directory s"
  define s2 where "s2 = klog_ok (lit ''Page Directory aligned & initialized!\<newline>'') u"
  have same: "same_pmm u s2" unfolding s2_def by (rule frp.ok [OF same_pmm_refl])
  note q = same_pmm_blocks [OF same] same_pmm_paging [OF same]
  have "Min (free_blocks s) \<in> free_blocks s" using False by simp
  then have "card (free_blocks s - {Min (free_blocks s)}) = 0" using assms(2) by simp
  then have "free_blocks s2 = {}" using f(2) q by (simp add: u_def)
  moreover have "pmm_ok s2" using f(1) q by (simp add: u_def paging_ok_def)
  ultimately have e: "pmm_alloc_block s2 = (0xFFFFFFFF, s2)" by (rule alloc_none [rotated])
  have d: "fst (pmm_alloc_block s) \<noteq> 0xFFFFFFFF"
    using alloc_some(1,3) [OF assms(1) False] block_address(5) by simp
  have "paging_init s = Halts (klog_err ?m s2)"
    using d e by (simp add: paging_init_eq Let_def s2_def u_def)
  moreover have "same_pmm s2 (klog_err ?m s2)" by (rule frp.err [OF same_pmm_refl])
  note same_pmm_paging [OF this]
  moreover have "cr0 u = cr0 s" "cr3 u = cr3 s"
    by (simp_all add: u_def fresh_directory_def Let_def case_prod_beta)
  ultimately show ?thesis using q by simp
qed

theorem paging_init_out_of_memory_witness:
  "\<exists>t. paging_init (snd (pmm_alloc_block (snd (pmm_alloc_block ram64_paging)))) = Halts t \<and> cr0 t = 0x11"
proof -
  let ?s = "snd (pmm_alloc_block ram64_paging)"
  have p: "pmm_ok ?s" "free_blocks ?s = {9, 12}"
    using free_blocks_alloc [OF ram64_paging_facts(1)] by (simp_all add: ram64_paging_facts)
  have q: "pmm_ok (snd (pmm_alloc_block ?s))" "free_blocks (snd (pmm_alloc_block ?s)) = {12}"
    using free_blocks_alloc [OF p(1)] p by simp_all
  have b: "frames_apart (snd (pmm_alloc_block ?s))"
    using ram64_paging_facts(3) by (simp add: frames_apart_def q ram64_paging_facts)
  have "card (free_blocks (snd (pmm_alloc_block ?s))) < 2" by (simp add: q)
  moreover have "cr0 ram64_paging = 0x11" by (simp add: ram64_paging_def pmm.defs paging.defs)
  ultimately show ?thesis using paging_init_out_of_memory [OF q(1) _ frames_apart_low [OF b]] by auto
qed

end
