(* ===== verification/Mmu.thy ===== *)
theory Mmu
  imports Paging "HOL-Library.Monad_Syntax"
begin

text \<open>
  The memory that the kernel sees once paging is on. Every 32-bit access goes through the page
  tables that CR3 points to, byte by byte, since the code makes unaligned accesses. An access to
  a page that is not present yields \<open>None\<close>: the CPU raises exception 14, and the handler
  \<open>page_fault_handler\<close> of \<open>paging.c\<close> never returns. Translations are taken from the tables as
  they stand; the processor's cache of translations is not modelled.
\<close>

section \<open>Translated accesses\<close>

definition translate :: "'a paging_scheme \<Rightarrow> u32 \<Rightarrow> u32 option" where
  "translate s a = (if bit (cr0 s) 31 then walk (mem s) (cr3 s) a else Some a)"

definition mapped :: "'a paging_scheme \<Rightarrow> u32 \<Rightarrow> bool" where
  "mapped s a \<longleftrightarrow> (\<forall>i \<in> set [0, 1, 2, 3]. translate s (a + i) \<noteq> None)"

definition vmem :: "'a paging_scheme \<Rightarrow> memory" where
  "vmem s a = (case translate s a of None \<Rightarrow> 0 | Some p \<Rightarrow> mem s p)"

definition phys :: "'a paging_scheme \<Rightarrow> u32 \<Rightarrow> u32" where
  "phys s a = the (translate s a)"

definition put32 :: "u32 \<Rightarrow> u32 \<Rightarrow> 'a paging_scheme \<Rightarrow> 'a paging_scheme" where
  "put32 a v s = s\<lparr>mem := (mem s)(phys s a := ucast v, phys s (a + 1) := ucast (drop_bit 8 v),
     phys s (a + 2) := ucast (drop_bit 16 v), phys s (a + 3) := ucast (drop_bit 24 v))\<rparr>"

definition vload32 :: "u32 \<Rightarrow> 'a paging_scheme \<Rightarrow> u32 option" where
  "vload32 a s = (if mapped s a then Some (load32 (vmem s) a) else None)"

definition vstore32 :: "u32 \<Rightarrow> u32 \<Rightarrow> 'a paging_scheme \<Rightarrow> 'a paging_scheme option" where
  "vstore32 a v s = (if mapped s a then Some (put32 a v s) else None)"

text \<open>\<open>p->entries[i] = f(i)\<close> for the indices below \<open>n\<close>, in order.\<close>

primrec vfill32 :: "u32 \<Rightarrow> nat \<Rightarrow> (nat \<Rightarrow> u32) \<Rightarrow> 'a paging_scheme \<Rightarrow> 'a paging_scheme option" where
  "vfill32 p 0 f s = Some s"
| "vfill32 p (Suc n) f s = do {
     s \<leftarrow> vfill32 p n f s;
     vstore32 (entry p n) (f n) s
   }"

text \<open>
  \<open>map_page\<close> is called with paging on: it reads and writes the directory and the tables at the
  addresses of their frames, which only works where these are mapped onto themselves.
\<close>

definition map_page :: "u32 \<Rightarrow> u32 \<Rightarrow> 'a paging_scheme \<Rightarrow> 'a paging_scheme option" where
  "map_page virtual_address physical_address s = do {
     let directory_index = drop_bit 22 virtual_address AND 0x3FF;
     let table_index = drop_bit 12 virtual_address AND 0x3FF;
     let slot = kernel_directory s + 4 * directory_index;
     e \<leftarrow> vload32 slot s;
     if e AND 1 = 0 then do {
       let (new_table_phy, s) = pmm_alloc_block s;
       s \<leftarrow> vfill32 new_table_phy 1024 (\<lambda>_. 0x02) s;
       s \<leftarrow> vstore32 slot (new_table_phy OR 7) s;
       e \<leftarrow> vload32 slot s;
       let table_phys_addr = e AND NOT 0xFFF;
       vstore32 (table_phys_addr + 4 * table_index) (physical_address OR 7) s
     } else do {
       s \<leftarrow> vstore32 slot (e OR 7) s;
       e \<leftarrow> vload32 slot s;
       let table_phys_addr = e AND NOT 0xFFF;
       vstore32 (table_phys_addr + 4 * table_index) (physical_address OR 7) s
     }
   }"

lemma put32_frame [simp, frame]:
  "kernel_directory (put32 a v s) = kernel_directory s" "cr3 (put32 a v s) = cr3 s"
  "cr0 (put32 a v s) = cr0 s" "total_blocks (put32 a v s) = total_blocks s"
  "used_blocks (put32 a v s) = used_blocks s" "pmm_bitmap (put32 a v s) = pmm_bitmap s"
  "vga_buff (put32 a v s) = vga_buff s" "vga_index (put32 a v s) = vga_index s"
  "vga_limit (put32 a v s) = vga_limit s" "out_log (put32 a v s) = out_log s"
  "paging.more (put32 a v s) = paging.more s"
  by (simp_all add: put32_def)

lemma sep_span: "sep n a k b \<Longrightarrow> n \<le> 2 ^ 32 \<Longrightarrow> k \<le> 2 ^ 32 \<Longrightarrow> span a n \<inter> span b k = {}"
proof -
  assume s: "sep n a k b" and n: "n \<le> 2 ^ 32" "k \<le> 2 ^ 32"
  have "x \<notin> span b k" if x: "x \<in> span a n" for x
  proof
    assume "x \<in> span b k"
    then obtain j where j: "j < k" "x = b + of_nat j" by (auto simp: span_def)
    obtain i where i: "i < n" "x = a + of_nat i" using x by (auto simp: span_def)
    have "n < 2 ^ 32" "k < 2 ^ 32" using s unat_less_32 [of "b - a"] unat_less_32 [of "a - b"]
      by (auto simp: sep_def)
    from sep_neq [OF s i(1) j(1) this] i j show False by simp
  qed
  then show ?thesis by blast
qed

section \<open>Windows\<close>

text \<open>
  A window is a set of virtual addresses that belongs to one user of the memory: all of it is
  mapped, no two of its addresses share a byte, and its bytes are neither page tables nor the
  frame bitmap.
\<close>

definition window :: "u32 set \<Rightarrow> 'a paging_scheme \<Rightarrow> bool" where
  "window W s \<longleftrightarrow> pmm_ok s \<and> cr3 s = kernel_directory s \<and> inj_on (phys s) W \<and>
     (\<forall>a \<in> W. translate s a \<noteq> None \<and> phys s a \<notin> frame_bytes (frames (mem s) (kernel_directory s)) \<and>
        phys s a \<notin> bitmap_span s)"

definition owns :: "u32 set \<Rightarrow> u32 \<Rightarrow> bool" where
  "owns W a \<longleftrightarrow> span a 4 \<subseteq> W"

lemma span4: "span a 4 = {a, a + 1, a + 2, a + 3}"
proof -
  have "{..<4 :: nat} = {0, 1, 2, 3}" by auto
  then show ?thesis by (simp add: span_def)
qed

lemma owns_mono: "owns V a \<Longrightarrow> V \<subseteq> W \<Longrightarrow> owns W a"
  by (auto simp: owns_def)

lemma window_mapped: "window W s \<Longrightarrow> owns W a \<Longrightarrow> mapped s a"
  by (simp add: window_def owns_def mapped_def span4)

lemma window_put:
  assumes w: "window W s" and a: "owns W a"
  shows "window W (put32 a v s)" "translate (put32 a v s) x = translate s x"
    "x \<in> W \<Longrightarrow> vmem (put32 a v s) x = store32 (vmem s) a v x"
    "p \<notin> phys s ` W \<Longrightarrow> mem (put32 a v s) p = mem s p"
    "free_blocks (put32 a v s) = free_blocks s"
    "agree (- phys s ` W) (mem s) (mem (put32 a v s))"
    "paging_ok s \<Longrightarrow> paging_ok (put32 a v s)"
proof -
  let ?t = "put32 a v s" and ?d = "kernel_directory s"
  have pok: "pmm_ok s" using w by (simp add: window_def)
  have sub: "a \<in> W" "a + 1 \<in> W" "a + 2 \<in> W" "a + 3 \<in> W" using a by (simp_all add: owns_def span4)
  have out: "mem ?t p = mem s p" if "p \<notin> phys s ` W" for p
    using that sub by (auto simp: put32_def)
  then show "p \<notin> phys s ` W \<Longrightarrow> mem (put32 a v s) p = mem s p" .
  from out show agw: "agree (- phys s ` W) (mem s) (mem ?t)" by (simp add: agree_def)
  have ag: "agree (frame_bytes (frames (mem s) ?d)) (mem s) (mem ?t)"
    and agb: "agree (bitmap_span s) (mem s) (mem ?t)"
    using w by (auto intro!: agree_mono [OF agw] simp: window_def)
  note st = structure_agree [OF ag]
  show tr: "translate ?t x = translate s x" for x
    using st(2) w by (simp add: translate_def window_def)
  then have ph: "phys ?t = phys s" by (simp add: phys_def fun_eq_iff)
  have eq: "?t = s\<lparr>mem := mem ?t\<rparr>" by (simp add: put32_def)
  show fb: "free_blocks ?t = free_blocks s"
    using free_blocks_agree [OF pok agb] eq by simp
  show "paging_ok ?t" if ok: "paging_ok s"
  proof -
    have "tables_ok (mem ?t) ?d" using st(3) ok by (simp add: paging_ok_def)
    then show ?thesis using paging_ok_update [OF ok agb _ st(4)] eq by simp
  qed
  have "pmm_ok ?t" using pok by (simp add: pmm_ok_def)
  then show "window W ?t" using w by (simp add: window_def tr ph st(4) fb) (simp add: bitmap_span_def)
  assume x: "x \<in> W"
  then have tx: "translate s x \<noteq> None" using w by (simp add: window_def)
  have ne: "phys s x = phys s y \<longleftrightarrow> x = y" if "y \<in> W" for y
    using w x that by (auto simp: window_def inj_on_def)
  have "vmem ?t x = mem ?t (phys s x)" "vmem s x = mem s (phys s x)"
    using tx tr by (auto simp: vmem_def phys_def)
  then show "vmem ?t x = store32 (vmem s) a v x"
    by (simp add: put32_def store32_def ne sub)
qed

section \<open>The interface of a faulting store\<close>

text \<open>
  What a client of a window uses: on the addresses of \<open>D\<close> loads and stores succeed, a load
  gives back the last store, and stores do not disturb words apart from them.
\<close>

locale faulting_store =
  fixes inv :: "'s \<Rightarrow> bool"
    and D :: "u32 set"
    and ld :: "u32 \<Rightarrow> 's \<Rightarrow> u32 option"
    and st :: "u32 \<Rightarrow> u32 \<Rightarrow> 's \<Rightarrow> 's option"
    and val :: "'s \<Rightarrow> u32 \<Rightarrow> u32"
    and put :: "u32 \<Rightarrow> u32 \<Rightarrow> 's \<Rightarrow> 's"
  assumes ld_val: "inv s \<Longrightarrow> a \<in> D \<Longrightarrow> ld a s = Some (val s a)"
    and st_put: "inv s \<Longrightarrow> a \<in> D \<Longrightarrow> st a v s = Some (put a v s)"
    and inv_put: "inv s \<Longrightarrow> a \<in> D \<Longrightarrow> inv (put a v s)"
    and val_same: "inv s \<Longrightarrow> a \<in> D \<Longrightarrow> val (put a v s) a = v"
    and val_sep: "inv s \<Longrightarrow> a \<in> D \<Longrightarrow> b \<in> D \<Longrightarrow> sep 4 a 4 b \<Longrightarrow> val (put a v s) b = val s b"
begin

lemmas laws = ld_val st_put inv_put val_same val_sep

end

lemma vmem_load_put:
  assumes "window W s" "owns W a" "owns W b"
  shows "load32 (vmem (put32 a v s)) b = load32 (store32 (vmem s) a v) b"
  using assms(3) window_put(3) [OF assms(1,2)] by (simp add: owns_def span4 load32_def)

interpretation vm: faulting_store "window W" "Collect (owns W)" vload32 vstore32
  "\<lambda>s. load32 (vmem s)" put32 for W
  by unfold_locales
    (auto simp: vload32_def vstore32_def window_mapped window_put(1) vmem_load_put load32_store32_sep)

section \<open>A mapped frame is a window\<close>

lemma page_offset:
  assumes "aligned va" "i < 4096"
  shows "drop_bit 12 (va + of_nat i) = drop_bit 12 va" "(va + of_nat i) AND 0xFFF = of_nat i"
    "va OR of_nat i = va + of_nat i" "block_of (va + of_nat i) = block_of va"
proof -
  obtain q where q: "unat va = 4096 * q" using assms(1) unfolding aligned_def by (rule dvdE)
  then have "q < 2 ^ 20" using unat_less_32 [of va] by simp
  then have u: "unat (va + of_nat i) = 4096 * q + i"
    using q assms(2) by (simp add: unat_word_ariths unat_of_nat)
  show b: "block_of (va + of_nat i) = block_of va" using u q assms(2) by simp
  have "(2 :: nat) ^ 12 = 4096" by simp
  with b show "drop_bit 12 (va + of_nat i) = drop_bit 12 va"
    by (simp add: word_unat_eq_iff drop_bit_eq_div unat_div)
  have "(4096 * q + i) mod 4096 = i" using assms(2) by simp
  then have "take_bit 12 (va + of_nat i) = of_nat i"
    using u assms(2) by (simp add: word_unat_eq_iff take_bit_eq_mod unat_mod unat_of_nat)
  then show "(va + of_nat i) AND 0xFFF = of_nat i" by (simp add: mask12 take_bit_eq_mask)
  have "\<not> bit (of_nat i :: u32) k" if "12 \<le> k" for k
  proof -
    have "take_bit 12 (of_nat i :: u32) = of_nat i"
      using assms(2) by (simp add: word_unat_eq_iff take_bit_eq_mod unat_mod unat_of_nat)
    then show ?thesis using that by (metis bit_take_bit_iff not_le)
  qed
  then have "\<not> bit va k \<or> \<not> bit (of_nat i :: u32) k" for k
    using assms(1) by (cases "k < 12") (auto simp: aligned_bits)
  then show "va OR of_nat i = va + of_nat i" by (rule disjunctive_add [symmetric])
qed

lemma page_span: "aligned va \<Longrightarrow> drop_bit 12 w = drop_bit 12 va \<longleftrightarrow> w \<in> span va 4096"
proof
  assume al: "aligned va" and d: "drop_bit 12 w = drop_bit 12 va"
  obtain q where q: "unat va = 4096 * q" using al unfolding aligned_def by (rule dvdE)
  have "unat w div 4096 = unat va div 4096" using d by (simp add: word_unat_eq_iff drop_bit_eq_div unat_div)
  then have b: "unat va \<le> unat w" "unat w < unat va + 4096" using q by simp_all
  then have "unat (w - va) < 4096" by (subst unat_sub) (simp_all add: word_le_nat_alt)
  then show "w \<in> span va 4096" by (simp add: span_iff)
next
  assume "aligned va" "w \<in> span va 4096"
  then show "drop_bit 12 w = drop_bit 12 va" using page_offset(1) by (auto simp: span_def)
qed

lemma frames_aligned: "tables_ok m d \<Longrightarrow> f \<in> frames m d \<Longrightarrow> aligned f"
  by (auto simp: frames_def tables_ok_def aligned_frame_of)

lemma page_window:
  assumes ok: "paging_ok s" and on: "bit (cr0 s) 31" "cr3 s = kernel_directory s"
    and al: "aligned va" "aligned n"
    and map: "\<And>w. drop_bit 12 w = drop_bit 12 va \<Longrightarrow>
      walk (mem s) (kernel_directory s) w = Some (n OR (w AND 0xFFF))"
    and n: "n \<notin> frames (mem s) (kernel_directory s)" "span n 4096 \<inter> bitmap_span s = {}"
  shows "window (span va 4096) s" "i < 4096 \<Longrightarrow> translate s (va + of_nat i) = Some (n + of_nat i)"
proof -
  have tr: "translate s (va + of_nat i) = Some (n + of_nat i)" if "i < 4096" for i
    using map [of "va + of_nat i"] page_offset [OF al(1) that] page_offset(3) [OF al(2) that] on
    by (simp add: translate_def)
  then show "i < 4096 \<Longrightarrow> translate s (va + of_nat i) = Some (n + of_nat i)" .
  have ph: "phys s x = n + (x - va)" "x - va = of_nat (unat (x - va))" "unat (x - va) < 4096"
    if x: "x \<in> span va 4096" for x
  proof -
    show i: "x - va = of_nat (unat (x - va))" "unat (x - va) < 4096" using x by (simp_all add: span_iff)
    show "phys s x = n + (x - va)" using tr [OF i(2)] by (simp add: phys_def)
  qed
  have "inj_on (phys s) (span va 4096)" using ph(1) by (auto simp: inj_on_def)
  moreover have "translate s x \<noteq> None \<and> phys s x \<notin> frame_bytes (frames (mem s) (kernel_directory s)) \<and>
      phys s x \<notin> bitmap_span s" if x: "x \<in> span va 4096" for x
  proof -
    have p: "phys s x = n + of_nat (unat (x - va))" using ph [OF x] by simp
    have sp: "phys s x \<in> span n 4096" unfolding span_def using p ph(3) [OF x] by blast
    have "phys s x \<notin> span f 4096" if f: "f \<in> frames (mem s) (kernel_directory s)" for f
    proof -
      have "aligned f" using frames_aligned f ok by (auto simp: paging_ok_def)
      then have "sep 4096 n 4096 f" using al(2) f n(1) by (intro frames_sep) auto
      from sep_span [OF this] sp show ?thesis by auto
    qed
    moreover have "translate s x \<noteq> None" using tr [OF ph(3) [OF x]] by simp
    ultimately show ?thesis using sp n(2)
      by (auto simp: frame_bytes_def)
  qed
  ultimately show "window (span va 4096) s" using ok on by (simp add: window_def paging_ok_def)
qed

section \<open>Mapping a page of a window to where it is\<close>

lemma frame_of_offset: "aligned n \<Longrightarrow> i < 4096 \<Longrightarrow> frame_of (n + of_nat i) = n"
proof -
  assume a: "aligned n" "i < 4096"
  have "frame_of x + (x AND 0xFFF) = x" for x :: u32
  proof -
    have "\<not> bit (frame_of x) k \<or> \<not> bit (x AND 0xFFF) k" for k
      by (auto simp: bit_frame_of bit_and_iff mask12 bit_mask_iff)
    then have "frame_of x + (x AND 0xFFF) = frame_of x OR (x AND 0xFFF)" by (rule disjunctive_add)
    also have "\<dots> = x" by (rule bit_word_eqI) (auto simp: bit_frame_of bit_or_iff bit_and_iff mask12 bit_mask_iff)
    finally show ?thesis .
  qed
  from this [of "n + of_nat i"] page_offset(2) [OF a] show ?thesis by (simp add: add.commute)
qed

lemma remapped_fields [simp, frame]:
  "cr0 (remapped va pa s) = cr0 s" "cr3 (remapped va pa s) = cr3 s" "pmm_bitmap (remapped va pa s) = pmm_bitmap s"
  "total_blocks (remapped va pa s) = total_blocks s" "kernel_directory (remapped va pa s) = kernel_directory s"
  by (simp_all add: remapped_def entered_def linked_def Let_def case_prod_beta)

lemma remapped_window:
  assumes w: "window W s" and ok: "paging_ok s"
    and pr: "present (pde (mem s) (kernel_directory s) (dix va))" and on: "bit (cr0 s) 31"
    and same: "\<And>a. a \<in> W \<Longrightarrow> drop_bit 12 a = drop_bit 12 va \<Longrightarrow>
      translate s a = Some (frame_of pa OR (a AND 0xFFF))"
  shows "window W (remapped va pa s)" "x \<in> W \<Longrightarrow> translate (remapped va pa s) x = translate s x"
    "x \<in> W \<Longrightarrow> vmem (remapped va pa s) x = vmem s x"
proof -
  let ?t = "remapped va pa s" and ?d = "kernel_directory s"
  have cr: "cr3 s = ?d" using w by (simp add: window_def)
  note m = remapped_present [OF ok pr, where pa = pa]
  have tr: "translate ?t x = translate s x" if "x \<in> W" for x
    using m(4) [of x] same [OF that] on cr by (simp add: translate_def)
  then show "x \<in> W \<Longrightarrow> translate ?t x = translate s x" .
  have ph: "phys ?t x = phys s x" if "x \<in> W" for x using tr [OF that] by (simp add: phys_def)
  have "phys s ` W \<inter> frame_bytes (frames (mem s) ?d) = {}" using w by (auto simp: window_def)
  from m(7) [OF this] have ag: "agree (phys s ` W) (mem s) (mem ?t)" .
  have "bitmap_span ?t = bitmap_span s" by (simp add: bitmap_span_def)
  moreover have "inj_on (phys ?t) W" using w ph by (simp add: window_def cong: inj_on_cong)
  ultimately show "window W ?t"
    using w m(1,2,3,6) cr by (simp add: window_def paging_ok_def tr ph)
  assume x: "x \<in> W"
  then have "translate s x = Some (phys s x)" using w by (auto simp: window_def phys_def)
  then show "vmem ?t x = vmem s x" using tr [OF x] ag x by (simp add: vmem_def agree_def)
qed

section \<open>map_page\<close>

text \<open>Accesses where the page tables map the address onto itself.\<close>

lemma identity_access:
  assumes "\<And>i. i < 4 \<Longrightarrow> translate s (a + of_nat i) = Some (a + of_nat i)"
  shows "vload32 a s = Some (load32 (mem s) a)" "vstore32 a v s = Some (s\<lparr>mem := store32 (mem s) a v\<rparr>)"
proof -
  have t: "translate s a = Some a" "translate s (a + 1) = Some (a + 1)" "translate s (a + 2) = Some (a + 2)"
    "translate s (a + 3) = Some (a + 3)"
    using assms [of 0] assms [of 1] assms [of 2] assms [of 3] by simp_all
  then have m: "mapped s a" by (simp add: mapped_def)
  have "vmem s a = mem s a" "vmem s (a + 1) = mem s (a + 1)" "vmem s (a + 2) = mem s (a + 2)"
    "vmem s (a + 3) = mem s (a + 3)" using t by (simp_all add: vmem_def)
  then show "vload32 a s = Some (load32 (mem s) a)" using m by (simp add: vload32_def load32_def)
  show "vstore32 a v s = Some (s\<lparr>mem := store32 (mem s) a v\<rparr>)"
    using m t by (simp add: vstore32_def put32_def store32_def phys_def)
qed

definition self_mapped :: "'a paging_scheme \<Rightarrow> u32 set \<Rightarrow> bool" where
  "self_mapped s A \<longleftrightarrow> (\<forall>x \<in> A. translate s x = Some x)"

lemma self_access:
  assumes "self_mapped s (span f 4096)" "k < 1024"
  shows "vload32 (entry f k) s = Some (load32 (mem s) (entry f k))"
    "vstore32 (entry f k) v s = Some (s\<lparr>mem := store32 (mem s) (entry f k) v\<rparr>)"
proof -
  have "translate s (entry f k + of_nat i) = Some (entry f k + of_nat i)" if "i < 4" for i
  proof -
    have "entry f k + of_nat i = f + of_nat (4 * k + i)" "4 * k + i < 4096" using that assms(2) by simp_all
    then have "entry f k + of_nat i \<in> span f 4096" unfolding span_def by blast
    then show ?thesis using assms(1) by (simp add: self_mapped_def)
  qed
  from identity_access [of s "entry f k", OF this]
  show "vload32 (entry f k) s = Some (load32 (mem s) (entry f k))"
    "vstore32 (entry f k) v s = Some (s\<lparr>mem := store32 (mem s) (entry f k) v\<rparr>)" by simp_all
qed

lemma low_page_self:
  assumes "\<And>a. unat a < 0x400000 \<Longrightarrow> translate s a = Some a" "unat f + 4096 \<le> 0x400000"
  shows "self_mapped s (span f 4096)"
  using assms by (auto simp: self_mapped_def span_def unat_word_ariths unat_of_nat)

lemma low_block_self:
  assumes "\<And>a. unat a < 0x400000 \<Longrightarrow> translate s a = Some a" "b < 1024"
  shows "self_mapped s (span (of_nat b * BLOCK_SIZE) 4096)"
  using assms(2) block_address(1) [of b] by (intro low_page_self assms(1)) simp_all

lemma same_walk_translate:
  assumes "cr3 s = kernel_directory s" "cr0 t = cr0 s" "cr3 t = cr3 s"
    "\<And>x. walk (mem t) (kernel_directory s) x = walk (mem s) (kernel_directory s) x"
  shows "translate t x = translate s x" "self_mapped t A = self_mapped s A"
  using assms by (simp_all add: self_mapped_def translate_def)

lemma vfill32_self:
  assumes c: "cr3 s = kernel_directory s" and tab: "tables_ok (mem s) (kernel_directory s)"
    and n: "aligned n" "n \<notin> frames (mem s) (kernel_directory s)" and self: "self_mapped s (span n 4096)"
  shows "k \<le> 1024 \<Longrightarrow> vfill32 n k f s = Some (s\<lparr>mem := fill32 n k f (mem s)\<rparr>)"
    "k \<le> 1024 \<Longrightarrow> translate (s\<lparr>mem := fill32 n k f (mem s)\<rparr>) x = translate s x"
proof -
  let ?F = "frame_bytes (frames (mem s) (kernel_directory s))"
  have "span n 4096 \<inter> span g 4096 = {}" if g: "g \<in> frames (mem s) (kernel_directory s)" for g
  proof -
    have "sep 4096 n 4096 g" using n g frames_aligned [OF tab g] by (intro frames_sep) auto
    from sep_span [OF this] show ?thesis by simp
  qed
  then have "span n 4096 \<inter> ?F = {}" by (auto simp: frame_bytes_def)
  then have "agree ?F (mem s) (fill32 n k f (mem s))" if "k \<le> 1024" for k using that by (intro fill32_agree)
  note st = structure_agree(2) [OF this]
  show "k \<le> 1024 \<Longrightarrow> translate (s\<lparr>mem := fill32 n k f (mem s)\<rparr>) x = translate s x"
    by (rule same_walk_translate [OF c]) (simp_all add: st)
  show "k \<le> 1024 \<Longrightarrow> vfill32 n k f s = Some (s\<lparr>mem := fill32 n k f (mem s)\<rparr>)"
  proof (induction k)
    case 0
    then show ?case by (simp add: fill32_def)
  next
    case (Suc k)
    let ?u = "s\<lparr>mem := fill32 n k f (mem s)\<rparr>"
    have "self_mapped ?u (span n 4096)"
      using self same_walk_translate(2) [OF c, of ?u] st Suc.prems by simp
    from self_access(2) [OF this] Suc show ?case by (simp add: fill32_def)
  qed
qed

text \<open>The kernel sees the tables that \<open>map_page\<close> needs for an address.\<close>

definition sees_tables :: "u32 \<Rightarrow> 'a paging_scheme \<Rightarrow> bool" where
  "sees_tables va s \<longleftrightarrow>
     (let d = kernel_directory s; e = pde (mem s) d (dix va)
      in self_mapped s (span d 4096) \<and>
        (if present e then self_mapped s (span (frame_of e) 4096)
         else free_blocks s \<noteq> {} \<and> next_apart s \<and>
           self_mapped s (span (of_nat (Min (free_blocks s)) * BLOCK_SIZE) 4096)))"
lemma sees_tables_agree:
  assumes w: "window W s" and ag: "agree (- phys s ` W) (mem s) (mem t)" and kd: "kernel_directory t = kernel_directory s"
    and tr: "\<And>x. translate t x = translate s x" and pr: "present (pde (mem s) (kernel_directory s) (dix va))"
  shows "sees_tables va t = sees_tables va s"
proof -
  have "frame_bytes (frames (mem s) (kernel_directory s)) \<subseteq> - phys s ` W" using w by (auto simp: window_def)
  from structure_agree(1) [OF agree_mono [OF ag this]]
  have "pde (mem t) (kernel_directory s) (dix va) = pde (mem s) (kernel_directory s) (dix va)"
    using index_bounds(1) by blast
  then show ?thesis using pr kd tr by (simp add: sees_tables_def self_mapped_def Let_def)
qed

lemma store32_twice: "store32 (store32 m a v) a v = store32 m a v"
  by (auto simp: store32_def fun_eq_iff)

lemma map_page_upgrades:
  assumes ok: "paging_ok s" and c: "cr3 s = kernel_directory s" and see: "sees_tables va s"
    and pr: "present (pde (mem s) (kernel_directory s) (dix va))"
  shows "map_page va pa s = Some (entered va pa s)"
proof -
  let ?d = "kernel_directory s" and ?i = "dix va"
  have self: "self_mapped s (span ?d 4096)" "self_mapped s (span (frame_of (pde (mem s) ?d ?i)) 4096)"
    using see pr by (simp_all add: sees_tables_def Let_def)
  have tok: "tables_ok (mem s) ?d" using ok by (simp add: paging_ok_def)
  note u = upgrade_entry [OF tok index_bounds(1) pr]
  define s1 where "s1 = s\<lparr>mem := store32 (mem s) (entry ?d ?i) (pde (mem s) ?d ?i OR 7)\<rparr>"
  note w = same_walk_translate(2) [OF c, of s1]
  have self1: "self_mapped s1 (span ?d 4096)" "self_mapped s1 (span (frame_of (pde (mem s1) ?d ?i)) 4096)"
    using self u(1,3) w by (simp_all add: s1_def)
  note a = self_access [OF self(1) index_bounds(1), of va, folded pde_def]
    and a1 = self_access [OF self1(1) index_bounds(1), of va, folded pde_def]
    and a2 = self_access(2) [OF self1(2) index_bounds(2), of va]
  have "map_page va pa s = Some (s1\<lparr>mem := store32 (mem s1) (entry (frame_of (pde (mem s1) ?d ?i)) (tix va)) (pa OR 7)\<rparr>)"
    using pr a a1 a2 by (simp add: map_page_def Let_def entry_index and_1_present frame_of_def s1_def [symmetric])
  then show ?thesis by (simp add: entered_def Let_def s1_def)
qed

lemma map_page_links:
  assumes ok: "paging_ok s" and c: "cr3 s = kernel_directory s" and see: "sees_tables va s"
    and pr: "\<not> present (pde (mem s) (kernel_directory s) (dix va))"
  shows "map_page va pa s = Some (entered va pa (linked va s))"
proof -
  let ?d = "kernel_directory s" and ?i = "dix va"
  define n where "n = fst (pmm_alloc_block s)"
  define s1 where "s1 = snd (pmm_alloc_block s)"
  have pok: "pmm_ok s" using ok by (simp add: paging_ok_def)
  have h: "free_blocks s \<noteq> {}" "next_apart s" "self_mapped s (span ?d 4096)"
    "self_mapped s (span (of_nat (Min (free_blocks s)) * BLOCK_SIZE) 4096)"
    using see pr by (simp_all add: sees_tables_def Let_def)
  note al = alloc_frame_facts [OF ok h(1), folded n_def s1_def]
  have n: "n = of_nat (Min (free_blocks s)) * BLOCK_SIZE" using alloc_some(1) [OF pok h(1)] by (simp add: n_def)
  have s1: "kernel_directory s1 = ?d" "cr3 s1 = ?d" "cr0 s1 = cr0 s" by (simp_all add: s1_def c)
  have c1: "cr3 s1 = kernel_directory s1" by (simp add: s1)
  have self1: "self_mapped s1 (span ?d 4096)" "self_mapped s1 (span n 4096)"
    using h(3,4) same_walk_translate(2) [OF c, of s1] s1 al(8) c by (simp_all add: n)
  have t1: "tables_ok (mem s1) (kernel_directory s1)" "n \<notin> frames (mem s1) (kernel_directory s1)" using al by (simp_all add: s1)
  define s2 where "s2 = s1\<lparr>mem := fill32 n 1024 (\<lambda>_. 2) (mem s1)\<rparr>"
  have v: "vfill32 n 1024 (\<lambda>_. 2) s1 = Some s2" "translate s2 x = translate s1 x" for x
    using vfill32_self [OF c1 t1(1) al(1) t1(2) self1(2), of 1024] by (simp_all add: s2_def)
  have self2: "self_mapped s2 (span ?d 4096)" using self1(1) v(2) by (simp add: self_mapped_def)
  define u where "u = linked va s"
  have u: "u = s2\<lparr>mem := store32 (mem s2) (entry ?d ?i) (n OR 7)\<rparr>"
    by (simp add: u_def linked_def case_prod_beta Let_def s2_def n_def s1_def)
  note l = linked_facts [OF ok pr h(1,2), folded u_def n_def]
  have uc: "cr3 u = cr3 s" "cr0 u = cr0 s" by (simp_all add: u s2_def s1 c)
  note w = same_walk_translate(2) [OF c uc(2,1) l(4)]
  have pu: "pde (mem u) ?d ?i = n OR 7" using l(6) [OF index_bounds(1)] by simp
  have fr: "frame_of (pde (mem u) ?d ?i) = n" by (simp add: pu frame_of_or7 frame_of_aligned al(1))
  have self3: "self_mapped u (span ?d 4096)" "self_mapped u (span (frame_of (pde (mem u) ?d ?i)) 4096)"
    using h(3,4) w by (simp_all add: fr n)
  note a = self_access(1) [OF h(3) index_bounds(1), of va, folded pde_def]
    and a2 = self_access(2) [OF self2 index_bounds(1), of va]
    and a3 = self_access(1) [OF self3(1) index_bounds(1), of va, folded pde_def]
    and a4 = self_access(2) [OF self3(2) index_bounds(2), of va]
  have "map_page va pa s = Some (u\<lparr>mem := store32 (mem u) (entry (frame_of (pde (mem u) ?d ?i)) (tix va)) (pa OR 7)\<rparr>)"
    using pr a a2 a3 a4 v(1)
    by (simp add: map_page_def Let_def entry_index and_1_present frame_of_def case_prod_beta
        n_def [symmetric] s1_def [symmetric] s1 u [symmetric])
  moreover have "store32 (mem u) (entry ?d ?i) (n OR 7) = mem u" by (simp add: u store32_twice)
  then have "store32 (mem u) (entry ?d ?i) (pde (mem u) ?d ?i OR 7) = mem u" unfolding pu by (simp add: or.assoc)
  ultimately show ?thesis by (simp add: entered_def Let_def u_def [symmetric] l(2))
qed

text \<open>Where it sees its tables, \<open>map_page\<close> does what it is to do.\<close>

lemma map_page_remaps:
  assumes "paging_ok s" "cr3 s = kernel_directory s" "sees_tables va s"
  shows "map_page va pa s = Some (remapped va pa s)"
  using map_page_upgrades [OF assms] map_page_links [OF assms] by (simp add: remapped_def)

text \<open>A table at an address that is not mapped cannot be cleared.\<close>

lemma vfill32_faults: "0 < k \<Longrightarrow> vstore32 p (f 0) s = None \<Longrightarrow> vfill32 p k f s = None"
proof (induction k)
  case (Suc k)
  then show ?case by (cases k) simp_all
qed simp

lemma same_translate_alloc:
  assumes "paging_ok s" "cr3 s = kernel_directory s"
  shows "translate (snd (pmm_alloc_block s)) x = translate s x"
proof (cases "free_blocks s = {}")
  case True
  then show ?thesis using alloc_none [of s] assms(1) by (simp add: paging_ok_def)
next
  case False
  show ?thesis
    by (rule same_walk_translate(1) [OF assms(2)]) (simp_all add: alloc_frame_facts(8) [OF assms(1) False])
qed

lemma map_page_faults:
  assumes ok: "paging_ok s" and c: "cr3 s = kernel_directory s" and dir: "self_mapped s (span (kernel_directory s) 4096)"
    and pr: "\<not> present (pde (mem s) (kernel_directory s) (dix va))"
    and un: "translate s (fst (pmm_alloc_block s)) = None"
  shows "map_page va pa s = None"
proof -
  let ?n = "fst (pmm_alloc_block s)" and ?s1 = "snd (pmm_alloc_block s)"
  have "translate ?s1 ?n = None" using same_translate_alloc [OF ok c] un by simp
  then have "vstore32 (entry ?n 0) v ?s1 = None" for v by (simp add: vstore32_def mapped_def)
  then have "vfill32 ?n 1024 (\<lambda>_. 2) ?s1 = None" by (intro vfill32_faults) simp_all
  then show ?thesis using self_access(1) [OF dir index_bounds(1), of va, folded pde_def] pr
    by (simp add: map_page_def Let_def entry_index and_1_present case_prod_beta)
qed

section \<open>Properties\<close>

lemma ram64_sees_tables:
  assumes "free_blocks t = {12}" "kernel_directory t = 0x5000" "cr3 t = kernel_directory t" "bit (cr0 t) 31" "next_apart t"
    "\<forall>i < 1024. present (pde (mem t) (kernel_directory t) i) \<longleftrightarrow> i = 0"
    "\<forall>va. walk (mem t) (kernel_directory t) va = (if unat va < 0x400000 then Some va else None)"
  shows "sees_tables 0x500000 t"
proof -
  have low: "translate t a = Some a" if "unat a < 0x400000" for a using that assms(3,4,7) by (simp add: translate_def)
  have "self_mapped t (span 0x5000 4096)" "self_mapped t (span (of_nat 12 * BLOCK_SIZE) 4096)"
    using low_page_self [OF low, of "0x5000"] low_block_self [OF low, of 12] by simp_all
  moreover have "dix 0x500000 = 1" by (simp add: dix_def)
  ultimately show ?thesis using assms(1,2,5,6) by (simp add: sees_tables_def Let_def)
qed

text \<open>C4: \<open>map_page\<close> on a well-formed structure whose tables are mapped onto themselves, as all of the
  first four megabytes are, returns and makes exactly the page of \<open>virtual_address\<close>
  translate to the frame of \<open>physical_address\<close>, open to ring 3, and leaves the translation of
  every other address as it was. The structure stays well formed, and a block is consumed
  exactly when the directory slot was empty.\<close>

theorem map_page_spec:
  assumes "paging_ok s" and "cr3 s = kernel_directory s" and "sees_tables va s"
  shows "\<exists>t. map_page va pa s = Some t \<and> paging_ok t \<and>
     kernel_directory t = kernel_directory s \<and> cr3 t = cr3 s \<and> cr0 t = cr0 s \<and>
     (\<forall>w. walk (mem t) (kernel_directory s) w =
       (if drop_bit 12 w = drop_bit 12 va then Some (frame_of pa OR (w AND 0xFFF))
        else walk (mem s) (kernel_directory s) w)) \<and>
     user_page (mem t) (kernel_directory s) va \<and>
     free_blocks t =
       (if present (pde (mem s) (kernel_directory s) (dix va)) then free_blocks s
        else free_blocks s - {Min (free_blocks s)})"
proof (cases "present (pde (mem s) (kernel_directory s) (dix va))")
  case True
  show ?thesis using True map_page_remaps [OF assms] by (simp add: remapped_present [OF assms(1) True])
next
  case False
  then have ne: "free_blocks s \<noteq> {}" "next_apart s" using assms(3) by (simp_all add: sees_tables_def Let_def)
  show ?thesis using False map_page_remaps [OF assms] by (simp add: remapped_absent [OF assms(1) False ne])
qed

theorem map_page_spec_witness:
  "\<exists>t u. paging_init ram64_paging = Returns t \<and> map_page 0x500000 0xB8000 t = Some u \<and>
     walk (mem u) (kernel_directory t) 0x500123 = Some 0xB8123 \<and>
     walk (mem u) (kernel_directory t) 0x2123 = Some 0x2123"
proof -
  obtain t where t: "paging_init ram64_paging = Returns t" "paging_ok t" "free_blocks t = {12}" "kernel_directory t = 0x5000"
    "cr3 t = kernel_directory t" "bit (cr0 t) 31" "next_apart t"
    "\<forall>i < 1024. present (pde (mem t) (kernel_directory t) i) \<longleftrightarrow> i = 0"
    "\<forall>va. walk (mem t) (kernel_directory t) va = (if unat va < 0x400000 then Some va else None)"
    using ram64_paging_boot by (elim exE conjE) (rule that)
  from map_page_spec [where pa = "0xB8000", OF t(2,5) ram64_sees_tables [OF t(3-9)]] obtain u where
    u: "map_page 0x500000 0xB8000 t = Some u"
    "\<forall>w. walk (mem u) (kernel_directory t) w =
       (if drop_bit 12 w = drop_bit 12 0x500000 then Some (frame_of 0xB8000 OR (w AND 0xFFF))
        else walk (mem t) (kernel_directory t) w)" by blast
  then show ?thesis using t(1,9) u(2) [THEN spec, of "0x500123"] u(2) [THEN spec, of "0x2123"]
    by (simp add: frame_of_def)
qed

text \<open>C39: \<open>map_page\<close> does not test the result of \<open>pmm_alloc_block\<close>, and it takes for granted that a
  new table is mapped. When the directory slot is empty, it ends in a page fault both when no block is
  left and the failure value is taken for a table, and when the lowest free block is outside of
  what is mapped, as any block above the first four megabytes is after \<open>paging_init\<close>.\<close>

theorem map_page_faults_on_new_table:
  assumes "paging_ok s" and "cr3 s = kernel_directory s" and "self_mapped s (span (kernel_directory s) 4096)"
    and "\<not> present (pde (mem s) (kernel_directory s) (dix va))"
    and "if free_blocks s = {} then translate s 0xFFFFFFFF = None
         else translate s (of_nat (Min (free_blocks s)) * BLOCK_SIZE) = None"
  shows "map_page va pa s = None"
proof -
  have "translate s (fst (pmm_alloc_block s)) = None"
    using assms(1,5) alloc_none [of s] alloc_some(1) [of s] by (cases "free_blocks s = {}") (simp_all add: paging_ok_def)
  from map_page_faults [OF assms(1-4) this] show ?thesis .
qed

theorem map_page_faults_on_new_table_witness:
  "\<exists>t. paging_init ram64_paging = Returns t \<and> map_page 0x500000 0xB8000 (snd (pmm_alloc_block t)) = None"
proof -
  obtain t where t: "paging_init ram64_paging = Returns t" "paging_ok t" "free_blocks t = {12}" "kernel_directory t = 0x5000"
    "cr3 t = kernel_directory t" "bit (cr0 t) 31"
    "\<forall>i < 1024. present (pde (mem t) (kernel_directory t) i) \<longleftrightarrow> i = 0"
    "\<forall>va. walk (mem t) (kernel_directory t) va = (if unat va < 0x400000 then Some va else None)"
    using ram64_paging_boot by (elim exE conjE) (rule that)
  define s where "s = snd (pmm_alloc_block t)"
  have ne: "free_blocks t \<noteq> {}" using t(3) by simp
  note a = alloc_frame_facts [OF t(2) ne, folded s_def]
  have tr: "translate s a = (if unat a < 0x400000 then Some a else None)" for a
    using same_translate_alloc [OF t(2,5)] t(5,6,8) by (simp add: s_def translate_def)
  have k: "kernel_directory s = 0x5000" "cr3 s = kernel_directory s" using t(4,5) by (simp_all add: s_def)
  have "self_mapped s (span 0x5000 4096)" using tr by (intro low_page_self) simp_all
  moreover have "dix 0x500000 = 1" by (simp add: dix_def)
  then have "\<not> present (pde (mem s) (kernel_directory s) (dix 0x500000))" using a(9) t(4,7) k by simp
  moreover have "free_blocks s = {}" using free_blocks_alloc [of t] t(2,3) by (simp add: s_def paging_ok_def)
  ultimately have "map_page 0x500000 0xB8000 s = None"
    using tr k by (intro map_page_faults_on_new_table [OF a(10)]) simp_all
  then show ?thesis using t(1) by (auto simp: s_def)
qed

end
