(* ===== verification/Heap.thy ===== *)
theory Heap
  imports Mmu
begin

text \<open>
  The kernel heap (\<open>heap.h\<close>, \<open>heap.c\<close>): a linked list of chunks in virtual memory, each
  behind a 12-byte header \<open>size\<close>, \<open>flags\<close>, \<open>next\<close>. The first part translates the code over
  translated accesses; the second states what it does to the list of chunks, and the third
  proves that the code does it. A run that faults or never ends is \<open>None\<close>.
\<close>

section \<open>The code\<close>

record heap = paging +
  heap_first :: u32

definition heap_init :: "'a heap_scheme \<Rightarrow> 'a heap_scheme option" where
  "heap_init s =
     (let (phys_block, s) = pmm_alloc_block s
      in do {
        s \<leftarrow> map_page 0x1000000 phys_block s;
        let s = s\<lparr>heap_first := 0x1000000\<rparr>;
        s \<leftarrow> vstore32 (heap_first s) 4084 s;
        s \<leftarrow> vstore32 (heap_first s + 4) 1 s;
        vstore32 (heap_first s + 8) 0 s
      })"

text \<open>The split of a chunk that is large enough, and the mark on it.\<close>

definition split_chunk :: "u32 \<Rightarrow> u32 \<Rightarrow> 'a heap_scheme \<Rightarrow> 'a heap_scheme option" where
  "split_chunk requested_size tracker s = do {
     size \<leftarrow> vload32 tracker s;
     let leftover_size = size - requested_size;
     if 0 < sint leftover_size then do {
       let new_address = tracker + 12 + requested_size;
       s \<leftarrow> vstore32 new_address leftover_size s;
       s \<leftarrow> vstore32 (new_address + 4) 1 s;
       nxt \<leftarrow> vload32 (tracker + 8) s;
       s \<leftarrow> vstore32 (new_address + 8) nxt s;
       s \<leftarrow> vstore32 tracker requested_size s;
       vstore32 (tracker + 8) new_address s
     } else Some s
   }"

definition chunk_fits :: "u32 \<Rightarrow> u32 \<Rightarrow> 'a heap_scheme \<Rightarrow> bool option" where
  "chunk_fits requested_size tracker s = do {
     flags \<leftarrow> vload32 (tracker + 4) s;
     if flags = 1 then do {
       size \<leftarrow> vload32 tracker s;
       Some (requested_size \<le> size)
     } else Some False
   }"

partial_function (option) kmalloc_loop :: "u32 \<Rightarrow> u32 \<Rightarrow> 'a heap_scheme \<Rightarrow> (u32 \<times> 'a heap_scheme) option" where
  "kmalloc_loop requested_size tracker s =
     (if tracker = 0 then Some (0, s)
      else do {
        fits \<leftarrow> chunk_fits requested_size tracker s;
        if fits then do {
          s \<leftarrow> split_chunk requested_size tracker s;
          s \<leftarrow> vstore32 (tracker + 4) 0 s;
          Some (tracker + 12, s)
        } else do {
          nxt \<leftarrow> vload32 (tracker + 8) s;
          kmalloc_loop requested_size nxt s
        }
      })"

definition kmalloc :: "u32 \<Rightarrow> 'a heap_scheme \<Rightarrow> (u32 \<times> 'a heap_scheme) option" where
  "kmalloc requested_size s = kmalloc_loop requested_size (heap_first s) s"

partial_function (option) find_previous :: "u32 \<Rightarrow> u32 \<Rightarrow> 'a heap_scheme \<Rightarrow> u32 option" where
  "find_previous header tracker s = do {
     nxt \<leftarrow> vload32 (tracker + 8) s;
     if nxt = header then Some tracker else find_previous header nxt s
   }"

definition merge_next :: "u32 \<Rightarrow> 'a heap_scheme \<Rightarrow> 'a heap_scheme option" where
  "merge_next header s = do {
     nxt \<leftarrow> vload32 (header + 8) s;
     if nxt \<noteq> 0 then do {
       flags \<leftarrow> vload32 (nxt + 4) s;
       if flags = 1 then do {
         size \<leftarrow> vload32 header s;
         next_size \<leftarrow> vload32 nxt s;
         s \<leftarrow> vstore32 header (size + 12 + next_size) s;
         nxt2 \<leftarrow> vload32 (nxt + 8) s;
         vstore32 (header + 8) nxt2 s
       } else Some s
     } else Some s
   }"

definition merge_previous :: "u32 \<Rightarrow> 'a heap_scheme \<Rightarrow> 'a heap_scheme option" where
  "merge_previous header s =
     (if header \<noteq> heap_first s then do {
        tracker \<leftarrow> find_previous header (heap_first s) s;
        flags \<leftarrow> vload32 (tracker + 4) s;
        if flags = 1 then do {
          size \<leftarrow> vload32 tracker s;
          header_size \<leftarrow> vload32 header s;
          s \<leftarrow> vstore32 tracker (size + 12 + header_size) s;
          nxt \<leftarrow> vload32 (header + 8) s;
          vstore32 (tracker + 8) nxt s
        } else Some s
      } else Some s)"

definition kfree :: "u32 \<Rightarrow> 'a heap_scheme \<Rightarrow> 'a heap_scheme option" where
  "kfree ptr s =
     (if ptr = 0 then Some s
      else do {
        let header = ptr - 12;
        s \<leftarrow> vstore32 (header + 4) 1 s;
        s \<leftarrow> merge_next header s;
        merge_previous header s
      })"

section \<open>Lists of chunks\<close>

record chunk =
  c_addr :: u32
  c_size :: u32
  c_flags :: u32

text \<open>The chunks that the \<open>next\<close> pointers of memory \<open>m\<close> lead through from \<open>p\<close> up to \<open>q\<close>.\<close>

fun segment :: "memory \<Rightarrow> u32 \<Rightarrow> chunk list \<Rightarrow> u32 \<Rightarrow> bool" where
  "segment m p [] q \<longleftrightarrow> p = q"
| "segment m p (c # cs) q \<longleftrightarrow> p \<noteq> 0 \<and> c_addr c = p \<and> c_size c = load32 m p \<and>
     c_flags c = load32 m (p + 4) \<and> segment m (load32 m (p + 8)) cs q"

text \<open>First fit on the list, with the sizes the code records: the new chunk gets all of
  the remainder, although its header takes 12 bytes of it.\<close>

fun first_fit :: "u32 \<Rightarrow> chunk list \<Rightarrow> u32 \<times> chunk list" where
  "first_fit n [] = (0, [])"
| "first_fit n (c # cs) =
     (if c_flags c = 1 \<and> n \<le> c_size c then
        (c_addr c + 12,
         if 0 < sint (c_size c - n)
         then \<lparr>c_addr = c_addr c, c_size = n, c_flags = 0\<rparr> #
              \<lparr>c_addr = c_addr c + 12 + n, c_size = c_size c - n, c_flags = 1\<rparr> # cs
         else c\<lparr>c_flags := 0\<rparr> # cs)
      else (fst (first_fit n cs), c # snd (first_fit n cs)))"

fun absorb :: "chunk \<Rightarrow> chunk list \<Rightarrow> chunk list" where
  "absorb c [] = [c]"
| "absorb c (d # ds) =
     (if c_flags d = 1 then c\<lparr>c_size := c_size c + 12 + c_size d\<rparr> # ds else c # d # ds)"

fun release :: "u32 \<Rightarrow> chunk list \<Rightarrow> chunk list" where
  "release h [] = []"
| "release h (c # cs) =
     (if c_addr c = h then absorb (c\<lparr>c_flags := 1\<rparr>) cs
      else if cs \<noteq> [] \<and> c_addr (hd cs) = h \<and> c_flags c = 1 then absorb c (release h cs)
      else c # release h cs)"

section \<open>Headers and edits\<close>

lemma owns_header: "span p 12 \<subseteq> W \<Longrightarrow> owns W p \<and> owns W (p + 4) \<and> owns W (p + 8)"
  using span_sub [of 0 4 12 p] span_sub [of 4 4 12 p] span_sub [of 8 4 12 p]
  by (auto simp: owns_def)

lemma sep_header:
  assumes "sep 12 p 12 q" "i \<in> {0, 4, 8}" "j \<in> {0, 4, 8}"
  shows "sep 4 (p + i) 4 (q + j)"
proof -
  have u: "unat i + 4 \<le> 12" "unat j + 4 \<le> 12" using assms(2,3) by auto
  from sep_sub [OF assms(1) u(1)] have "sep 12 q 4 (p + i)" by (simp add: sep_sym)
  from sep_sub [OF this u(2)] show ?thesis by (simp add: sep_sym)
qed

lemmas sep_header_words =
  sep_header [of _ _ 0 0, simplified] sep_header [of _ _ 0 4, simplified] sep_header [of _ _ 0 8, simplified]
  sep_header [of _ _ 4 0, simplified] sep_header [of _ _ 4 4, simplified] sep_header [of _ _ 4 8, simplified]
  sep_header [of _ _ 8 0, simplified] sep_header [of _ _ 8 4, simplified] sep_header [of _ _ 8 8, simplified]

lemma sep_in_header [simp]:
  "sep 4 p 4 (p + 4)" "sep 4 p 4 (p + 8)" "sep 4 (p + 4) 4 p" "sep 4 (p + 4) 4 (p + 8)"
  "sep 4 (p + 8) 4 p" "sep 4 (p + 8) 4 (p + 4)"
  by (simp_all add: sep_def)

definition headers :: "chunk list \<Rightarrow> u32 set" where
  "headers cs = (\<Union>c \<in> set cs. span (c_addr c) 12)"

definition headers_ok :: "u32 set \<Rightarrow> chunk list \<Rightarrow> bool" where
  "headers_ok W cs \<longleftrightarrow> headers cs \<subseteq> W \<and> (\<forall>c \<in> set cs. c_addr c \<noteq> 0) \<and>
     sorted_wrt (\<lambda>c d. sep 12 (c_addr c) 12 (c_addr d)) cs"

lemma headers_Cons [simp]: "headers (c # cs) = span (c_addr c) 12 \<union> headers cs"
  by (simp add: headers_def)

lemma headers_Nil [simp]: "headers [] = {}"
  by (simp add: headers_def)

lemma headers_append [simp]: "headers (cs @ ds) = headers cs \<union> headers ds"
  by (auto simp: headers_def)

lemma headers_ok_Cons:
  "headers_ok W (c # cs) \<longleftrightarrow> span (c_addr c) 12 \<subseteq> W \<and> c_addr c \<noteq> 0 \<and> (\<forall>d \<in> set cs. sep 12 (c_addr c) 12 (c_addr d)) \<and>
     headers_ok W cs"
  by (auto simp: headers_ok_def)

lemma headers_ok_append:
  "headers_ok W (cs @ ds) \<longleftrightarrow> headers_ok W cs \<and> headers_ok W ds \<and>
     (\<forall>c \<in> set cs. \<forall>d \<in> set ds. sep 12 (c_addr c) 12 (c_addr d))"
  by (auto simp: headers_ok_def sorted_wrt_append)

text \<open>
  \<open>edits W H s t\<close>: the step from \<open>s\<close> to \<open>t\<close> keeps the window and all translations, and of
  the memory it changes at most the bytes of \<open>H\<close>.
\<close>

definition edits :: "u32 set \<Rightarrow> u32 set \<Rightarrow> 'a heap_scheme \<Rightarrow> 'a heap_scheme \<Rightarrow> bool" where
  "edits W H s t \<longleftrightarrow> window W t \<and> (\<forall>x. translate t x = translate s x) \<and>
     (\<forall>x \<in> W - H. vmem t x = vmem s x) \<and> agree (- phys s ` W) (mem s) (mem t) \<and>
     free_blocks t = free_blocks s \<and> (paging_ok s \<longrightarrow> paging_ok t) \<and> t = s\<lparr>mem := mem t\<rparr>"

lemma edits_refl: "window W s \<Longrightarrow> edits W H s s"
  by (simp add: edits_def)

lemma edits_window: "edits W H s t \<Longrightarrow> window W t"
  by (simp add: edits_def)

lemma edits_mono: "edits W H s t \<Longrightarrow> H \<subseteq> K \<Longrightarrow> edits W K s t"
  by (auto simp: edits_def)

lemma edits_fields:
  assumes "edits W H s t"
  shows "heap_first t = heap_first s" "kernel_directory t = kernel_directory s" "cr3 t = cr3 s"
    "heap.more t = heap.more s" "cr0 t = cr0 s"
proof -
  have t: "t = s\<lparr>mem := mem t\<rparr>" using assms unfolding edits_def by blast
  show "heap_first t = heap_first s" "kernel_directory t = kernel_directory s" "cr3 t = cr3 s"
    "heap.more t = heap.more s" "cr0 t = cr0 s"
    by (subst t, simp)+
qed

lemma edits_pde:
  assumes "edits W H s t" "window W s" "i < 1024"
  shows "pde (mem t) (kernel_directory s) i = pde (mem s) (kernel_directory s) i"
proof -
  have "frame_bytes (frames (mem s) (kernel_directory s)) \<subseteq> - phys s ` W" using assms(2) by (auto simp: window_def)
  moreover have "agree (- phys s ` W) (mem s) (mem t)" using assms(1) by (simp add: edits_def)
  ultimately show ?thesis using structure_agree(1) [OF agree_mono] assms(3) by blast
qed

lemma edits_frames:
  assumes "edits W H s t" "window W s"
  shows "frames (mem t) (kernel_directory s) = frames (mem s) (kernel_directory s)"
proof -
  have "frame_bytes (frames (mem s) (kernel_directory s)) \<subseteq> - phys s ` W" using assms(2) by (auto simp: window_def)
  moreover have "agree (- phys s ` W) (mem s) (mem t)" using assms(1) by (simp add: edits_def)
  ultimately show ?thesis using structure_agree(4) [OF agree_mono] by blast
qed

lemma edits_paging_ok: "edits W H s t \<Longrightarrow> paging_ok s \<Longrightarrow> paging_ok t"
  by (simp add: edits_def)

lemma edits_trans: "edits W H s t \<Longrightarrow> edits W H t u \<Longrightarrow> edits W H s u"
proof -
  assume e: "edits W H s t" "edits W H t u"
  then have ph: "phys t = phys s" by (simp add: edits_def phys_def fun_eq_iff)
  have "u = s\<lparr>mem := mem u\<rparr>"
  proof -
    have "t = s\<lparr>mem := mem t\<rparr>" "u = t\<lparr>mem := mem u\<rparr>" using e unfolding edits_def by blast+
    then have "u = s\<lparr>mem := mem t, mem := mem u\<rparr>" by simp
    then show ?thesis by simp
  qed
  with e show ?thesis unfolding edits_def ph by (auto intro: agree_trans)
qed

lemma span_owned: "span a 4 \<subseteq> H \<Longrightarrow> x \<notin> H \<Longrightarrow> store32 m a v x = m x"
  by (auto simp: span4 store32_def)

lemma edits_put:
  assumes w: "window W s" and a: "owns W a" and H: "span a 4 \<subseteq> H"
  shows "edits W H s (put32 a v s)"
  unfolding edits_def using window_put [OF w a] span_owned [OF H]
  by (auto simp: put32_def)

lemma edits_step: "edits W H s t \<Longrightarrow> owns W a \<Longrightarrow> span a 4 \<subseteq> H \<Longrightarrow> edits W H s (put32 a v t)"
  by (rule edits_trans [OF _ edits_put]) (auto dest: edits_window)

lemma header_parts: "span p 4 \<subseteq> span p 12" "span (p + 4) 4 \<subseteq> span p 12" "span (p + 8) 4 \<subseteq> span p 12"
  using owns_header [of p "span p 12"] by (simp_all add: owns_def)

text \<open>A word outside \<open>H\<close> reads the same.\<close>

lemma edits_load:
  assumes "edits W H s t" "owns W b" "span b 4 \<inter> H = {}"
  shows "load32 (vmem t) b = load32 (vmem s) b"
  using assms by (auto simp: edits_def owns_def span4 load32_def)

lemma edits_header:
  assumes e: "edits W H s t" and c: "span p 12 \<subseteq> W" and d: "span p 12 \<inter> H = {}"
  shows "load32 (vmem t) p = load32 (vmem s) p" "load32 (vmem t) (p + 4) = load32 (vmem s) (p + 4)"
    "load32 (vmem t) (p + 8) = load32 (vmem s) (p + 8)"
proof -
  note o = owns_header [OF c] and h = header_parts [of p]
  show "load32 (vmem t) p = load32 (vmem s) p"
    by (rule edits_load [OF e]) (use o h d in blast)+
  show "load32 (vmem t) (p + 4) = load32 (vmem s) (p + 4)"
    by (rule edits_load [OF e]) (use o h d in blast)+
  show "load32 (vmem t) (p + 8) = load32 (vmem s) (p + 8)"
    by (rule edits_load [OF e]) (use o h d in blast)+
qed

lemma segment_edits:
  assumes e: "edits W H s t"
  shows "headers cs \<subseteq> W \<Longrightarrow> headers cs \<inter> H = {} \<Longrightarrow> segment (vmem s) p cs q \<Longrightarrow> segment (vmem t) p cs q"
proof (induction cs arbitrary: p)
  case (Cons c cs)
  then have "span p 12 \<subseteq> W" "span p 12 \<inter> H = {}" by (auto simp del: span_def)
  from edits_header [OF e this] Cons show ?case by auto
qed simp

lemma headers_disjoint:
  "(\<forall>d \<in> set cs. sep 12 p 12 (c_addr d)) \<Longrightarrow> span p 12 \<inter> headers cs = {}"
  using sep_span [of 12 p 12] by (fastforce simp: headers_def)

lemma headers_disjoint_before:
  "(\<forall>d \<in> set cs. sep 12 (c_addr d) 12 p) \<Longrightarrow> span p 12 \<inter> headers cs = {}"
  by (rule headers_disjoint) (auto dest: sep_sym)

lemma segment_append: "segment m p (cs @ ds) r \<longleftrightarrow> (\<exists>q. segment m p cs q \<and> segment m q ds r)"
  by (induction cs arbitrary: p) auto

section \<open>kmalloc is first fit\<close>

lemma split_chunk_none:
  assumes "window W s" "span p 12 \<subseteq> W" "\<not> 0 < sint (load32 (vmem s) p - n)"
  shows "split_chunk n p s = Some s"
  using assms owns_header [OF assms(2)] by (simp add: split_chunk_def vm.ld_val [of W])

lemma split_chunk_some:
  assumes w: "window W s" and p: "span p 12 \<subseteq> W" and k: "span (p + 12 + n) 12 \<subseteq> W"
    and sp: "sep 12 p 12 (p + 12 + n)" and left: "0 < sint (load32 (vmem s) p - n)"
  shows "\<exists>t. split_chunk n p s = Some t \<and> edits W (span p 12 \<union> span (p + 12 + n) 12) s t \<and>
     load32 (vmem t) p = n \<and> load32 (vmem t) (p + 4) = load32 (vmem s) (p + 4) \<and>
     load32 (vmem t) (p + 8) = p + 12 + n \<and>
     load32 (vmem t) (p + 12 + n) = load32 (vmem s) p - n \<and>
     load32 (vmem t) (p + 12 + n + 4) = 1 \<and>
     load32 (vmem t) (p + 12 + n + 8) = load32 (vmem s) (p + 8)"
proof -
  define k where "k = p + 12 + n"
  let ?H = "span p 12 \<union> span k 12"
  have o: "owns W p" "owns W (p + 4)" "owns W (p + 8)" "owns W k" "owns W (k + 4)" "owns W (k + 8)"
    using owns_header [OF p] owns_header [OF assms(3)] by (simp_all add: k_def)
  have pk: "sep 12 p 12 k" and kp: "sep 12 k 12 p" using sp sep_sym by (simp_all add: k_def)
  note sw = sep_header_words [OF pk] sep_header_words [OF kp]
  note L = vm.laws [of W]
  define t where "t = put32 (p + 8) k (put32 p n (put32 (k + 8) (load32 (vmem s) (p + 8))
     (put32 (k + 4) 1 (put32 k (load32 (vmem s) p - n) s))))"
  have "split_chunk n p s = Some t"
    using left w o unfolding split_chunk_def k_def [symmetric] t_def
    by (simp add: L sw)
  moreover have "edits W ?H s t"
    unfolding t_def using o header_parts [of p] header_parts [of k]
    by (intro edits_step edits_refl [OF w]; blast)
  moreover have "load32 (vmem t) p = n" "load32 (vmem t) (p + 4) = load32 (vmem s) (p + 4)"
    "load32 (vmem t) (p + 8) = k" "load32 (vmem t) k = load32 (vmem s) p - n"
    "load32 (vmem t) (k + 4) = 1" "load32 (vmem t) (k + 8) = load32 (vmem s) (p + 8)"
    unfolding t_def using w o by (simp_all add: L sw)
  ultimately show ?thesis unfolding k_def by blast
qed

lemma chunk_fits_eq:
  assumes "window W s" "span p 12 \<subseteq> W"
  shows "chunk_fits n p s = Some (load32 (vmem s) (p + 4) = 1 \<and> n \<le> load32 (vmem s) p)"
  using assms owns_header [OF assms(2)] by (simp add: chunk_fits_def vm.ld_val [of W])

text \<open>The first chunk of a chain.\<close>

lemma segment_first:
  assumes g: "segment (vmem s) p (c # cs) 0" and ok: "headers_ok W (c # cs)"
  shows "p \<noteq> 0" "c_addr c = p" "c_size c = load32 (vmem s) p" "c_flags c = load32 (vmem s) (p + 4)"
    "segment (vmem s) (load32 (vmem s) (p + 8)) cs 0" "span p 12 \<subseteq> W" "headers cs \<subseteq> W" "span p 12 \<inter> headers cs = {}"
    "headers_ok W cs"
proof -
  show p: "p \<noteq> 0" "c_addr c = p" "c_size c = load32 (vmem s) p" "c_flags c = load32 (vmem s) (p + 4)"
    "segment (vmem s) (load32 (vmem s) (p + 8)) cs 0" using g by simp_all
  show "span p 12 \<subseteq> W" "headers cs \<subseteq> W" "span p 12 \<inter> headers cs = {}" "headers_ok W cs"
    using ok p(2) headers_disjoint [of cs p] by (auto simp: headers_ok_def)
qed

text \<open>A chunk that fits is taken, whole or split.\<close>

lemma chunk_taken_whole:
  assumes w: "window W s" and g: "segment (vmem s) p (c # cs) 0" and ok: "headers_ok W (c # cs)"
    and fit: "c_flags c = 1 \<and> n \<le> c_size c" and whole: "\<not> 0 < sint (c_size c - n)"
  shows "\<exists>t. kmalloc_loop n p s = Some (p + 12, t) \<and> segment (vmem t) p (c\<lparr>c_flags := 0\<rparr> # cs) 0 \<and> edits W (span p 12) s t"
proof -
  note p = segment_first [OF g ok]
  note o = owns_header [OF p(6)] and L = vm.laws [of W]
  define t where "t = put32 (p + 4) 0 s"
  have "kmalloc_loop n p s = Some (p + 12, t)"
    using p(1,3,4) chunk_fits_eq [OF w p(6), of n] fit whole w o split_chunk_none [OF w p(6)]
    by (subst kmalloc_loop.simps) (simp add: L t_def)
  moreover have e: "edits W (span p 12) s t"
    unfolding t_def using o header_parts(2) by (intro edits_put w) auto
  moreover have "segment (vmem t) (load32 (vmem s) (p + 8)) cs 0"
    using segment_edits [OF e p(7)] p(5,8) by blast
  moreover have "load32 (vmem t) p = c_size c" "load32 (vmem t) (p + 4) = 0"
    "load32 (vmem t) (p + 8) = load32 (vmem s) (p + 8)"
    unfolding t_def using w o p by (simp_all add: L)
  ultimately show ?thesis using p(1,2) by auto
qed

lemma chunk_taken_split:
  assumes w: "window W s" and g: "segment (vmem s) p (c # cs) 0" and ok: "headers_ok W (c # cs)"
    and fit: "c_flags c = 1 \<and> n \<le> c_size c" and split: "0 < sint (c_size c - n)"
    and ok': "headers_ok W (snd (first_fit n (c # cs)))"
  shows "\<exists>t. kmalloc_loop n p s = Some (p + 12, t) \<and> segment (vmem t) p (snd (first_fit n (c # cs))) 0 \<and>
     edits W (span p 12 \<union> span (p + 12 + n) 12) s t"
proof -
  note p = segment_first [OF g ok]
  note o = owns_header [OF p(6)] and L = vm.laws [of W]
  define k where "k = p + 12 + n"
  have k: "k \<noteq> 0" "span k 12 \<subseteq> W" "sep 12 p 12 k" "span k 12 \<inter> headers cs = {}"
    using ok' fit split p(2) headers_disjoint [of cs k] by (auto simp: headers_ok_Cons k_def)
  from split_chunk_some [OF w p(6) k(2,3) [unfolded k_def], folded k_def] split p(3) obtain u where u:
    "split_chunk n p s = Some u" "edits W (span p 12 \<union> span k 12) s u"
    "load32 (vmem u) p = n" "load32 (vmem u) (p + 8) = k" "load32 (vmem u) k = c_size c - n"
    "load32 (vmem u) (k + 4) = 1" "load32 (vmem u) (k + 8) = load32 (vmem s) (p + 8)" by auto
  define t where "t = put32 (p + 4) 0 u"
  note wu = edits_window [OF u(2)] and ok = owns_header [OF k(2)] and sw = sep_header_words [OF k(3)]
  have "kmalloc_loop n p s = Some (p + 12, t)"
    using p(1,3,4) chunk_fits_eq [OF w p(6), of n] fit u(1) wu o by (subst kmalloc_loop.simps) (simp add: L t_def)
  moreover have e: "edits W (span p 12 \<union> span k 12) s t"
    unfolding t_def using o header_parts(2) [of p] by (intro edits_step [OF u(2)]) auto
  moreover have "segment (vmem t) (load32 (vmem s) (p + 8)) cs 0"
    using segment_edits [OF e p(7)] p(5,8) k(4) by blast
  moreover have "load32 (vmem t) p = n" "load32 (vmem t) (p + 4) = 0" "load32 (vmem t) (p + 8) = k"
    "load32 (vmem t) k = c_size c - n" "load32 (vmem t) (k + 4) = 1"
    "load32 (vmem t) (k + 8) = load32 (vmem s) (p + 8)"
    unfolding t_def using wu o ok u by (simp_all add: L sw)
  ultimately show ?thesis using k(1) fit split p(1,2) by (auto simp: k_def [symmetric])
qed

lemma kmalloc_loop_first_fit:
  "window W s \<Longrightarrow> segment (vmem s) p cs 0 \<Longrightarrow> headers_ok W cs \<Longrightarrow> headers_ok W (snd (first_fit n cs)) \<Longrightarrow>
     \<exists>t. kmalloc_loop n p s = Some (fst (first_fit n cs), t) \<and>
       segment (vmem t) p (snd (first_fit n cs)) 0 \<and> edits W (headers (snd (first_fit n cs))) s t"
proof (induction cs arbitrary: p)
  case Nil
  then have "kmalloc_loop n p s = Some (0, s)" by (subst kmalloc_loop.simps) simp
  then show ?case using Nil edits_refl by auto
next
  case (Cons c cs)
  note w = Cons.prems(1)
  note p = segment_first [OF Cons.prems(2,3)]
  consider (skip) "\<not> (c_flags c = 1 \<and> n \<le> c_size c)" | (whole) "c_flags c = 1 \<and> n \<le> c_size c" "\<not> 0 < sint (c_size c - n)"
    | (split) "c_flags c = 1 \<and> n \<le> c_size c" "0 < sint (c_size c - n)" by blast
  then show ?case
  proof cases
    case skip
    then have "headers_ok W (snd (first_fit n cs))" using Cons.prems(4) by (auto simp: headers_ok_Cons)
    from Cons.IH [OF w p(5,9) this] obtain t where t:
      "kmalloc_loop n (load32 (vmem s) (p + 8)) s = Some (fst (first_fit n cs), t)"
      "segment (vmem t) (load32 (vmem s) (p + 8)) (snd (first_fit n cs)) 0"
      "edits W (headers (snd (first_fit n cs))) s t" by blast
    have "chunk_fits n p s = Some False" using chunk_fits_eq [OF w p(6), of n] p(3,4) skip by simp
    then have "kmalloc_loop n p s = Some (fst (first_fit n cs), t)"
      using p(1) w owns_header [OF p(6)] t(1)
      by (subst kmalloc_loop.simps) (simp add: vm.laws(1) [of W])
    moreover have "span p 12 \<inter> headers (snd (first_fit n cs)) = {}"
      using skip Cons.prems(4) p(2) headers_disjoint [of "snd (first_fit n cs)" p] by (auto simp: headers_ok_Cons)
    note edits_header [OF t(3) p(6) this]
    moreover have "edits W (headers (snd (first_fit n (c # cs)))) s t"
      using skip by (intro edits_mono [OF t(3)]) auto
    ultimately show ?thesis using skip p t(2) by auto
  next
    case whole
    from chunk_taken_whole [OF w Cons.prems(2,3) whole] whole p(2) show ?thesis by (auto intro: edits_mono)
  next
    case split
    from chunk_taken_split [OF w Cons.prems(2,3) split Cons.prems(4)] split p(2) show ?thesis
      by (auto intro: edits_mono)
  qed
qed

section \<open>kfree releases and merges\<close>

lemma merge_next_absorb:
  assumes w: "window W s" and g: "segment (vmem s) h (c # cs) 0" and ok: "headers_ok W (c # cs)"
  shows "\<exists>t. merge_next h s = Some t \<and> segment (vmem t) h (absorb c cs) 0 \<and> edits W (span h 12) s t"
proof -
  note c = segment_first [OF g ok] and tl = segment_first(5) [OF g ok] and h = segment_first(6-8) [OF g ok]
  note o = owns_header [OF h(1)] and L = vm.laws [of W]
  show ?thesis
  proof (cases cs)
    case Nil
    then have "merge_next h s = Some s" using tl w o by (simp add: merge_next_def L)
    then show ?thesis using g Nil edits_refl [OF w] by auto
  next
    case (Cons d ds)
    let ?n = "load32 (vmem s) (h + 8)"
    have d: "?n \<noteq> 0" "c_addr d = ?n" "c_size d = load32 (vmem s) ?n" "c_flags d = load32 (vmem s) (?n + 4)"
      and tl2: "segment (vmem s) (load32 (vmem s) (?n + 8)) ds 0" using tl Cons by simp_all
    have hd: "sep 12 h 12 ?n" "span ?n 12 \<subseteq> W" using ok Cons c(2) d(2) by (auto simp: headers_ok_Cons)
    note on = owns_header [OF hd(2)] and sw = sep_header_words [OF hd(1)]
    show ?thesis
    proof (cases "c_flags d = 1")
      case False
      then have "merge_next h s = Some s" using d w o on by (simp add: merge_next_def L)
      then show ?thesis using g Cons False edits_refl [OF w] by auto
    next
      case True
      define t where "t = put32 (h + 8) (load32 (vmem s) (?n + 8)) (put32 h (c_size c + 12 + c_size d) s)"
      have "merge_next h s = Some t"
        using True c d w o on by (simp add: merge_next_def t_def L sw)
      moreover have e: "edits W (span h 12) s t"
        unfolding t_def using o header_parts [of h] by (intro edits_step edits_refl [OF w]; blast)
      moreover have "segment (vmem t) (load32 (vmem s) (?n + 8)) ds 0"
        using segment_edits [OF e _ _ tl2] h Cons by auto
      moreover have "load32 (vmem t) h = c_size c + 12 + c_size d" "load32 (vmem t) (h + 4) = c_flags c"
        "load32 (vmem t) (h + 8) = load32 (vmem s) (?n + 8)"
        unfolding t_def using w o c by (simp_all add: L)
      ultimately show ?thesis using True Cons c by auto
    qed
  qed
qed

lemma find_previous_last:
  assumes w: "window W s" and h: "h \<notin> c_addr ` set ps"
  shows "segment (vmem s) p (ps @ [c]) h \<Longrightarrow> headers (ps @ [c]) \<subseteq> W \<Longrightarrow> h \<noteq> c_addr c \<Longrightarrow>
    find_previous h p s = Some (c_addr c)"
  using h
proof (induction ps arbitrary: p)
  case Nil
  then have "span p 12 \<subseteq> W" by simp
  from Nil owns_header [OF this] show ?case
    by (subst find_previous.simps) (simp add: vm.ld_val [of W] w)
next
  case (Cons a ps)
  then have p: "span p 12 \<subseteq> W" "segment (vmem s) (load32 (vmem s) (p + 8)) (ps @ [c]) h" by auto
  have "find_previous h (load32 (vmem s) (p + 8)) s = Some (c_addr c)"
    using Cons p by auto
  moreover have "load32 (vmem s) (p + 8) \<noteq> h"
    using p(2) Cons.prems(3,4) by (cases ps) auto
  ultimately show ?case using owns_header [OF p(1)]
    by (subst find_previous.simps) (simp add: vm.ld_val [of W] w)
qed

lemma merge_previous_absorb:
  assumes w: "window W s" and g: "segment (vmem s) (heap_first s) (ps @ [c]) h" "segment (vmem s) h (d # ds) 0"
    and ok: "headers_ok W ((ps @ [c]) @ d # ds)" and fl: "c_flags d = 1"
  shows "\<exists>t. merge_previous h s = Some t \<and>
     segment (vmem t) (heap_first s) (ps @ (if c_flags c = 1 then absorb c (d # ds) else c # d # ds)) 0 \<and>
     edits W (span (c_addr c) 12) s t"
proof -
  let ?p = "c_addr c" and ?f = "heap_first s"
  have hd: "h = c_addr d" using g(2) by simp
  have ap: "sep 12 (c_addr x) 12 h" if "x \<in> set (ps @ [c])" for x
    using ok that hd by (auto simp: headers_ok_append headers_ok_Cons)
  have nz: "\<not> sep 12 x 12 x" for x by (simp add: sep_def)
  have hn: "h \<notin> c_addr ` set ps" "h \<noteq> ?p" using ap nz by force+
  have W: "headers (ps @ [c]) \<subseteq> W" "span ?p 12 \<subseteq> W" "span h 12 \<subseteq> W" "headers ds \<subseteq> W"
    using ok hd by (auto simp: headers_ok_def)
  have "?f \<noteq> h" using g(1) hn by (cases ps) auto
  note fp = find_previous_last [OF w hn(1) g(1) W(1) hn(2)]
  note o = owns_header [OF W(2)] owns_header [OF W(3)] and L = vm.laws [of W]
  obtain q where q: "segment (vmem s) ?f ps q" "segment (vmem s) q [c] h"
    using g(1) by (auto simp: segment_append)
  have c: "?p \<noteq> 0" "q = ?p" "c_size c = load32 (vmem s) ?p" "c_flags c = load32 (vmem s) (?p + 4)"
    "load32 (vmem s) (?p + 8) = h" using q(2) by simp_all
  have all: "segment (vmem s) ?f (ps @ c # d # ds) 0"
    using g q by (auto simp: segment_append)
  show ?thesis
  proof (cases "c_flags c = 1")
    case False
    then have "merge_previous h s = Some s" using \<open>?f \<noteq> h\<close> fp c w o by (simp add: merge_previous_def L)
    then show ?thesis using all False edits_refl [OF w] by auto
  next
    case True
    define t where "t = put32 (?p + 8) (load32 (vmem s) (h + 8)) (put32 ?p (c_size c + 12 + c_size d) s)"
    have sw: "sep 12 ?p 12 h" using ap by simp
    have d: "c_size d = load32 (vmem s) h" "segment (vmem s) (load32 (vmem s) (h + 8)) ds 0" using g(2) by simp_all
    have "merge_previous h s = Some t"
      using True \<open>?f \<noteq> h\<close> fp c d w o
      by (simp add: merge_previous_def t_def L sep_header_words [OF sw])
    moreover have e: "edits W (span ?p 12) s t"
      unfolding t_def using o header_parts [of ?p] by (intro edits_step edits_refl [OF w]; blast)
    moreover have "span ?p 12 \<inter> headers ps = {}" "span ?p 12 \<inter> headers ds = {}"
      using ok headers_disjoint [of ds ?p] headers_disjoint_before [of ps ?p]
      by (auto simp: headers_ok_append headers_ok_Cons)
    then have "segment (vmem t) (load32 (vmem s) (h + 8)) ds 0" "segment (vmem t) ?f ps ?p"
      using segment_edits [OF e _ _ d(2)] segment_edits [OF e _ _ q(1)] W c(2) by auto
    moreover have "load32 (vmem t) ?p = c_size c + 12 + c_size d" "load32 (vmem t) (?p + 4) = c_flags c"
      "load32 (vmem t) (?p + 8) = load32 (vmem s) (h + 8)"
      unfolding t_def using w o c by (simp_all add: L)
    ultimately show ?thesis using True c fl by (auto simp: segment_append)
  qed
qed

lemma release_head: "c_addr c = h \<Longrightarrow> release h (c # cs) = absorb (c\<lparr>c_flags := 1\<rparr>) cs"
  by simp

lemma release_later:
  "h \<notin> c_addr ` set (ps @ [p]) \<Longrightarrow> c_addr c = h \<Longrightarrow>
     release h (ps @ p # c # cs) =
       ps @ (if c_flags p = 1 then absorb p (absorb (c\<lparr>c_flags := 1\<rparr>) cs)
             else p # absorb (c\<lparr>c_flags := 1\<rparr>) cs)"
proof (induction ps)
  case (Cons a ps)
  have "c_addr (hd (ps @ p # c # cs)) \<noteq> h" using Cons.prems(1) by (cases ps) auto
  moreover have "c_addr a \<noteq> h" using Cons.prems(1) by auto
  ultimately show ?case using Cons by simp
qed simp

lemma absorb_head: "\<exists>d ds. absorb c cs = d # ds \<and> c_addr d = c_addr c \<and> c_flags d = c_flags c \<and> set ds \<subseteq> set cs"
  by (cases cs) auto

lemma headers_ok_flag:
  "headers_ok W (c\<lparr>c_flags := v\<rparr> # cs) = headers_ok W (c # cs)"
  by (simp add: headers_ok_Cons)

lemma headers_ok_absorb: "headers_ok W (c # cs) \<Longrightarrow> headers_ok W (absorb c cs)"
  by (cases cs) (auto simp: headers_ok_Cons)

text \<open>\<open>kfree\<close> before it looks for the previous chunk: the chunk is marked as free and the next one merged into it.\<close>

lemma kfree_marks:
  assumes w: "window W s" and g: "segment (vmem s) (heap_first s) (pre @ c # post) 0"
    and ok: "headers_ok W (pre @ c # post)" and nz: "c_addr c + 12 \<noteq> 0"
  shows "\<exists>t. kfree (c_addr c + 12) s = merge_previous (c_addr c) t \<and> heap_first t = heap_first s \<and>
     segment (vmem t) (heap_first s) pre (c_addr c) \<and> segment (vmem t) (c_addr c) (absorb (c\<lparr>c_flags := 1\<rparr>) post) 0 \<and>
     edits W (span (c_addr c) 12) s t"
proof -
  let ?h = "c_addr c" and ?c = "c\<lparr>c_flags := 1\<rparr>"
  note L = vm.laws [of W]
  obtain q where q: "segment (vmem s) (heap_first s) pre q" "segment (vmem s) q (c # post) 0"
    using g by (auto simp: segment_append)
  have okc: "headers_ok W (c # post)" and okp: "headers_ok W pre"
    and ap: "\<forall>x \<in> set pre. sep 12 (c_addr x) 12 ?h"
    using ok by (auto simp: headers_ok_append)
  have pW: "headers pre \<subseteq> W" using okp by (simp add: headers_ok_def)
  note c = segment_first [OF q(2) okc]
  have qh: "q = ?h" using c(2) by simp
  note c = c [unfolded qh] and o = owns_header [OF c(6) [unfolded qh]]
  have dpre: "span ?h 12 \<inter> headers pre = {}" by (rule headers_disjoint_before [OF ap])
  define s1 where "s1 = put32 (?h + 4) 1 s"
  have e1: "edits W (span ?h 12) s s1"
    unfolding s1_def using o header_parts [of ?h] by (intro edits_put w) auto
  have "segment (vmem s1) (load32 (vmem s) (?h + 8)) post 0"
    using segment_edits [OF e1 c(7) _ c(5)] c(8) by blast
  then have g1: "segment (vmem s1) ?h (?c # post) 0" using c(1,3) w o by (simp add: s1_def L)
  have pre1: "segment (vmem s1) (heap_first s) pre ?h"
    using segment_edits [OF e1 pW _ q(1)] dpre qh by blast
  obtain t where t: "merge_next ?h s1 = Some t" "segment (vmem t) ?h (absorb ?c post) 0" "edits W (span ?h 12) s1 t"
    using merge_next_absorb [OF edits_window [OF e1] g1] okc by (auto simp: headers_ok_flag)
  have "segment (vmem t) (heap_first s) pre ?h"
    using segment_edits [OF t(3) pW _ pre1] dpre by blast
  moreover have "kfree (?h + 12) s = merge_previous ?h t"
    using nz w o t(1) by (simp add: kfree_def L s1_def [symmetric])
  moreover have "edits W (span ?h 12) s t" by (rule edits_trans [OF e1 t(3)])
  ultimately show ?thesis using t(2) edits_fields(1) by blast
qed

lemma kfree_released:
  assumes w: "window W s" and g: "segment (vmem s) (heap_first s) (pre @ c # post) 0"
    and ok: "headers_ok W (pre @ c # post)" and nz: "c_addr c + 12 \<noteq> 0"
  shows "\<exists>t. kfree (c_addr c + 12) s = Some t \<and>
     segment (vmem t) (heap_first s) (release (c_addr c) (pre @ c # post)) 0 \<and>
     edits W (headers (pre @ [c])) s t"
proof -
  let ?h = "c_addr c" and ?c = "c\<lparr>c_flags := 1\<rparr>"
  obtain u where u: "kfree (?h + 12) s = merge_previous ?h u" "heap_first u = heap_first s"
    "segment (vmem u) (heap_first s) pre ?h" "segment (vmem u) ?h (absorb ?c post) 0" "edits W (span ?h 12) s u"
    using kfree_marks [OF assms] by blast
  show ?thesis
  proof (cases pre rule: rev_cases)
    case Nil
    then have "heap_first s = ?h" using u(3) by simp
    then show ?thesis using Nil u by (auto simp: merge_previous_def)
  next
    case (snoc ps p)
    obtain d ds where d: "absorb ?c post = d # ds" "c_addr d = ?h" "c_flags d = 1" "set ds \<subseteq> set post"
      using absorb_head [of ?c post] by auto
    have ap: "\<forall>x \<in> set pre. \<forall>d \<in> set (c # post). sep 12 (c_addr x) 12 (c_addr d)"
      using ok by (auto simp: headers_ok_append)
    have "headers_ok W (pre @ absorb ?c post)"
      using headers_ok_absorb [of W ?c post] ok ap d unfolding headers_ok_append headers_ok_flag by auto
    then have okd: "headers_ok W ((ps @ [p]) @ d # ds)" using d snoc by simp
    have "segment (vmem u) (heap_first u) (ps @ [p]) ?h" "segment (vmem u) ?h (d # ds) 0" using u(2-4) d snoc by simp_all
    from merge_previous_absorb [OF edits_window [OF u(5)] this okd d(3)] obtain t where t:
      "merge_previous ?h u = Some t"
      "segment (vmem t) (heap_first s) (ps @ (if c_flags p = 1 then absorb p (d # ds) else p # d # ds)) 0"
      "edits W (span (c_addr p) 12) u t" unfolding u(2) by blast
    have "edits W (headers (pre @ [c])) s t"
      using snoc by (intro edits_trans [OF edits_mono [OF u(5)] edits_mono [OF t(3)]]) auto
    moreover have "?h \<notin> c_addr ` set pre" using ap by (force simp: sep_def)
    then have "release ?h (pre @ c # post) = ps @ (if c_flags p = 1 then absorb p (d # ds) else p # d # ds)"
      using release_later [of ?h ps p c post] snoc d(1) by simp
    ultimately show ?thesis using t(1,2) u(1) by auto
  qed
qed

section \<open>The fresh heap\<close>

abbreviation heap_page :: "u32 set" where "heap_page \<equiv> span 0x1000000 4096"

definition fresh_heap :: "'a heap_scheme \<Rightarrow> bool" where
  "fresh_heap s \<longleftrightarrow> window heap_page s \<and> heap_first s = 0x1000000 \<and>
     segment (vmem s) 0x1000000 [\<lparr>c_addr = 0x1000000, c_size = 4084, c_flags = 1\<rparr>] 0"

lemma heap_page_sub: "k + n \<le> 4096 \<Longrightarrow> span (0x1000000 + of_nat k) n \<subseteq> heap_page"
  by (rule span_sub)

lemma window_heap_first [simp]: "window W (s\<lparr>heap_first := p\<rparr>) = window W s"
proof -
  have t: "translate (s\<lparr>heap_first := p\<rparr>) = translate s" by (simp add: fun_eq_iff translate_def)
  have b: "free_blocks (s\<lparr>heap_first := p\<rparr>) = free_blocks s" "bitmap_span (s\<lparr>heap_first := p\<rparr>) = bitmap_span s"
    "pmm_ok (s\<lparr>heap_first := p\<rparr>) = pmm_ok s"
    by (simp_all add: free_blocks_def managed_def in_use_def bitmap_word_def bitmap_span_def pmm_ok_def)
  have "phys (s\<lparr>heap_first := p\<rparr>) = phys s" by (simp add: phys_def fun_eq_iff t)
  then show ?thesis by (simp add: window_def t b)
qed

lemma heap_first_put [simp, frame]: "heap_first (put32 a v s) = heap_first s"
  by (simp add: put32_def)

lemma remapped_new_window:
  fixes s :: "'a paging_scheme"
  assumes ok: "paging_ok s" and on: "bit (cr0 s) 31" "cr3 s = kernel_directory s"
    and slot: "\<not> present (pde (mem s) (kernel_directory s) (dix va))" and ne: "free_blocks s \<noteq> {}" "next_apart s"
    and al: "aligned va" "aligned n" and n: "n \<notin> frames (mem s) (kernel_directory s)" "n \<noteq> fst (pmm_alloc_block s)"
    "span n 4096 \<inter> bitmap_span s = {}"
  shows "window (span va 4096) (remapped va n s)"
    "i < 4096 \<Longrightarrow> translate (remapped va n s) (va + of_nat i) = Some (n + of_nat i)"
    "x \<notin> span va 4096 \<Longrightarrow> translate (remapped va n s) x = translate s x"
proof -
  let ?t = "remapped va n s" and ?d = "kernel_directory s"
  note p = remapped_absent [OF ok slot ne, where pa = n]
  have on': "bit (cr0 ?t) 31" "cr3 ?t = kernel_directory ?t" using on by simp_all
  have w: "walk (mem ?t) (kernel_directory ?t) w = Some (n OR (w AND 0xFFF))"
    if "drop_bit 12 w = drop_bit 12 va" for w
    using p(4) [of w] that by (simp add: frame_of_aligned al(2))
  have nf: "n \<notin> frames (mem ?t) (kernel_directory ?t)" using p(6) n(1,2) by simp
  have "bitmap_span ?t = bitmap_span s" by (simp add: bitmap_span_def)
  then have nb: "span n 4096 \<inter> bitmap_span ?t = {}" using n(3) by simp
  note pw = page_window [OF p(1) on' al w nf nb]
  show "window (span va 4096) ?t" by (rule pw(1))
  show "i < 4096 \<Longrightarrow> translate ?t (va + of_nat i) = Some (n + of_nat i)" by (rule pw(2))
  assume "x \<notin> span va 4096"
  then have "drop_bit 12 x \<noteq> drop_bit 12 va" using page_span [OF al(1)] by simp
  then show "translate ?t x = translate s x" using p(4) [of x] on by (simp add: translate_def)
qed

text \<open>Room for the heap: the two lowest free blocks become its page and its table. The table and the
  directory are mapped onto themselves.\<close>

definition heap_room :: "'a paging_scheme \<Rightarrow> bool" where
  "heap_room s \<longleftrightarrow> 2 \<le> card (free_blocks s) \<and> low_apart 2 s \<and> self_mapped s (span (kernel_directory s) 4096) \<and>
     self_mapped s (span (of_nat (Min (free_blocks s - {Min (free_blocks s)})) * BLOCK_SIZE) 4096)"

lemma heap_dix [simp]: "dix 0x1000000 = 4"
  by (simp add: dix_def)

lemma heap_aligned: "aligned 0x1000000"
  by (simp add: aligned_def)

lemma dix_heap_page: "x \<in> heap_page \<Longrightarrow> dix x = 4"
proof -
  assume "x \<in> heap_page"
  then have "drop_bit 12 x = drop_bit 12 (0x1000000 :: u32)" using page_span [OF heap_aligned] by simp
  then have "dix x = dix 0x1000000" unfolding same_page [symmetric] by simp
  then show ?thesis by simp
qed

lemma heap_slot_present:
  assumes "window heap_page s" "bit (cr0 s) 31"
  shows "present (pde (mem s) (kernel_directory s) (dix 0x1000000))"
proof -
  have "0x1000000 \<in> heap_page" by (simp add: span_iff)
  then have "walk (mem s) (kernel_directory s) 0x1000000 \<noteq> None"
    using assms by (auto simp: window_def translate_def)
  then show ?thesis by (auto simp: walk_entries split: if_splits)
qed

lemma heap_frame_taken:
  fixes s :: "'a heap_scheme"
  assumes ok: "paging_ok s" and on: "cr3 s = kernel_directory s"
    and slot: "\<not> present (pde (mem s) (kernel_directory s) 4)" and room: "heap_room s"
  defines "n \<equiv> fst (pmm_alloc_block s)" and "t \<equiv> snd (pmm_alloc_block s)"
  shows "paging_ok t" "\<not> present (pde (mem t) (kernel_directory t) 4)" "free_blocks t = free_blocks s - {Min (free_blocks s)}"
    "free_blocks t \<noteq> {}" "next_apart t" "sees_tables 0x1000000 t" "aligned n" "block_of n = Min (free_blocks s)"
    "n \<notin> frames (mem t) (kernel_directory t)" "n \<noteq> fst (pmm_alloc_block t)" "span n 4096 \<inter> bitmap_span t = {}"
    "block_of n \<notin> free_blocks t" "\<forall>i < 1024. pde (mem t) (kernel_directory t) i = pde (mem s) (kernel_directory s) i"
    "translate t x = translate s x"
proof -
  let ?m = "Min (free_blocks s)"
  have c: "2 \<le> card (free_blocks s)" and la: "low_apart 2 s" using room by (simp_all add: heap_room_def)
  have ne: "free_blocks s \<noteq> {}" using c by auto
  have na: "next_apart s" by (rule low_apart_next [OF la _ ne]) simp
  note a = alloc_frame_facts [OF ok ne, folded n_def t_def]
  have kd: "kernel_directory t = kernel_directory s" by (simp add: t_def)
  show f: "free_blocks t = free_blocks s - {?m}" using free_blocks_alloc [of s] ok ne by (simp add: t_def paging_ok_def)
  show ne1: "free_blocks t \<noteq> {}"
  proof
    assume "free_blocks t = {}"
    then have "free_blocks s \<subseteq> {?m}" using f by blast
    from card_mono [OF _ this] c show False by simp
  qed
  have "low_apart (Suc 0) t"
    by (rule low_apart_alloc [OF la [unfolded numeral_2_eq_2] f]) (simp add: t_def)
  then show na1: "next_apart t" by (rule low_apart_next [OF _ _ ne1]) simp
  show "paging_ok t" "aligned n" "block_of n = ?m" "n \<notin> frames (mem t) (kernel_directory t)"
    "block_of n \<notin> free_blocks t" "span n 4096 \<inter> bitmap_span t = {}"
    using a(1,2,3,5,6,10) na f by (simp_all add: kd) (simp add: t_def)
  show pd: "\<forall>i < 1024. pde (mem t) (kernel_directory t) i = pde (mem s) (kernel_directory s) i" using a(9) kd by simp
  then show slot1: "\<not> present (pde (mem t) (kernel_directory t) 4)" using slot by simp
  show tr: "translate t x = translate s x" for x unfolding t_def by (rule same_translate_alloc [OF ok on])
  have "self_mapped t A = self_mapped s A" for A by (simp add: self_mapped_def tr)
  then show "sees_tables 0x1000000 t" using room slot1 ne1 na1 f kd by (simp add: sees_tables_def heap_room_def Let_def)
  have "block_of (fst (pmm_alloc_block t)) \<in> free_blocks t"
    using alloc_frame_facts(2) [OF a(10) ne1] ne1 by simp
  then show "n \<noteq> fst (pmm_alloc_block t)" using a(2) f by auto
qed

text \<open>The header of the fresh heap.\<close>

lemma header_written:
  fixes v :: "'a heap_scheme"
  assumes w: "window heap_page v" and f: "heap_first v = 0x1000000"
  defines "t \<equiv> put32 (0x1000000 + 8) 0 (put32 (0x1000000 + 4) 1 (put32 0x1000000 4084 v))"
  shows "do { s \<leftarrow> vstore32 (heap_first v) 4084 v; s \<leftarrow> vstore32 (heap_first s + 4) 1 s; vstore32 (heap_first s + 8) 0 s } = Some t"
    "fresh_heap t" "edits heap_page (span 0x1000000 12) v t"
proof -
  have o: "owns heap_page 0x1000000" "owns heap_page (0x1000000 + 4)" "owns heap_page (0x1000000 + 8)"
    using owns_header [of "0x1000000" heap_page] heap_page_sub [of 0 12] by simp_all
  note L = vm.laws [of heap_page]
  show "do { s \<leftarrow> vstore32 (heap_first v) 4084 v; s \<leftarrow> vstore32 (heap_first s + 4) 1 s; vstore32 (heap_first s + 8) 0 s } = Some t"
    using w o by (simp add: L f t_def)
  show e: "edits heap_page (span 0x1000000 12) v t"
    unfolding t_def using o header_parts [of "0x1000000"] by (intro edits_step edits_refl [OF w]; blast)
  have "load32 (vmem t) 0x1000000 = 4084" "load32 (vmem t) (0x1000000 + 4) = 1" "load32 (vmem t) (0x1000000 + 8) = 0"
    unfolding t_def using w o sep_in_header [of "0x1000000"] by (simp_all add: L)
  then show "fresh_heap t" using edits_window [OF e] edits_fields(1) [OF e] f by (simp add: fresh_heap_def)
qed

lemma heap_first_view:
  fixes u :: "'a heap_scheme" and p :: u32
  defines "v \<equiv> u\<lparr>heap_first := p\<rparr>"
  shows "translate v x = translate u x" "paging_ok v = paging_ok u" "mem v = mem u" "window W v = window W u"
    "kernel_directory v = kernel_directory u" "cr0 v = cr0 u" "cr3 v = cr3 u" "heap_first v = p"
    "free_blocks v = free_blocks u"
  by (simp_all add: v_def translate_def paging_ok_def free_blocks_def managed_def in_use_def bitmap_word_def pmm_ok_def
      bitmap_span_def)

lemma heap_table_seen:
  assumes slot: "\<not> present (pde (mem s) (kernel_directory s) 4)" and on: "bit (cr0 s) 31" "cr3 s = kernel_directory s"
    and room: "heap_room s" and out: "\<And>x. x \<notin> heap_page \<Longrightarrow> translate t x = translate s x"
    and kd: "kernel_directory t = kernel_directory s" and p4: "present (pde (mem t) (kernel_directory t) 4)"
    and f4: "frame_of (pde (mem t) (kernel_directory t) 4) = of_nat (Min (free_blocks s - {Min (free_blocks s)})) * BLOCK_SIZE"
  shows "sees_tables 0x1000000 t"
proof -
  have "translate s x = None" if "x \<in> heap_page" for x
    using slot on that dix_heap_page [OF that] by (simp add: translate_def walk_entries)
  then have "translate t x = Some x" if "translate s x = Some x" for x
    using that out [of x] by (cases "x \<in> heap_page") simp_all
  then have "self_mapped s A \<Longrightarrow> self_mapped t A" for A by (simp add: self_mapped_def)
  then show ?thesis using room p4 f4 kd by (simp add: sees_tables_def heap_room_def Let_def)
qed

lemma heap_init_fresh:
  fixes s :: "'a heap_scheme"
  assumes ok: "paging_ok s" and on: "bit (cr0 s) 31" "cr3 s = kernel_directory s"
    and slot: "\<not> present (pde (mem s) (kernel_directory s) 4)" and room: "heap_room s"
  shows "\<exists>t. heap_init s = Some t \<and> fresh_heap t \<and>
     (\<forall>i < 4096. translate t (0x1000000 + of_nat i) = Some (of_nat (4096 * Min (free_blocks s) + i))) \<and>
     (\<forall>x. x \<notin> heap_page \<longrightarrow> translate t x = translate s x) \<and>
     paging_ok t \<and> kernel_directory t = kernel_directory s \<and> cr0 t = cr0 s \<and> cr3 t = cr3 s \<and>
     (\<forall>i < 1024. i \<noteq> 4 \<longrightarrow> pde (mem t) (kernel_directory s) i = pde (mem s) (kernel_directory s) i) \<and>
     sees_tables 0x1000000 t \<and> frames (mem t) (kernel_directory t) =
       insert (of_nat (Min (free_blocks s - {Min (free_blocks s)})) * BLOCK_SIZE) (frames (mem s) (kernel_directory s)) \<and>
     bitmap_span t = bitmap_span s"
proof -
  define n where "n = fst (pmm_alloc_block s)"
  define s1 where "s1 = snd (pmm_alloc_block s)"
  define u where "u = remapped 0x1000000 n s1"
  define v where "v = u\<lparr>heap_first := 0x1000000\<rparr>"
  note a = heap_frame_taken [OF ok on(2) slot room, folded n_def s1_def]
  have s1: "kernel_directory s1 = kernel_directory s" "cr0 s1 = cr0 s" "cr3 s1 = cr3 s" by (simp_all add: s1_def)
  have on1: "bit (cr0 s1) 31" "cr3 s1 = kernel_directory s1" using on s1 by simp_all
  have sl1: "\<not> present (pde (mem s1) (kernel_directory s1) (dix 0x1000000))" using a(2) by simp
  note m = remapped_new_window [OF a(1) on1 sl1 a(4,5) heap_aligned a(7,9-11), folded u_def]
    and p = remapped_absent [OF a(1) sl1 a(4,5), where pa = n, folded u_def, unfolded s1]
  have mp: "map_page 0x1000000 n s1 = Some u" unfolding u_def by (rule map_page_remaps [OF a(1) on1(2) a(6)])
  have "free_blocks s \<noteq> {}" using a(3,4) by auto
  then have n: "n = of_nat (4096 * Min (free_blocks s))"
    using alloc_some(1) [of s] ok by (simp add: n_def paging_ok_def BLOCK_SIZE_def)
  note vu = heap_first_view [where u = u and p = "0x1000000", folded v_def]
  have w: "window heap_page v" using m(1) vu(4) by simp
  note h = header_written [OF w vu(8)]
  define t where "t = put32 (0x1000000 + 8) 0 (put32 (0x1000000 + 4) 1 (put32 0x1000000 4084 v))"
  note h = h [folded t_def]
  have st: "heap_init s = Some t"
    using h(1) unfolding heap_init_def
    by (simp add: case_prod_beta n_def [symmetric] s1_def [symmetric] mp Let_def v_def)
  have tt: "translate t x = translate u x" for x using h(3) vu(1) by (simp add: edits_def)
  have "\<forall>i < 4096. translate t (0x1000000 + of_nat i) = Some (of_nat (4096 * Min (free_blocks s) + i))"
    using m(2) n by (simp add: tt)
  moreover have "\<forall>x. x \<notin> heap_page \<longrightarrow> translate t x = translate s x" using m(3) a(14) by (simp add: tt)
  moreover have "paging_ok t" using edits_paging_ok [OF h(3)] vu(2) p(1) by simp
  moreover have "kernel_directory t = kernel_directory s" "cr0 t = cr0 s" "cr3 t = cr3 s"
    using edits_fields [OF h(3)] vu(5-7) s1 by (simp_all add: u_def)
  moreover have "\<forall>i < 1024. i \<noteq> 4 \<longrightarrow> pde (mem t) (kernel_directory s) i = pde (mem s) (kernel_directory s) i"
    using edits_pde [OF h(3) w] p(7) vu(3,5) p(2) a(13) s1 by simp
  moreover have "sees_tables 0x1000000 t"
  proof -
    have f4: "frame_of (pde (mem t) (kernel_directory t) 4) = of_nat (Min (free_blocks s - {Min (free_blocks s)})) * BLOCK_SIZE"
      using edits_pde [OF h(3) w] edits_fields [OF h(3)] p(2) p(8) vu(3,5) alloc_some(1) [of s1] a(1,3,4)
      by (simp add: paging_ok_def)
    have "window heap_page t" "bit (cr0 t) 31" using h(2) edits_fields [OF h(3)] vu(6) s1 on by (simp_all add: fresh_heap_def u_def)
    from heap_slot_present [OF this] have p4: "present (pde (mem t) (kernel_directory t) 4)" by simp
    show ?thesis by (rule heap_table_seen [OF slot on room _ _ p4 f4])
      (use m(3) a(14) edits_fields [OF h(3)] p(2) vu(5) in \<open>simp_all add: tt\<close>)
  qed
  moreover have "frames (mem t) (kernel_directory t) =
      insert (of_nat (Min (free_blocks s - {Min (free_blocks s)})) * BLOCK_SIZE) (frames (mem s) (kernel_directory s))"
  proof -
    have "frames (mem s1) (kernel_directory s) = frames (mem s) (kernel_directory s)"
      using alloc_frame_facts(6) [OF ok \<open>free_blocks s \<noteq> {}\<close>] by (simp add: s1_def)
    moreover have "frames (mem t) (kernel_directory t) = frames (mem v) (kernel_directory v)"
      using edits_frames [OF h(3) w] edits_fields [OF h(3)] by simp
    ultimately show ?thesis using p(2,6) vu(3,5) alloc_some(1) [of s1] a(1,3,4) by (simp add: paging_ok_def)
  qed
  moreover have "bitmap_span t = bitmap_span s" by (simp add: bitmap_span_def t_def v_def u_def s1_def)
  ultimately show ?thesis using st h(2) by (intro exI [of _ t] conjI)
qed

text \<open>Without a second block for the table, or with one that is not mapped, the set-up faults.\<close>

lemma heap_init_faults:
  fixes s :: "'a heap_scheme"
  assumes ok: "paging_ok s" and on: "cr3 s = kernel_directory s"
    and slot: "\<not> present (pde (mem s) (kernel_directory s) 4)" and dir: "self_mapped s (span (kernel_directory s) 4096)"
    and un: "if card (free_blocks s) < 2 then translate s 0xFFFFFFFF = None
      else translate s (of_nat (Min (free_blocks s - {Min (free_blocks s)})) * BLOCK_SIZE) = None"
  shows "heap_init s = None" "map_page 0x1000000 (fst (pmm_alloc_block s)) (snd (pmm_alloc_block s)) = None"
    "translate (snd (pmm_alloc_block s)) (fst (pmm_alloc_block (snd (pmm_alloc_block s)))) = None"
proof -
  define t where "t = snd (pmm_alloc_block s)"
  have t: "kernel_directory t = kernel_directory s" "cr3 t = kernel_directory t" using on by (simp_all add: t_def)
  have tr: "translate t x = translate s x" for x unfolding t_def by (rule same_translate_alloc [OF ok on])
  have sm: "self_mapped t A = self_mapped s A" for A by (simp add: self_mapped_def tr)
  have pok: "pmm_ok s" using ok by (simp add: paging_ok_def)
  have "paging_ok t \<and> \<not> present (pde (mem t) (kernel_directory t) 4) \<and> free_blocks t = free_blocks s - {Min (free_blocks s)}"
  proof (cases "free_blocks s = {}")
    case True
    then show ?thesis using alloc_none [OF pok True] ok slot by (simp add: t_def)
  next
    case False
    show ?thesis using alloc_frame_facts(9,10) [OF ok False] free_blocks_alloc [OF pok False] slot t(1)
      by (simp add: t_def)
  qed
  then have a: "paging_ok t" "\<not> present (pde (mem t) (kernel_directory t) (dix 0x1000000))"
    "free_blocks t = free_blocks s - {Min (free_blocks s)}" by simp_all
  have un': "translate t (fst (pmm_alloc_block t)) = None"
  proof (cases "free_blocks t = {}")
    case True
    then have "card (free_blocks s) \<le> card {Min (free_blocks s)}" using a(3) by (intro card_mono) auto
    then have "card (free_blocks s) < 2" by simp
    then show ?thesis using un alloc_none [of t] a(1) True tr by (simp add: paging_ok_def)
  next
    case False
    then have "\<not> card (free_blocks s) < 2"
    proof -
      have "Min (free_blocks s) \<in> free_blocks s" using False a(3) by (intro Min_in) auto
      then have "Suc (card (free_blocks t)) = card (free_blocks s)"
        unfolding a(3) by (intro card_Suc_Diff1) simp_all
      moreover have "0 < card (free_blocks t)" using False by (simp add: card_gt_0_iff)
      ultimately show ?thesis by simp
    qed
    then show ?thesis using un alloc_some(1) [of t] a(1,3) False tr by (simp add: paging_ok_def)
  qed
  from map_page_faults [OF a(1) t(2) _ a(2) this] dir sm t(1)
  show mp: "map_page 0x1000000 (fst (pmm_alloc_block s)) (snd (pmm_alloc_block s)) = None" by (simp add: t_def)
  then show "heap_init s = None" by (simp add: heap_init_def case_prod_beta)
  show "translate (snd (pmm_alloc_block s)) (fst (pmm_alloc_block (snd (pmm_alloc_block s)))) = None"
    using un' by (simp add: t_def)
qed

section \<open>Runs of allocations\<close>

primrec kmallocs :: "u32 list \<Rightarrow> 'a heap_scheme \<Rightarrow> (u32 list \<times> 'a heap_scheme) option" where
  "kmallocs [] s = Some ([], s)"
| "kmallocs (n # ns) s = do {
     (p, s) \<leftarrow> kmalloc n s;
     (ps, s) \<leftarrow> kmallocs ns s;
     Some (p # ps, s)
   }"

text \<open>Used chunks of the given sizes laid end to end from address \<open>o\<close>, and their pointers.\<close>

fun laid :: "nat \<Rightarrow> nat list \<Rightarrow> chunk list" where
  "laid a [] = []"
| "laid a (n # ns) = \<lparr>c_addr = of_nat a, c_size = of_nat n, c_flags = 0\<rparr> # laid (a + 12 + n) ns"

definition extent :: "nat list \<Rightarrow> nat" where
  "extent ns = sum_list ns + 12 * length ns"

fun pointers :: "nat \<Rightarrow> nat list \<Rightarrow> u32 list" where
  "pointers a [] = []"
| "pointers a (n # ns) = of_nat (a + 12) # pointers (a + 12 + n) ns"

lemma extent_simps [simp]: "extent [] = 0" "extent (n # ns) = 12 + n + extent ns"
  "extent (ms @ ns) = extent ms + extent ns"
  by (simp_all add: extent_def)

lemma laid_append: "laid a (ms @ ns) = laid a ms @ laid (a + extent ms) ns"
  by (induction ms arbitrary: a) (simp_all add: add_ac)

lemma laid_chunk: "c \<in> set (laid a ns) \<Longrightarrow>
    \<exists>k. c_addr c = of_nat k \<and> c_flags c = 0 \<and> a \<le> k \<and> k + 12 \<le> a + extent ns"
proof (induction ns arbitrary: a)
  case (Cons n ns)
  show ?case
  proof (cases "c \<in> set (laid (a + 12 + n) ns)")
    case True
    from Cons.IH [OF this] obtain k where
      "c_addr c = of_nat k \<and> c_flags c = 0 \<and> a + 12 + n \<le> k \<and> k + 12 \<le> a + 12 + n + extent ns" by blast
    then show ?thesis by (intro exI [of _ k]) simp
  next
    case False
    then show ?thesis using Cons.prems by (intro exI [of _ a]) auto
  qed
qed simp

lemma first_fit_skip: "(\<forall>c \<in> set cs. c_flags c = 0) \<Longrightarrow>
    first_fit n (cs @ ds) = (fst (first_fit n ds), cs @ snd (first_fit n ds))"
  by (induction cs) auto

lemma header_in_page:
  assumes "0x1000000 \<le> k" "k + 12 \<le> 0x1001000"
  shows "span (of_nat k) 12 \<subseteq> heap_page" "(of_nat k :: u32) \<noteq> 0"
proof -
  have "of_nat k = 0x1000000 + (of_nat (k - 0x1000000) :: u32)" using assms by (simp add: of_nat_diff)
  then show "span (of_nat k) 12 \<subseteq> heap_page" using assms heap_page_sub [of "k - 0x1000000" 12] by simp
  have "unat (of_nat k :: u32) = k" using assms by (simp add: unat_of_nat)
  then show "(of_nat k :: u32) \<noteq> 0" using assms by auto
qed

lemma header_apart: "k + 12 \<le> j \<Longrightarrow> j + 12 \<le> 0x1001000 \<Longrightarrow> sep 12 (of_nat k) 12 (of_nat j)"
  by (intro sep_interval) (simp_all add: unat_of_nat)

lemma headers_ok_laid:
  "0x1000000 \<le> a \<Longrightarrow> a + extent ns + 12 \<le> 0x1001000 \<Longrightarrow>
     headers_ok heap_page (laid a ns @ [\<lparr>c_addr = of_nat (a + extent ns), c_size = z, c_flags = f\<rparr>])"
proof (induction ns arbitrary: a)
  case Nil
  then show ?case using header_in_page [of a] by (simp add: headers_ok_def)
next
  case (Cons n ns)
  let ?last = "\<lparr>c_addr = of_nat (a + extent (n # ns)), c_size = z, c_flags = f\<rparr>"
  have "sep 12 (of_nat a) 12 (c_addr d)" if "d \<in> set (laid (a + 12 + n) ns @ [?last])" for d
  proof -
    obtain k where k: "c_addr d = of_nat k" "a + 12 \<le> k" "k + 12 \<le> a + 12 + n + extent ns + 12"
    proof (cases "d = ?last")
      case True
      then show ?thesis by (intro that [of "a + extent (n # ns)"]) auto
    next
      case False
      then have "d \<in> set (laid (a + 12 + n) ns)" using \<open>d \<in> _\<close> by simp
      from laid_chunk [OF this] show ?thesis using that by force
    qed
    then show ?thesis unfolding k(1) using Cons.prems by (intro header_apart) simp_all
  qed
  moreover have "headers_ok heap_page (laid (a + 12 + n) ns @ [?last])"
    using Cons.IH [of "a + 12 + n"] Cons.prems by (simp add: add_ac)
  ultimately show ?case using header_in_page [of a] Cons.prems by (auto simp: headers_ok_Cons)
qed

text \<open>The heap after allocations of the sizes \<open>ms\<close> and no release.\<close>

definition rest_chunk :: "nat list \<Rightarrow> chunk" where
  "rest_chunk ms = \<lparr>c_addr = of_nat (0x1000000 + extent ms), c_size = of_nat (4084 - sum_list ms), c_flags = 1\<rparr>"

definition heap_holds :: "nat list \<Rightarrow> 'a heap_scheme \<Rightarrow> bool" where
  "heap_holds ms s \<longleftrightarrow> window heap_page s \<and> heap_first s = 0x1000000 \<and>
     segment (vmem s) 0x1000000 (laid 0x1000000 ms @ [rest_chunk ms]) 0"

lemma fresh_holds: "fresh_heap s \<longleftrightarrow> heap_holds [] s"
  by (simp add: fresh_heap_def heap_holds_def rest_chunk_def)

lemma headers_ok_holds: "extent ms + 12 \<le> 4096 \<Longrightarrow> headers_ok heap_page (laid 0x1000000 ms @ [rest_chunk ms])"
  unfolding rest_chunk_def by (rule headers_ok_laid) simp_all

lemma kmalloc_laid:
  assumes h: "heap_holds ms s" and fits: "extent ms + 12 + n + 12 \<le> 4096"
  shows "\<exists>t. kmalloc (of_nat n) s = Some (of_nat (0x1000000 + extent ms + 12), t) \<and> heap_holds (ms @ [n]) t \<and>
     edits heap_page (headers (laid 0x1000000 (ms @ [n]) @ [rest_chunk (ms @ [n])])) s t"
proof -
  let ?left = "4084 - sum_list ms - n"
  have small: "sum_list ms + n + 12 \<le> 4084" using fits by (simp add: extent_def)
  have sz: "(of_nat (4084 - sum_list ms) - of_nat n :: u32) = of_nat ?left"
    using small by (simp add: of_nat_diff)
  have "(of_nat n :: u32) \<le> of_nat (4084 - sum_list ms)"
    using small by (simp add: word_le_nat_alt unat_of_nat del: of_nat_diff)
  moreover have "0 < sint (of_nat ?left :: u32)"
  proof -
    have "sint (of_nat ?left :: u32) = int ?left"
      using small by (simp add: sint_uint signed_take_bit_int_eq_self uint_nat unat_of_nat del: of_nat_diff)
    then show ?thesis using small by simp
  qed
  ultimately have ff: "first_fit (of_nat n) (laid 0x1000000 ms @ [rest_chunk ms]) =
      (of_nat (0x1000000 + extent ms + 12), laid 0x1000000 (ms @ [n]) @ [rest_chunk (ms @ [n])])"
    using laid_chunk [of _ "0x1000000" ms] sz
    by (subst first_fit_skip) (auto simp: laid_append rest_chunk_def algebra_simps simp del: of_nat_diff)
  have w: "window heap_page s" "segment (vmem s) (heap_first s) (laid 0x1000000 ms @ [rest_chunk ms]) 0"
    and f: "heap_first s = 0x1000000" using h by (simp_all add: heap_holds_def)
  from kmalloc_loop_first_fit [OF w headers_ok_holds, of "of_nat n"] headers_ok_holds [of "ms @ [n]"] fits
  obtain u where u: "kmalloc (of_nat n) s = Some (of_nat (0x1000000 + extent ms + 12), u)"
    "segment (vmem u) (heap_first s) (laid 0x1000000 (ms @ [n]) @ [rest_chunk (ms @ [n])]) 0"
    "edits heap_page (headers (laid 0x1000000 (ms @ [n]) @ [rest_chunk (ms @ [n])])) s u"
    unfolding ff kmalloc_def by auto
  then show ?thesis using f edits_window [OF u(3)] edits_fields(1) [OF u(3)]
    by (auto simp: heap_holds_def)
qed

lemma kmallocs_laid:
  "heap_holds ms s \<Longrightarrow> extent ms + extent ns + 12 \<le> 4096 \<Longrightarrow>
     \<exists>t. kmallocs (map of_nat ns) s = Some (pointers (0x1000000 + extent ms) ns, t) \<and> heap_holds (ms @ ns) t"
proof (induction ns arbitrary: ms s)
  case (Cons n ns)
  have "extent ms + 12 + n + 12 \<le> 4096" using Cons.prems(2) by simp
  from kmalloc_laid [OF Cons.prems(1) this] obtain u where
    u: "kmalloc (of_nat n) s = Some (of_nat (0x1000000 + extent ms + 12), u)" "heap_holds (ms @ [n]) u" by blast
  from Cons.IH [OF u(2)] Cons.prems(2) obtain t where
    "kmallocs (map of_nat ns) u = Some (pointers (0x1000000 + extent (ms @ [n])) ns, t)"
    "heap_holds ((ms @ [n]) @ ns) t" by auto
  then show ?case using u(1) by (simp add: add_ac)
qed auto

lemma length_pointers [simp]: "length (pointers a ns) = length ns"
  by (induction a ns rule: pointers.induct) auto

lemma pointer_bounds:
  "a + extent ns < 2 ^ 32 \<Longrightarrow> i < length ns \<Longrightarrow>
     a + 12 \<le> unat (pointers a ns ! i) \<and> unat (pointers a ns ! i) + ns ! i \<le> a + extent ns"
proof (induction a ns arbitrary: i rule: pointers.induct)
  case (2 a n ns)
  show ?case
  proof (cases i)
    case 0
    then show ?thesis using 2 by (simp add: unat_of_nat del: of_nat_add of_nat_numeral)
  next
    case (Suc j)
    then show ?thesis using 2 by fastforce
  qed
qed simp

lemma pointer_order:
  "a + extent ns < 2 ^ 32 \<Longrightarrow> i < j \<Longrightarrow> j < length ns \<Longrightarrow>
     unat (pointers a ns ! i) + ns ! i + 12 \<le> unat (pointers a ns ! j)"
proof (induction a ns arbitrary: i j rule: pointers.induct)
  case (2 a n ns)
  then obtain k where k: "j = Suc k" by (cases j) auto
  show ?case
  proof (cases i)
    case 0
    then have "a + 12 + n + 12 \<le> unat (pointers (a + 12 + n) ns ! k)"
      using pointer_bounds [of "a + 12 + n" ns k] 2 k by simp
    then show ?thesis using 0 k 2 by (simp add: unat_of_nat del: of_nat_add of_nat_numeral)
  next
    case (Suc i')
    then show ?thesis using 2 k by auto
  qed
qed simp

lemma kmallocs_fresh:
  assumes "fresh_heap s" and "sum_list ns + 12 * length ns + 12 \<le> 4096"
  shows "\<exists>t. kmallocs (map of_nat ns) s = Some (pointers 0x1000000 ns, t) \<and> window heap_page t \<and>
     segment (vmem t) (heap_first t)
       (laid 0x1000000 ns @ [\<lparr>c_addr = of_nat (0x1000000 + extent ns),
          c_size = of_nat (4084 - sum_list ns), c_flags = 1\<rparr>]) 0"
  using kmallocs_laid [of "[]" s ns] assms by (auto simp: fresh_holds heap_holds_def rest_chunk_def extent_def)

text \<open>The machine of the demonstrations: paging switched on, then the heap set up.\<close>

lemma paging_extend_facts:
  fixes s :: paging and e :: 'a
  defines "t \<equiv> (paging.extend s e :: 'a paging_scheme)"
  shows "free_blocks t = free_blocks s" "pmm_ok t = pmm_ok s" "frames_apart t = frames_apart s"
    "cr0 t = cr0 s" "managed t = managed s"
proof -
  show f: "free_blocks t = free_blocks s" "pmm_ok t = pmm_ok s" "cr0 t = cr0 s" "managed t = managed s"
    by (simp_all add: t_def paging.defs free_blocks_def managed_def pmm_ok_def in_use_def bitmap_word_def)
  have "bitmap_span t = bitmap_span s" by (simp add: t_def paging.defs bitmap_span_def)
  then show "frames_apart t = frames_apart s" using f(1) by (simp add: frames_apart_def)
qed

definition ram64_heap :: heap where
  "ram64_heap = paging.extend (pmm_free_memory 0x14000 (pmm_free_memory 0x15000 ram64_paging)) (heap.fields 0)"

lemma ram64_heap_facts:
  "pmm_ok ram64_heap" "free_blocks ram64_heap = {5, 9, 12, 20, 21}" "frames_apart ram64_heap"
proof -
  have "managed ram64_two_free = 64" by (simp add: managed_def ram64_two_free_facts)
  then have m: "managed ram64_paging = 64" by (simp add: ram64_paging_def pmm_extend_facts)
  let ?u = "pmm_free_memory 0x15000 ram64_paging" let ?v = "pmm_free_memory 0x14000 ?u"
  show "pmm_ok ram64_heap" by (simp add: ram64_heap_def paging_extend_facts ram64_paging_facts)
  have f: "free_blocks ?v = {5, 9, 12, 20, 21}"
    by (auto simp: free_blocks_free ram64_paging_facts m)
  then show "free_blocks ram64_heap = {5, 9, 12, 20, 21}"
    by (simp add: ram64_heap_def paging_extend_facts)
  have "bitmap_span ?v = span 0x200000 8"
    by (simp add: ram64_paging_def pmm_extend_facts ram64_span)
  then have "frames_apart ?v" unfolding frames_apart_def f
    using low_span [of 5] low_span [of 9] low_span [of 12] low_span [of 20] low_span [of 21] by simp
  then show "frames_apart ram64_heap" by (simp add: ram64_heap_def paging_extend_facts)
qed

lemma ram64_heap_boot:
  "\<exists>s t. paging_init ram64_heap = Returns s \<and> heap_init s = Some t \<and> fresh_heap t \<and>
     translate t 0x1001000 = None \<and> paging_ok s \<and> bit (cr0 s) 31 \<and> cr3 s = kernel_directory s \<and>
     \<not> present (pde (mem s) (kernel_directory s) 4) \<and> heap_room s \<and>
     (\<forall>x. x \<notin> heap_page \<longrightarrow> 0x400000 \<le> unat x \<longrightarrow> translate s x = None)"
proof -
  have c: "card (free_blocks ram64_heap) = 5" by (simp add: ram64_heap_facts)
  then have "2 \<le> card (free_blocks ram64_heap)" by simp
  from paging_init_returns [OF ram64_heap_facts(1) this frames_apart_low [OF ram64_heap_facts(3)]]
  obtain s where s: "paging_init ram64_heap = Returns s" "paging_ok s"
    "\<forall>va. walk (mem s) (cr3 s) va = (if unat va < 0x400000 then Some va else None)"
    "cr3 s = kernel_directory s" "bit (cr0 s) 31"
    "\<forall>i < 1024. present (pde (mem s) (cr3 s) i) \<longleftrightarrow> i = 0"
    "free_blocks s = free_blocks ram64_heap -
       {Min (free_blocks ram64_heap), Min (free_blocks ram64_heap - {Min (free_blocks ram64_heap)})}"
    "bitmap_span s = bitmap_span ram64_heap" "kernel_directory s = of_nat (Min (free_blocks ram64_heap)) * BLOCK_SIZE"
    by (elim exE conjE) (rule that)
  have fb: "free_blocks s = {12, 20, 21}" using s(7) by (simp add: ram64_heap_facts insert_Diff_if)
  have "frames_apart s" using ram64_heap_facts(3) unfolding frames_apart_def fb s(8) ram64_heap_facts(2) by simp
  then have la: "low_apart 2 s" by (rule frames_apart_low)
  have low: "translate s a = Some a" if "unat a < 0x400000" for a using that s(3,5) by (simp add: translate_def)
  have "kernel_directory s = 0x5000" using s(9) by (simp add: ram64_heap_facts BLOCK_SIZE_def)
  then have room: "heap_room s" using la low_block_self [OF low, of 20] low_page_self [OF low, of "0x5000"]
    by (simp add: heap_room_def fb insert_Diff_if)
  have sl: "\<not> present (pde (mem s) (kernel_directory s) 4)" using s(4,6) by simp
  from heap_init_fresh [OF s(2,5,4) sl room] obtain t where t: "heap_init s = Some t" "fresh_heap t"
    "\<forall>x. x \<notin> heap_page \<longrightarrow> translate t x = translate s x" by auto
  have "0x1001000 \<notin> heap_page" by (simp add: span_iff)
  then have "translate t 0x1001000 = translate s 0x1001000" using t(3) by blast
  then have "translate t 0x1001000 = None" using s(3,5) by (simp add: translate_def)
  moreover have "\<forall>x. x \<notin> heap_page \<longrightarrow> 0x400000 \<le> unat x \<longrightarrow> translate s x = None"
    using s(3,5) by (simp add: translate_def)
  ultimately show ?thesis using s(1,2,4,5) t(1,2) sl room by blast
qed

section \<open>Properties\<close>

text \<open>C28: With paging on, the directory slot of 16 MB empty and two blocks free, both clear of the bitmap
  and the second, as the directory, mapped onto itself, \<open>heap_init\<close> maps
  the page at 0x1000000 to the lowest free block, changes no other translation, and leaves a
  heap of one free chunk of 4084 bytes in a window of its own.\<close>

theorem heap_init_spec:
  fixes s :: "'a heap_scheme"
  assumes "paging_ok s" and "bit (cr0 s) 31" and "cr3 s = kernel_directory s"
    and "\<not> present (pde (mem s) (kernel_directory s) 4)" and "heap_room s"
  shows "\<exists>t. heap_init s = Some t \<and> fresh_heap t \<and>
     (\<forall>i < 4096. translate t (0x1000000 + of_nat i) = Some (of_nat (4096 * Min (free_blocks s) + i))) \<and>
     (\<forall>x. x \<notin> heap_page \<longrightarrow> translate t x = translate s x) \<and>
     paging_ok t \<and> kernel_directory t = kernel_directory s \<and> cr0 t = cr0 s \<and> cr3 t = cr3 s \<and>
     (\<forall>i < 1024. i \<noteq> 4 \<longrightarrow> pde (mem t) (kernel_directory s) i = pde (mem s) (kernel_directory s) i) \<and>
     sees_tables 0x1000000 t"
  using heap_init_fresh [OF assms] by blast

theorem heap_init_spec_witness:
  "\<exists>s t. paging_init ram64_heap = Returns s \<and> heap_init s = Some t \<and> fresh_heap t"
proof -
  obtain s where s: "paging_init ram64_heap = Returns s" "paging_ok s" "bit (cr0 s) 31"
    "cr3 s = kernel_directory s" "\<not> present (pde (mem s) (kernel_directory s) 4)" "heap_room s"
    using ram64_heap_boot by blast
  from heap_init_spec [OF s(2-6)] s(1) show ?thesis by blast
qed

text \<open>C6: \<open>kmalloc\<close> on a well-formed chain of chunks returns, gives the pointer of the first fit
  (0 when no free chunk is large enough), and leaves the chain that first fit describes, new
  header included, provided that the headers of that chain, the one that a split writes among them, lie in the
  window as well (where the new header crosses the end of the page, \<open>kmalloc\<close> faults instead:
  \<open>kmalloc_faults_at_page_end\<close>). It writes headers only: every other byte of the window, so the data of all
  blocks, and every byte outside the window are as before.\<close>

theorem kmalloc_first_fit:
  assumes "window W s" and "segment (vmem s) (heap_first s) cs 0" and "headers_ok W cs"
    and "headers_ok W (snd (first_fit n cs))"
  shows "\<exists>t. kmalloc n s = Some (fst (first_fit n cs), t) \<and>
     segment (vmem t) (heap_first t) (snd (first_fit n cs)) 0 \<and> window W t \<and>
     (\<forall>x \<in> W - headers (snd (first_fit n cs)). vmem t x = vmem s x) \<and>
     agree (- phys s ` W) (mem s) (mem t)"
proof -
  obtain t where t: "kmalloc n s = Some (fst (first_fit n cs), t)"
    "segment (vmem t) (heap_first s) (snd (first_fit n cs)) 0" "edits W (headers (snd (first_fit n cs))) s t"
    using kmalloc_loop_first_fit [OF assms] by (auto simp: kmalloc_def)
  then show ?thesis using edits_fields(1) [OF t(3)] by (auto simp: edits_def)
qed

theorem kmalloc_first_fit_witness:
  "\<exists>(s :: heap) t. fresh_heap s \<and> kmalloc 50 s = Some (0x100000C, t) \<and>
     segment (vmem t) (heap_first t) [\<lparr>c_addr = 0x1000000, c_size = 50, c_flags = 0\<rparr>,
       \<lparr>c_addr = 0x100003E, c_size = 4034, c_flags = 1\<rparr>] 0"
proof -
  obtain s :: heap where s: "fresh_heap s" using ram64_heap_boot by blast
  let ?c = "\<lparr>c_addr = 0x1000000, c_size = 4084, c_flags = 1\<rparr> :: chunk"
  have w: "window heap_page s" "segment (vmem s) (heap_first s) [?c] 0" using s by (simp_all add: fresh_heap_def)
  have f: "first_fit 50 [?c] = (0x100000C, [\<lparr>c_addr = 0x1000000, c_size = 50, c_flags = 0\<rparr>,
       \<lparr>c_addr = 0x100003E, c_size = 4034, c_flags = 1\<rparr>])" by simp
  have ok: "headers_ok heap_page [?c]"
    "headers_ok heap_page [\<lparr>c_addr = 0x1000000, c_size = 50, c_flags = 0\<rparr>,
       \<lparr>c_addr = 0x100003E, c_size = 4034, c_flags = 1\<rparr>]"
    using headers_ok_laid [of "0x1000000" "[]" 4084 1] headers_ok_laid [of "0x1000000" "[50]" 4034 1]
    by simp_all
  from kmalloc_first_fit [OF w ok(1), of 50, unfolded f fst_conv snd_conv] ok(2) s show ?thesis by blast
qed

text \<open>C7: \<open>kfree\<close> of the pointer of any chunk of the chain returns, and leaves the chain in which
  that chunk is free, merged with its successor when that one is free, and then into its
  predecessor when that one is free. It writes to headers up to the freed one only.\<close>

theorem kfree_spec:
  assumes "window W s" and "segment (vmem s) (heap_first s) (pre @ c # post) 0"
    and "headers_ok W (pre @ c # post)" and "c_addr c + 12 \<noteq> 0"
  shows "\<exists>t. kfree (c_addr c + 12) s = Some t \<and>
     segment (vmem t) (heap_first t) (release (c_addr c) (pre @ c # post)) 0 \<and> window W t \<and>
     (\<forall>x \<in> W - headers (pre @ [c]). vmem t x = vmem s x) \<and> agree (- phys s ` W) (mem s) (mem t)"
proof -
  obtain t where t: "kfree (c_addr c + 12) s = Some t"
    "segment (vmem t) (heap_first s) (release (c_addr c) (pre @ c # post)) 0"
    "edits W (headers (pre @ [c])) s t"
    using kfree_released [OF assms] by blast
  then show ?thesis using edits_fields(1) [OF t(3)] by (auto simp: edits_def)
qed

theorem kfree_spec_witness:
  "\<exists>(s :: heap) t. window heap_page s \<and> kfree 0x100000C s = Some t \<and>
     segment (vmem t) (heap_first t) [\<lparr>c_addr = 0x1000000, c_size = 4096, c_flags = 1\<rparr>] 0"
proof -
  obtain s :: heap where s: "fresh_heap s" using ram64_heap_boot by blast
  have "sum_list [50] + 12 * length [50] + 12 \<le> (4096 :: nat)" by simp
  moreover have "laid 0x1000000 [50] @ [\<lparr>c_addr = of_nat (0x1000000 + extent [50]),
          c_size = of_nat (4084 - sum_list [50]), c_flags = 1\<rparr>] =
        [] @ \<lparr>c_addr = 0x1000000, c_size = 50, c_flags = 0\<rparr> #
        [\<lparr>c_addr = 0x100003E, c_size = 4034, c_flags = 1\<rparr>]" by simp
  ultimately obtain t :: heap where t: "window heap_page t" "segment (vmem t) (heap_first t)
       ([] @ \<lparr>c_addr = 0x1000000, c_size = 50, c_flags = 0\<rparr> #
        [\<lparr>c_addr = 0x100003E, c_size = 4034, c_flags = 1\<rparr>]) 0"
    using kmallocs_fresh [OF s] by metis
  have ok: "headers_ok heap_page ([] @ \<lparr>c_addr = 0x1000000, c_size = 50, c_flags = 0\<rparr> #
       [\<lparr>c_addr = 0x100003E, c_size = 4034, c_flags = 1\<rparr>])"
    using headers_ok_laid [of "0x1000000" "[50]" 4034 1] by simp
  have rel: "release (c_addr \<lparr>c_addr = 0x1000000, c_size = 50, c_flags = 0\<rparr>)
      ([] @ \<lparr>c_addr = 0x1000000, c_size = 50, c_flags = 0\<rparr> #
       [\<lparr>c_addr = 0x100003E, c_size = 4034, c_flags = 1\<rparr>]) =
      [\<lparr>c_addr = 0x1000000, c_size = 4096, c_flags = 1\<rparr>]" by simp
  from kfree_spec [OF t ok, unfolded rel] t(1) show ?thesis by (simp del: segment.simps) blast
qed

text \<open>C22: Pointers of a run of allocations in a fresh heap: as long as the requested sizes and one
  12-byte header each, with the header of the remaining chunk, fit the page, all requests
  succeed, each block lies in the page behind its header, and the blocks and headers do not
  overlap.\<close>

theorem kmalloc_blocks_disjoint:
  assumes "fresh_heap s" and "sum_list ns + 12 * length ns + 12 \<le> 4096"
  shows "\<exists>ps t. kmallocs (map of_nat ns) s = Some (ps, t) \<and> length ps = length ns \<and> window heap_page t \<and>
     (\<forall>i < length ns. 0x100000C \<le> unat (ps ! i) \<and> unat (ps ! i) + ns ! i + 12 \<le> 0x1001000) \<and>
     (\<forall>i j. i < j \<longrightarrow> j < length ns \<longrightarrow> unat (ps ! i) + ns ! i + 12 \<le> unat (ps ! j))"
proof -
  have e: "extent ns + 12 \<le> 4096" using assms(2) by (simp add: extent_def)
  obtain t where t: "kmallocs (map of_nat ns) s = Some (pointers 0x1000000 ns, t)" "window heap_page t"
    using kmallocs_fresh [OF assms] by blast
  have "0x100000C \<le> unat (pointers 0x1000000 ns ! i) \<and> unat (pointers 0x1000000 ns ! i) + ns ! i + 12 \<le> 0x1001000"
    if "i < length ns" for i
    using pointer_bounds [OF _ that, of "0x1000000"] e by simp
  moreover have "unat (pointers 0x1000000 ns ! i) + ns ! i + 12 \<le> unat (pointers 0x1000000 ns ! j)"
    if "i < j" "j < length ns" for i j
    using pointer_order [OF _ that, of "0x1000000"] e by simp
  ultimately show ?thesis using t by (intro exI [of _ "pointers 0x1000000 ns"] exI [of _ t]) simp
qed

theorem kmalloc_blocks_disjoint_witness:
  "\<exists>(s :: heap) ps t. fresh_heap s \<and> kmallocs (map of_nat [1024, 1024, 16]) s = Some (ps, t) \<and> length ps = 3"
proof -
  obtain s :: heap where s: "fresh_heap s" using ram64_heap_boot by blast
  have "sum_list [1024, 1024, 16] + 12 * length [1024, 1024, 16] + 12 \<le> (4096 :: nat)" by simp
  from kmalloc_blocks_disjoint [OF s this] s show ?thesis by fastforce
qed

text \<open>The split forgets the header of the new chunk: in a fresh heap a request of \<open>n\<close> bytes,
  at most 4060, leaves a chunk recorded with \<open>4084 - n\<close> bytes, and a request for all of them
  is granted, although the block then ends 12 bytes past the only page of the heap.\<close>

theorem kmalloc_overruns_page:
  assumes "fresh_heap s" and "0 < n" and "n \<le> 4060"
  shows "\<exists>p q t. kmallocs [of_nat n, of_nat (4084 - n)] s = Some ([p, q], t) \<and>
     unat q + (4084 - n) = 0x1001000 + 12"
proof -
  let ?u = "\<lparr>c_addr = 0x1000000, c_size = of_nat n, c_flags = 0\<rparr> :: chunk"
  let ?f = "\<lparr>c_addr = of_nat (0x1000000 + extent [n]), c_size = of_nat (4084 - n), c_flags = 1\<rparr> :: chunk"
  let ?g = "\<lparr>c_addr = of_nat (0x1000000 + extent [n]), c_size = of_nat (4084 - n), c_flags = 0\<rparr> :: chunk"
  have "sum_list [n] + 12 * length [n] + 12 \<le> 4096" using assms(3) by simp
  from kmallocs_fresh [OF assms(1) this] obtain u p where u: "kmalloc (of_nat n) s = Some (p, u)"
    "window heap_page u" "segment (vmem u) (heap_first u) [?u, ?f] 0"
    by (auto split: option.splits bind_splits)
  have ff: "first_fit (of_nat (4084 - n)) [?u, ?f] = (of_nat (0x1000000 + extent [n] + 12), [?u, ?g])"
    by simp
  have ok: "headers_ok heap_page [?u, ?f]" "headers_ok heap_page [?u, ?g]"
    using headers_ok_laid [of "0x1000000" "[n]"] assms(3) by simp_all
  obtain t where t: "kmalloc (of_nat (4084 - n)) u = Some (of_nat (0x1000000 + extent [n] + 12), t)"
    using kmalloc_first_fit [OF u(2,3) ok(1), of "of_nat (4084 - n)", unfolded ff fst_conv snd_conv] ok(2)
    by blast
  have "unat (of_nat (0x1000000 + extent [n] + 12) :: u32) = 0x1000000 + extent [n] + 12"
    using assms(3) by (simp add: unat_of_nat del: of_nat_add of_nat_numeral)
  then have "unat (of_nat (0x1000000 + extent [n] + 12) :: u32) + (4084 - n) = 0x1001000 + 12"
    using assms(3) by simp
  moreover have "kmallocs [of_nat n, of_nat (4084 - n)] s = Some ([p, of_nat (0x1000000 + extent [n] + 12)], t)"
    using u(1) t by simp
  ultimately show ?thesis by blast
qed

theorem kmalloc_overruns_page_witness:
  "\<exists>(s :: heap) p q t. translate s 0x1001000 = None \<and> kmallocs [4000, 84] s = Some ([p, q], t) \<and>
     unat q + 84 = 0x1001000 + 12"
proof -
  obtain s :: heap where s: "fresh_heap s" "translate s 0x1001000 = None" using ram64_heap_boot by blast
  from kmalloc_overruns_page [OF s(1), of 4000] s(2) show ?thesis by auto
qed

text \<open>Allocating from a heap of a single free chunk and freeing the block again makes the chunk
  12 bytes larger than it was: every such cycle extends the heap into memory it does not
  own.\<close>

theorem kfree_kmalloc_grows:
  assumes "window W s" and "segment (vmem s) (heap_first s) [c] 0" and "c_flags c = 1" and "n \<le> c_size c"
    and "0 < sint (c_size c - n)" and "headers_ok W (snd (first_fit n [c]))" and "c_addr c + 12 \<noteq> 0"
  shows "\<exists>u t. kmalloc n s = Some (c_addr c + 12, u) \<and> kfree (c_addr c + 12) u = Some t \<and>
     segment (vmem t) (heap_first t) [c\<lparr>c_size := c_size c + 12\<rparr>] 0"
proof -
  let ?u = "\<lparr>c_addr = c_addr c, c_size = n, c_flags = 0\<rparr>"
  let ?f = "\<lparr>c_addr = c_addr c + 12 + n, c_size = c_size c - n, c_flags = 1\<rparr>"
  have ff: "first_fit n [c] = (c_addr c + 12, [?u, ?f])" using assms(3-5) by simp
  have ok: "headers_ok W [?u, ?f]" "headers_ok W [c]" using assms(6) ff by (auto simp: headers_ok_Cons)
  obtain u where u: "kmalloc n s = Some (c_addr c + 12, u)" "window W u"
    "segment (vmem u) (heap_first u) ([] @ ?u # [?f]) 0"
    using kmalloc_first_fit [OF assms(1,2) ok(2), of n, unfolded ff] ok(1) by auto
  have rel: "release (c_addr ?u) ([] @ ?u # [?f]) = [c\<lparr>c_size := c_size c + 12\<rparr>]"
    using assms(3) by (cases c) (simp add: algebra_simps)
  have nz: "c_addr ?u + 12 \<noteq> 0" using assms(7) by simp
  have okf: "headers_ok W ([] @ ?u # [?f])" using ok(1) by simp
  from kfree_spec [OF u(2,3) okf nz, unfolded rel] u(1) show ?thesis
    by (simp del: segment.simps) blast
qed

theorem kfree_kmalloc_grows_witness:
  "\<exists>(s :: heap) u t. fresh_heap s \<and> kmalloc 100 s = Some (0x100000C, u) \<and> kfree 0x100000C u = Some t \<and>
     segment (vmem t) (heap_first t) [\<lparr>c_addr = 0x1000000, c_size = 4096, c_flags = 1\<rparr>] 0"
proof -
  obtain s :: heap where s: "fresh_heap s" using ram64_heap_boot by blast
  let ?c = "\<lparr>c_addr = 0x1000000, c_size = 4084, c_flags = 1\<rparr> :: chunk"
  have w: "window heap_page s" "segment (vmem s) (heap_first s) [?c] 0" using s by (simp_all add: fresh_heap_def)
  have ok: "headers_ok heap_page (snd (first_fit 100 [?c]))"
    using headers_ok_laid [of "0x1000000" "[100]" 3984 1] by simp
  have "\<exists>u t. kmalloc 100 s = Some (c_addr ?c + 12, u) \<and> kfree (c_addr ?c + 12) u = Some t \<and>
     segment (vmem t) (heap_first t) [?c\<lparr>c_size := c_size ?c + 12\<rparr>] 0"
    by (rule kfree_kmalloc_grows [OF w _ _ _ ok]) simp_all
  with s show ?thesis by (simp del: segment.simps) blast
qed

lemma store_unmapped: "translate s (a + 3) = None \<Longrightarrow> vstore32 a v s = None"
  by (simp add: vstore32_def mapped_def)

lemma split_faults:
  assumes w: "window heap_page s" and sz: "load32 (vmem s) 0x1000000 = 4084"
    and un: "\<And>i. i < 12 \<Longrightarrow> translate s (0x1001000 + of_nat i) = None" and n: "4073 \<le> n" "n \<le> 4083"
  shows "split_chunk (of_nat n) 0x1000000 s = None"
proof -
  define k where "k = (0x1000000 + 12 + of_nat n :: u32)"
  have off: "k + of_nat j = 0x1001000 + of_nat (j + n - 4084)" if "4084 \<le> j + n" for j
    using that by (simp add: k_def of_nat_diff)
  have at: "k + of_nat j = 0x1000000 + of_nat (12 + n + j)" for j by (simp add: k_def)
  have un3: "translate s (k + of_nat j + 3) = None" if "4084 \<le> j + 3 + n" "j \<le> 8" for j
    using off [of "j + 3"] un [of "j + 3 + n - 4084"] that n by (simp add: ac_simps)
  have own: "owns heap_page (k + of_nat j)" if "j + n + 16 \<le> 4096" for j
    unfolding at owns_def using that by (intro heap_page_sub) simp
  have p: "owns heap_page 0x1000000" "owns heap_page (0x1000000 + 8)"
    using owns_header [of "0x1000000" heap_page] heap_page_sub [of 0 12] by simp_all
  have left: "4084 - of_nat n = (of_nat (4084 - n) :: u32)" using n by (simp add: of_nat_diff)
  have sl: "0 < sint (of_nat (4084 - n) :: u32)"
    using n by (simp add: sint_uint signed_take_bit_int_eq_self uint_nat unat_of_nat del: of_nat_diff)
  have kd: "0x100000C + of_nat n = k" "0x1000010 + of_nat n = k + 4" "0x1000014 + of_nat n = k + 8"
    by (simp_all add: k_def)
  note L = vm.laws [of heap_page]
  define s1 where "s1 = put32 k (of_nat (4084 - n)) s"
  define s2 where "s2 = put32 (k + 4) 1 s1"
  consider "4081 \<le> n" | "4077 \<le> n" "n \<le> 4080" | "n \<le> 4076" using n by linarith
  then show ?thesis
  proof cases
    case 1
    then have "vstore32 k v s = None" for v using un3 [of 0] by (intro store_unmapped) simp
    then show ?thesis using w p sz sl by (simp add: split_chunk_def Let_def L left kd)
  next
    case 2
    then have o: "owns heap_page k" using own [of 0] by simp
    then have "translate s1 x = translate s x" for x unfolding s1_def by (rule window_put(2) [OF w])
    then have "vstore32 (k + 4) v s1 = None" for v using un3 [of 4] 2 by (intro store_unmapped) simp
    then show ?thesis using w p sz sl o by (simp add: split_chunk_def Let_def L left kd s1_def)
  next
    case 3
    then have o: "owns heap_page k" "owns heap_page (k + 4)" using own [of 0] own [of 4] by simp_all
    have w1: "window heap_page s1" unfolding s1_def by (rule window_put(1) [OF w o(1)])
    have "translate s2 x = translate s x" for x
      unfolding s2_def window_put(2) [OF w1 o(2)] unfolding s1_def by (rule window_put(2) [OF w o(1)])
    then have "vstore32 (k + 8) v s2 = None" for v using un3 [of 8] n by (intro store_unmapped) simp
    then show ?thesis using w w1 p sz sl o
      by (simp add: split_chunk_def Let_def L left kd s1_def s2_def)
  qed
qed

text \<open>When the page behind the heap is not mapped, a request of 4073 to 4083 bytes in a fresh
  heap does not fail: the header of the remaining chunk would cross the end of the page, and
  writing it is a page fault, which the kernel does not survive.\<close>

theorem kmalloc_faults_at_page_end:
  assumes "fresh_heap s" and "\<And>i. i < 12 \<Longrightarrow> translate s (0x1001000 + of_nat i) = None"
    and "4073 \<le> n" and "n \<le> 4083"
  shows "kmalloc (of_nat n) s = None"
proof -
  have w: "window heap_page s" and f: "heap_first s = 0x1000000" and sz: "load32 (vmem s) 0x1000000 = 4084"
    and fl: "load32 (vmem s) (0x1000000 + 4) = 1" using assms(1) by (simp_all add: fresh_heap_def)
  have "span 0x1000000 12 \<subseteq> heap_page" using heap_page_sub [of 0 12] by simp
  from chunk_fits_eq [OF w this, of "of_nat n"]
  have "chunk_fits (of_nat n) 0x1000000 s = Some True"
    using sz fl assms(4) by (simp add: word_le_nat_alt unat_of_nat)
  then show ?thesis using split_faults [OF w sz assms(2-4)]
    unfolding kmalloc_def f by (subst kmalloc_loop.simps) simp
qed

theorem kmalloc_faults_at_page_end_witness:
  "\<exists>s t. paging_init ram64_heap = Returns s \<and> heap_init s = Some t \<and> kmalloc 4080 t = None"
proof -
  obtain s where s: "paging_init ram64_heap = Returns s" "paging_ok s" "bit (cr0 s) 31"
    "cr3 s = kernel_directory s" "\<not> present (pde (mem s) (kernel_directory s) 4)" "heap_room s"
    "\<forall>x. x \<notin> heap_page \<longrightarrow> 0x400000 \<le> unat x \<longrightarrow> translate s x = None"
    using ram64_heap_boot by blast
  from heap_init_fresh [OF s(2-6)] obtain t where t: "heap_init s = Some t" "fresh_heap t"
    "\<forall>x. x \<notin> heap_page \<longrightarrow> translate t x = translate s x" by auto
  have "translate t (0x1001000 + of_nat i) = None" if "i < 12" for i
  proof -
    have e: "(0x1001000 + of_nat i :: u32) = of_nat (0x1001000 + i)" by simp
    have "unat (0x1001000 + of_nat i :: u32) = 0x1001000 + i"
      unfolding e using that by (simp add: unat_of_nat del: of_nat_add of_nat_numeral)
    moreover have "unat (0x1001000 + of_nat i - 0x1000000 :: u32) = 0x1000 + i"
      using \<open>unat _ = _\<close> by (subst unat_sub) (simp_all add: word_le_nat_alt)
    ultimately show ?thesis using t(3) s(7) by (simp add: span_iff)
  qed
  from kmalloc_faults_at_page_end [OF t(2) this, of 4080] s(1) t(1) show ?thesis by auto
qed

end
