(* ===== verification/Gdt.thy ===== *)
theory Gdt
  imports Heap
begin

text \<open>
  Segment descriptors and the task state segment (\<open>gdt.h\<close>, \<open>gdt.c\<close>), with the two assembly
  routines that load them. What the processor makes of a descriptor is given by the decoding
  functions of the second section; the code only packs the fields.
\<close>

section \<open>State and operations\<close>

record gdt_entry =
  limit_low :: u16
  base_low :: u16
  base_middle :: u8
  access :: u8
  granularity :: u8
  base_high :: u8

record gdt_ptr =
  ptr_limit :: u16
  ptr_base :: u32

record tss_entry =
  prev_tss :: u32
  esp0 :: u32
  ss0 :: u32
  esp1 :: u32
  ss1 :: u32
  esp2 :: u32
  ss2 :: u32
  tss_cr3 :: u32
  tss_eip :: u32
  tss_eflags :: u32
  tss_eax :: u32
  tss_ecx :: u32
  tss_edx :: u32
  tss_ebx :: u32
  tss_esp :: u32
  tss_ebp :: u32
  tss_esi :: u32
  tss_edi :: u32
  tss_es :: u32
  tss_cs :: u32
  tss_ss :: u32
  tss_ds :: u32
  tss_fs :: u32
  tss_gs :: u32
  tss_ldt :: u32
  tss_trap :: u16
  iomap_base :: u16

text \<open>\<open>sizeof\<close> of the packed structures.\<close>

definition sizeof_gdt_entry :: nat where "sizeof_gdt_entry = 8"
definition sizeof_tss_entry :: nat where "sizeof_tss_entry = 25 * 4 + 2 * 2"

text \<open>The addresses that the linker gives to the tables, and the registers that the
  instructions \<open>lgdt\<close>, \<open>mov\<close>, the far jump and \<open>ltr\<close> load.\<close>

record segment_registers =
  seg_cs :: u16
  seg_ds :: u16
  seg_es :: u16
  seg_fs :: u16
  seg_gs :: u16
  seg_ss :: u16

record gdt = heap +
  gdt_entries :: "gdt_entry list"
  gdt_pointer :: gdt_ptr
  tss :: tss_entry
  gdtr :: gdt_ptr
  segments :: segment_registers
  task_register :: u16

definition gdt_set_gate :: "nat \<Rightarrow> u32 \<Rightarrow> u32 \<Rightarrow> u8 \<Rightarrow> u8 \<Rightarrow> 'a gdt_scheme \<Rightarrow> 'a gdt_scheme" where
  "gdt_set_gate num base limit acc gran s =
     (let e = gdt_entries s ! num;
          e = e\<lparr>base_low := ucast (base AND 0xFFFF)\<rparr>;
          e = e\<lparr>base_middle := ucast (drop_bit 16 base AND 0xFF)\<rparr>;
          e = e\<lparr>base_high := ucast (drop_bit 24 base AND 0xFF)\<rparr>;
          e = e\<lparr>limit_low := ucast (limit AND 0xFFFF)\<rparr>;
          e = e\<lparr>granularity := ucast (drop_bit 16 limit AND 0x0F)\<rparr>;
          e = e\<lparr>granularity := granularity e OR (gran AND 0xF0)\<rparr>;
          e = e\<lparr>access := acc\<rparr>
      in s\<lparr>gdt_entries := (gdt_entries s)[num := e]\<rparr>)"

definition zero_tss :: tss_entry where
  "zero_tss = \<lparr>prev_tss = 0, esp0 = 0, ss0 = 0, esp1 = 0, ss1 = 0, esp2 = 0, ss2 = 0, tss_cr3 = 0,
     tss_eip = 0, tss_eflags = 0, tss_eax = 0, tss_ecx = 0, tss_edx = 0, tss_ebx = 0, tss_esp = 0, tss_ebp = 0, tss_esi = 0, tss_edi = 0,
     tss_es = 0, tss_cs = 0, tss_ss = 0, tss_ds = 0, tss_fs = 0, tss_gs = 0, tss_ldt = 0, tss_trap = 0, iomap_base = 0\<rparr>"

definition write_tss :: "u32 \<Rightarrow> nat \<Rightarrow> u16 \<Rightarrow> u32 \<Rightarrow> 'a gdt_scheme \<Rightarrow> 'a gdt_scheme" where
  "write_tss tss_address num ss sp s =
     (let base = tss_address;
          limit = base + of_nat sizeof_tss_entry;
          s = gdt_set_gate num base limit 0x89 0x00 s;
          s = s\<lparr>tss := zero_tss\<rparr>;
          s = s\<lparr>tss := (tss s)\<lparr>ss0 := ucast ss\<rparr>\<rparr>;
          s = s\<lparr>tss := (tss s)\<lparr>esp0 := sp\<rparr>\<rparr>
      in s\<lparr>tss := (tss s)\<lparr>iomap_base := of_nat sizeof_tss_entry\<rparr>\<rparr>)"

text \<open>\<open>gdt_flush\<close> and \<open>tss_flush\<close> of \<open>interrupt.asm\<close>: \<open>lgdt\<close> of the pointer, the data segment registers from AX and
  the far jump that loads the code segment; \<open>ltr\<close> of 0x2B.\<close>

definition gdt_flush :: "'a gdt_scheme \<Rightarrow> 'a gdt_scheme" where
  "gdt_flush s =
     (let s = s\<lparr>gdtr := gdt_pointer s\<rparr>;
          ax = 0x10;
          s = s\<lparr>segments := (segments s)\<lparr>seg_ds := ax, seg_es := ax, seg_fs := ax, seg_gs := ax, seg_ss := ax\<rparr>\<rparr>
      in s\<lparr>segments := (segments s)\<lparr>seg_cs := 0x08\<rparr>\<rparr>)"

definition tss_flush :: "'a gdt_scheme \<Rightarrow> 'a gdt_scheme" where
  "tss_flush s = s\<lparr>task_register := 0x2B\<rparr>"

definition gdt_init :: "u32 \<Rightarrow> u32 \<Rightarrow> u32 \<Rightarrow> 'a gdt_scheme \<Rightarrow> 'a gdt_scheme" where
  "gdt_init gdt_address tss_address stack_top s =
     (let s = s\<lparr>gdt_pointer := (gdt_pointer s)\<lparr>ptr_limit := of_nat (sizeof_gdt_entry * 6) - 1\<rparr>\<rparr>;
          s = s\<lparr>gdt_pointer := (gdt_pointer s)\<lparr>ptr_base := gdt_address\<rparr>\<rparr>;
          s = gdt_set_gate 0 0 0 0 0 s;
          s = gdt_set_gate 1 0 0xFFFFFFFF 0x9A 0xCF s;
          s = gdt_set_gate 2 0 0xFFFFFFFF 0x92 0xCF s;
          s = gdt_set_gate 3 0 0xFFFFFFFF 0xFA 0xCF s;
          s = gdt_set_gate 4 0 0xFFFFFFFF 0xF2 0xCF s;
          s = write_tss tss_address 5 0x10 stack_top s
      in gdt_flush s)"

section \<open>What the processor reads\<close>

definition seg_base :: "gdt_entry \<Rightarrow> u32" where
  "seg_base e = ucast (base_low e) OR push_bit 16 (ucast (base_middle e)) OR push_bit 24 (ucast (base_high e))"

definition seg_raw_limit :: "gdt_entry \<Rightarrow> u32" where
  "seg_raw_limit e = ucast (limit_low e) OR push_bit 16 (ucast (granularity e AND 0x0F))"

text \<open>The last valid offset: with the granularity bit the limit counts 4096-byte units.\<close>

definition seg_limit :: "gdt_entry \<Rightarrow> u32" where
  "seg_limit e = (if bit (granularity e) 7 then push_bit 12 (seg_raw_limit e) OR 0xFFF else seg_raw_limit e)"

definition seg_present :: "gdt_entry \<Rightarrow> bool" where "seg_present e = bit (access e) 7"
definition seg_dpl :: "gdt_entry \<Rightarrow> u8" where "seg_dpl e = drop_bit 5 (access e) AND 3"
definition seg_code :: "gdt_entry \<Rightarrow> bool" where "seg_code e \<longleftrightarrow> bit (access e) 4 \<and> bit (access e) 3"
definition seg_data :: "gdt_entry \<Rightarrow> bool" where "seg_data e \<longleftrightarrow> bit (access e) 4 \<and> \<not> bit (access e) 3"

text \<open>A selector: index, table (0 for the GDT), requested privilege level.\<close>

definition sel_index :: "u16 \<Rightarrow> nat" where "sel_index w = unat (drop_bit 3 w)"
definition sel_ldt :: "u16 \<Rightarrow> bool" where "sel_ldt w = bit w 2"
definition sel_rpl :: "u16 \<Rightarrow> u16" where "sel_rpl w = w AND 3"

section \<open>Packing and unpacking\<close>

definition packed :: "u32 \<Rightarrow> u32 \<Rightarrow> u8 \<Rightarrow> u8 \<Rightarrow> gdt_entry" where
  "packed base limit acc gran =
     \<lparr>limit_low = ucast (limit AND 0xFFFF), base_low = ucast (base AND 0xFFFF),
      base_middle = ucast (drop_bit 16 base AND 0xFF), access = acc,
      granularity = ucast (drop_bit 16 limit AND 0x0F) OR (gran AND 0xF0),
      base_high = ucast (drop_bit 24 base AND 0xFF)\<rparr>"

lemma set_gate_eq: "gdt_set_gate num base limit acc gran s =
    s\<lparr>gdt_entries := (gdt_entries s)[num := packed base limit acc gran]\<rparr>"
  by (cases "gdt_entries s ! num") (simp add: gdt_set_gate_def packed_def Let_def)

lemma masks: "(0xF :: 'a :: len word) = mask 4" "(0xFF :: 'a word) = mask 8" "(0xFFFF :: 'a word) = mask 16"
  by (simp_all add: mask_numeral)

lemma mask_F0: "(0xF0 :: u8) = push_bit 4 (mask 4)"
  by (simp add: mask_numeral)

lemma seg_base_packed: "seg_base (packed base limit acc gran) = base"
proof (rule bit_word_eqI)
  fix n assume n: "n < LENGTH(32)"
  consider "n < 16" | "16 \<le> n" "n < 24" | "24 \<le> n" by linarith
  then show "bit (seg_base (packed base limit acc gran)) n = bit base n"
    unfolding seg_base_def packed_def masks using n by cases (auto simp: bit_simps)
qed

lemma seg_raw_limit_packed: "seg_raw_limit (packed base limit acc gran) = limit AND 0xFFFFF"
proof -
  have m: "(0xFFFFF :: u32) = mask 20" by (simp add: mask_numeral)
  show ?thesis
  proof (rule bit_word_eqI)
    fix n assume n: "n < LENGTH(32)"
    consider "n < 16" | "16 \<le> n" "n < 20" | "20 \<le> n" by linarith
    then show "bit (seg_raw_limit (packed base limit acc gran)) n = bit (limit AND 0xFFFFF) n"
      unfolding seg_raw_limit_def packed_def mask_F0 masks m using n by cases (auto simp: bit_simps)
  qed
qed

lemma granularity_packed: "4 \<le> k \<Longrightarrow> bit (granularity (packed base limit acc gran)) k = bit gran k"
  unfolding packed_def mask_F0 masks using bit_imp_le_length [of gran k] by (auto simp: bit_simps)

lemma access_packed [simp]: "access (packed base limit acc gran) = acc"
  by (simp add: packed_def)

text \<open>The processor consults the I/O permission bitmap of a task when it starts within the limit.\<close>

definition io_bitmap_used :: "gdt_entry \<Rightarrow> tss_entry \<Rightarrow> bool" where
  "io_bitmap_used e t \<longleftrightarrow> unat (iomap_base t) \<le> unat (seg_limit e)"

section \<open>The table after gdt_init\<close>

lemma write_tss_eq:
  "write_tss a num ss sp s =
     s\<lparr>gdt_entries := (gdt_entries s)[num := packed a (a + 104) 0x89 0],
       tss := zero_tss\<lparr>ss0 := ucast ss, esp0 := sp, iomap_base := 104\<rparr>\<rparr>"
  by (simp add: write_tss_def set_gate_eq Let_def sizeof_tss_entry_def zero_tss_def)

lemma list_update_numeral [simp]: "(x # xs)[numeral k := v] = x # xs[pred_numeral k := v]"
  by (simp add: numeral_eq_Suc)

lemma gdt_init_eq:
  assumes "length (gdt_entries s) = 6"
  shows "gdt_init ga ta stk s =
     s\<lparr>gdt_pointer := \<lparr>ptr_limit = 47, ptr_base = ga\<rparr>,
       gdt_entries := [packed 0 0 0 0, packed 0 0xFFFFFFFF 0x9A 0xCF, packed 0 0xFFFFFFFF 0x92 0xCF,
         packed 0 0xFFFFFFFF 0xFA 0xCF, packed 0 0xFFFFFFFF 0xF2 0xCF, packed ta (ta + 104) 0x89 0],
       tss := zero_tss\<lparr>ss0 := 0x10, esp0 := stk, iomap_base := 104\<rparr>,
       gdtr := \<lparr>ptr_limit = 47, ptr_base = ga\<rparr>,
       segments := \<lparr>seg_cs = 0x08, seg_ds = 0x10, seg_es = 0x10, seg_fs = 0x10, seg_gs = 0x10, seg_ss = 0x10\<rparr>\<rparr>"
proof -
  obtain a b c d e f where "gdt_entries s = [a, b, c, d, e, f]"
    using assms by (auto simp: numeral_eq_Suc length_Suc_conv)
  then show ?thesis
    by (cases "gdt_pointer s"; cases "segments s")
      (simp add: gdt_init_def write_tss_eq set_gate_eq gdt_flush_def Let_def sizeof_gdt_entry_def)
qed

lemma seg_limit_small: "\<not> bit gran 7 \<Longrightarrow> seg_limit (packed base limit acc gran) = limit AND 0xFFFFF"
  by (simp add: seg_limit_def granularity_packed seg_raw_limit_packed)

lemma seg_limit_flat: "seg_limit (packed base 0xFFFFFFFF acc 0xCF) = 0xFFFFFFFF"
  by (simp add: seg_limit_def granularity_packed seg_raw_limit_packed)

section \<open>Properties\<close>

definition gdt_boot :: gdt where
  "gdt_boot = heap.extend ram64_heap
     (gdt.fields (replicate 6 (packed 0 0 0 0)) \<lparr>ptr_limit = 0, ptr_base = 0\<rparr> zero_tss
       \<lparr>ptr_limit = 0, ptr_base = 0\<rparr> \<lparr>seg_cs = 0, seg_ds = 0, seg_es = 0, seg_fs = 0, seg_gs = 0, seg_ss = 0\<rparr> 0)"

lemma gdt_boot_entries: "length (gdt_entries gdt_boot) = 6"
  by (simp add: gdt_boot_def heap.defs gdt.defs)

text \<open>A descriptor built by \<open>gdt_set_gate\<close> decodes to the base, the low 20 bits of the limit,
  the access byte and the four flags it was given, and no other descriptor changes.\<close>

theorem gdt_set_gate_roundtrip:
  assumes "num < length (gdt_entries s)"
  shows "let e = gdt_entries (gdt_set_gate num base limit acc gran s) ! num in
     seg_base e = base \<and> seg_raw_limit e = limit AND 0xFFFFF \<and> access e = acc \<and>
     (\<forall>k. 4 \<le> k \<longrightarrow> bit (granularity e) k = bit gran k) \<and>
     (\<forall>i. i \<noteq> num \<longrightarrow> gdt_entries (gdt_set_gate num base limit acc gran s) ! i = gdt_entries s ! i)"
  using assms by (simp add: set_gate_eq seg_base_packed seg_raw_limit_packed granularity_packed Let_def)

theorem gdt_set_gate_roundtrip_witness:
  "seg_base (gdt_entries (gdt_set_gate 5 0x12345678 0xABCDE 0x89 0x40 gdt_boot) ! 5) = 0x12345678"
proof -
  have "5 < length (gdt_entries gdt_boot)" by (simp add: gdt_boot_entries)
  from gdt_set_gate_roundtrip [OF this, of "0x12345678" "0xABCDE" "0x89" "0x40"]
  show ?thesis by (simp add: Let_def)
qed

text \<open>C40: After \<open>gdt_init\<close> the table register covers exactly the six descriptors, the null
  descriptor is not present, and the selectors 0x08, 0x10, 0x1B and 0x23 that the kernel uses
  name, in this order, ring 0 code, ring 0 data, ring 3 code and ring 3 data, all present and
  spanning the whole address space; the code segment register holds 0x08 and the others 0x10, and 0x2B of
  \<open>tss_flush\<close> names the descriptor of the task state.\<close>

theorem gdt_init_segments:
  assumes "length (gdt_entries s) = 6"
  shows "let t = gdt_init ga ta stk s; seg = (\<lambda>w. gdt_entries t ! sel_index w) in
     unat (ptr_limit (gdtr t)) + 1 = 8 * length (gdt_entries t) \<and> ptr_base (gdtr t) = ga \<and>
     \<not> seg_present (gdt_entries t ! 0) \<and>
     (\<forall>w \<in> {0x08, 0x10, 0x1B, 0x23}. \<not> sel_ldt w \<and> seg_present (seg w) \<and> seg_base (seg w) = 0 \<and>
        seg_limit (seg w) = 0xFFFFFFFF \<and> ucast (sel_rpl w) = seg_dpl (seg w)) \<and>
     seg_code (seg 0x08) \<and> seg_data (seg 0x10) \<and> seg_code (seg 0x1B) \<and> seg_data (seg 0x23) \<and>
     seg_dpl (seg 0x08) = 0 \<and> seg_dpl (seg 0x10) = 0 \<and> seg_dpl (seg 0x1B) = 3 \<and> seg_dpl (seg 0x23) = 3 \<and>
     seg_cs (segments t) = 0x08 \<and> {seg_ds (segments t), seg_es (segments t), seg_fs (segments t), seg_gs (segments t),
       seg_ss (segments t)} = {0x10} \<and>
     seg_base (seg (task_register (tss_flush t))) = ta \<and> seg_present (seg (task_register (tss_flush t)))"
  unfolding gdt_init_eq [OF assms] Let_def
  by (simp add: sel_index_def sel_ldt_def sel_rpl_def seg_present_def seg_dpl_def seg_code_def seg_data_def
      seg_base_packed seg_limit_flat tss_flush_def drop_bit_eq_div)

theorem gdt_init_segments_witness:
  "seg_limit (gdt_entries (gdt_init 0x104000 0x104100 0x106000 gdt_boot) ! sel_index 0x1B) = 0xFFFFFFFF"
  using gdt_init_segments [OF gdt_boot_entries, of "0x104000" "0x104100" "0x106000"]
  by (simp add: Let_def)

text \<open>\<open>write_tss\<close> passes the end address of the task state as its limit, where the descriptor
  takes the size minus one. After \<open>gdt_init\<close> the ring 0 stack is set, but the limit is the low
  20 bits of the address plus 104, and whenever these reach 104 the processor does use an I/O
  bitmap, read from the memory behind the structure, although \<open>iomap_base\<close> was set to turn it
  off.\<close>

theorem tss_limit_enables_io_bitmap:
  assumes "length (gdt_entries s) = 6"
  shows "let t = gdt_init ga ta stk s; e = gdt_entries t ! 5 in
     esp0 (tss t) = stk \<and> ss0 (tss t) = 0x10 \<and> seg_limit e = (ta + 104) AND 0xFFFFF \<and>
     (104 \<le> unat ((ta + 104) AND 0xFFFFF) \<longleftrightarrow> io_bitmap_used e (tss t))"
  unfolding gdt_init_eq [OF assms] Let_def
  by (simp add: seg_limit_small io_bitmap_used_def)

theorem tss_limit_enables_io_bitmap_witness:
  "io_bitmap_used (gdt_entries (gdt_init 0x104000 0x104100 0x106000 gdt_boot) ! 5)
     (tss (gdt_init 0x104000 0x104100 0x106000 gdt_boot))"
  using tss_limit_enables_io_bitmap [OF gdt_boot_entries, of "0x104000" "0x104100" "0x106000"]
  by (simp add: Let_def)

end
