(* ===== verification/Idt.thy ===== *)
theory Idt
  imports Gdt
begin

text \<open>
  Interrupt gates and the interrupt controllers (\<open>idt.h\<close>, \<open>idt.c\<close>). The addresses of the
  assembly stubs and of the table come from the linker and are arguments; \<open>dev\<close> answers the two
  mask reads of \<open>pic_remap\<close>. The second part states what the processor makes of a gate and what a
  pair of 8259A controllers makes of the bytes sent to it.
\<close>

section \<open>State and operations\<close>

record idt_entry =
  isr_low :: u16
  kernel_cs :: u16
  reserved :: u8
  attributes :: u8
  isr_high :: u16

record idt_ptr =
  table_limit :: u16
  table_address :: u32

definition sizeof_idt_entry :: nat where "sizeof_idt_entry = 8"

record idt = gdt +
  idt_table :: "idt_entry list"
  idtp :: idt_ptr
  idtr :: idt_ptr

definition idt_set_gate :: "u8 \<Rightarrow> u32 \<Rightarrow> u16 \<Rightarrow> u8 \<Rightarrow> 'a idt_scheme \<Rightarrow> 'a idt_scheme" where
  "idt_set_gate num base selector flags s =
     (let e = idt_table s ! unat num;
          e = e\<lparr>isr_low := ucast (base AND 0xFFFF)\<rparr>;
          e = e\<lparr>kernel_cs := selector\<rparr>;
          e = e\<lparr>reserved := 0\<rparr>;
          e = e\<lparr>attributes := flags\<rparr>;
          e = e\<lparr>isr_high := ucast (drop_bit 16 base AND 0xFFFF)\<rparr>
      in s\<lparr>idt_table := (idt_table s)[unat num := e]\<rparr>)"

definition pic_remap :: "(u16 \<Rightarrow> u8) \<Rightarrow> 'a idt_scheme \<Rightarrow> 'a idt_scheme" where
  "pic_remap dev s =
     (let a1 = inb dev 0x21;
          a2 = inb dev 0xA1;
          s = outb 0x20 0x11 s;
          s = outb 0xA0 0x11 s;
          s = outb 0x21 0x20 s;
          s = outb 0xA1 0x28 s;
          s = outb 0x21 0x04 s;
          s = outb 0xA1 0x02 s;
          s = outb 0x21 0x01 s;
          s = outb 0xA1 0x01 s;
          s = outb 0x21 a1 s
      in outb 0xA1 a2 s)"

record stubs =
  isr14 :: u32
  timer_stub :: u32
  keyboard_handler :: u32
  isr128 :: u32

definition clear_gates :: "'a idt_scheme \<Rightarrow> 'a idt_scheme" where
  "clear_gates s = fold (\<lambda>i. idt_set_gate (of_nat i) 0 0 0) [0..<256] s"

definition idt_init :: "(u16 \<Rightarrow> u8) \<Rightarrow> u32 \<Rightarrow> stubs \<Rightarrow> 'a idt_scheme \<Rightarrow> 'a idt_scheme" where
  "idt_init dev idt_address st s =
     (let s = s\<lparr>idtp := (idtp s)\<lparr>table_limit := of_nat (256 * sizeof_idt_entry - 1)\<rparr>\<rparr>;
          s = s\<lparr>idtp := (idtp s)\<lparr>table_address := idt_address\<rparr>\<rparr>;
          s = clear_gates s;
          s = idt_set_gate 14 (isr14 st) 0x08 0x8E s;
          s = idt_set_gate 32 (timer_stub st) 0x08 0x8E s;
          s = idt_set_gate 33 (keyboard_handler st) 0x08 0x8E s;
          s = idt_set_gate 128 (isr128 st) 0xEE 0xEE s;
          s = pic_remap dev s;
          s = outb 0x21 0xFC s;
          s = outb 0xA1 0xFF s
      in s\<lparr>idtr := idtp s\<rparr>)"

section \<open>What the processor reads\<close>

definition gate_address :: "idt_entry \<Rightarrow> u32" where
  "gate_address e = ucast (isr_low e) OR push_bit 16 (ucast (isr_high e))"

definition gate_present :: "idt_entry \<Rightarrow> bool" where "gate_present e = bit (attributes e) 7"
definition gate_dpl :: "idt_entry \<Rightarrow> u8" where "gate_dpl e = drop_bit 5 (attributes e) AND 3"

text \<open>A 32-bit interrupt gate: the type field reads 01110.\<close>

definition gate_interrupt :: "idt_entry \<Rightarrow> bool" where "gate_interrupt e \<longleftrightarrow> attributes e AND 0x1F = 0x0E"

section \<open>The interrupt controllers\<close>

text \<open>
  An 8259A takes the initialization words in sequence: ICW1 on the command port (bit 4 set) opens
  it, ICW2 on the data port gives the vector offset, ICW3 follows unless ICW1 asked for a single
  chip, ICW4 when ICW1 announced it. Outside the sequence the data port takes the mask.
\<close>

datatype pic_state = Ready | Want2 | Want3 | Want4

record pic =
  pstate :: pic_state
  offset :: u8
  cascade :: u8
  mode :: u8
  irq_mask :: u8
  icw1 :: u8

fun pic_command :: "u8 \<Rightarrow> pic \<Rightarrow> pic" where
  "pic_command v p = (if bit v 4 then p\<lparr>pstate := Want2, icw1 := v, irq_mask := 0\<rparr> else p)"

fun after_icw3 :: "pic \<Rightarrow> pic_state" where
  "after_icw3 p = (if bit (icw1 p) 0 then Want4 else Ready)"

fun pic_data :: "u8 \<Rightarrow> pic \<Rightarrow> pic" where
  "pic_data v p =
     (case pstate p of
        Ready \<Rightarrow> p\<lparr>irq_mask := v\<rparr>
      | Want2 \<Rightarrow> p\<lparr>offset := v AND 0xF8, pstate := (if bit (icw1 p) 1 then after_icw3 p else Want3)\<rparr>
      | Want3 \<Rightarrow> p\<lparr>cascade := v, pstate := after_icw3 p\<rparr>
      | Want4 \<Rightarrow> p\<lparr>mode := v, pstate := Ready\<rparr>)"

fun pics_write :: "u16 \<times> u8 \<Rightarrow> pic \<times> pic \<Rightarrow> pic \<times> pic" where
  "pics_write (port, v) (m, sl) =
     (if port = 0x20 then (pic_command v m, sl)
      else if port = 0x21 then (pic_data v m, sl)
      else if port = 0xA0 then (m, pic_command v sl)
      else if port = 0xA1 then (m, pic_data v sl)
      else (m, sl))"

definition pics_after :: "(u16 \<times> u8) list \<Rightarrow> pic \<times> pic \<Rightarrow> pic \<times> pic" where
  "pics_after log p = fold pics_write log p"

text \<open>The vector that a request line of the master raises, unless it is masked.\<close>

definition master_vector :: "pic \<Rightarrow> nat \<Rightarrow> nat option" where
  "master_vector p line = (if bit (irq_mask p) line then None else Some (unat (offset p) + line))"

section \<open>Gates\<close>

definition gate :: "u32 \<Rightarrow> u16 \<Rightarrow> u8 \<Rightarrow> idt_entry" where
  "gate base sel flags = \<lparr>isr_low = ucast (base AND 0xFFFF), kernel_cs = sel, reserved = 0,
     attributes = flags, isr_high = ucast (drop_bit 16 base AND 0xFFFF)\<rparr>"

lemma idt_set_gate_eq:
  "idt_set_gate num base sel flags s = s\<lparr>idt_table := (idt_table s)[unat num := gate base sel flags]\<rparr>"
  by (cases "idt_table s ! unat num") (simp add: idt_set_gate_def gate_def Let_def)

lemma gate_address_gate: "gate_address (gate base sel flags) = base"
proof (rule bit_word_eqI)
  fix n assume n: "n < LENGTH(32)"
  consider "n < 16" | "16 \<le> n" by linarith
  then show "bit (gate_address (gate base sel flags)) n = bit base n"
    unfolding gate_address_def gate_def masks using n by cases (auto simp: bit_simps)
qed

lemma gate_fields [simp]:
  "attributes (gate base sel flags) = flags" "kernel_cs (gate base sel flags) = sel"
  by (simp_all add: gate_def)

lemma clear_gates_upto:
  "n \<le> 256 \<Longrightarrow> length (idt_table s) = 256 \<Longrightarrow>
     fold (\<lambda>i. idt_set_gate (of_nat i) 0 0 0) [0..<n] s =
       s\<lparr>idt_table := replicate n (gate 0 0 0) @ drop n (idt_table s)\<rparr>"
proof (induction n)
  case (Suc n)
  have "unat (of_nat n :: u8) = n" using Suc.prems(1) by (simp add: unat_of_nat)
  moreover have "drop n (idt_table s) = idt_table s ! n # drop (Suc n) (idt_table s)"
    using Suc.prems by (intro Cons_nth_drop_Suc [symmetric]) simp
  ultimately show ?case using Suc
    by (simp add: idt_set_gate_eq list_update_append replicate_append_same [symmetric])
qed simp

lemma clear_gates_eq:
  "length (idt_table s) = 256 \<Longrightarrow> clear_gates s = s\<lparr>idt_table := replicate 256 (gate 0 0 0)\<rparr>"
  using clear_gates_upto [of 256 s] by (simp add: clear_gates_def)

lemma idt_init_table:
  assumes "length (idt_table s) = 256"
  shows "idt_table (idt_init dev a st s) =
     (replicate 256 (gate 0 0 0))[14 := gate (isr14 st) 0x08 0x8E, 32 := gate (timer_stub st) 0x08 0x8E,
        33 := gate (keyboard_handler st) 0x08 0x8E, 128 := gate (isr128 st) 0xEE 0xEE]"
proof -
  have o: "idt_table (outb p v u) = idt_table u" for p v and u :: "'a idt_scheme"
    by (simp add: outb_def)
  show ?thesis using assms
    by (simp add: idt_init_def Let_def clear_gates_eq idt_set_gate_eq pic_remap_def o)
qed

lemma idt_init_log:
  assumes "length (idt_table s) = 256"
  shows "out_log (idt_init dev a st s) = out_log s @
     [(0x20, 0x11), (0xA0, 0x11), (0x21, 0x20), (0xA1, 0x28), (0x21, 0x04), (0xA1, 0x02), (0x21, 0x01),
      (0xA1, 0x01), (0x21, dev 0x21), (0xA1, dev 0xA1), (0x21, 0xFC), (0xA1, 0xFF)]"
  using assms by (simp add: idt_init_def Let_def clear_gates_eq idt_set_gate_eq pic_remap_def inb_def)

lemma idt_init_idtr:
  assumes "length (idt_table s) = 256"
  shows "idtr (idt_init dev a st s) = \<lparr>table_limit = 2047, table_address = a\<rparr>"
proof -
  have o: "idtp (outb p v u) = idtp u" for p v and u :: "'a idt_scheme"
    by (simp add: outb_def)
  show ?thesis using assms
    by (cases "idtp s") (simp add: idt_init_def Let_def clear_gates_eq idt_set_gate_eq pic_remap_def o sizeof_idt_entry_def)
qed

lemma pics_after_init:
  assumes "length (idt_table s) = 256"
  shows "\<exists>m sl. pics_after (out_log (idt_init dev a st s)) p = (m, sl) \<and>
     pstate m = Ready \<and> offset m = 0x20 \<and> cascade m = 0x04 \<and> bit (mode m) 0 \<and> irq_mask m = 0xFC \<and>
     pstate sl = Ready \<and> offset sl = 0x28 \<and> cascade sl = 0x02 \<and> bit (mode sl) 0 \<and> irq_mask sl = 0xFF"
proof -
  obtain m0 s0 where "fold pics_write (out_log s) p = (m0, s0)" by fastforce
  then show ?thesis by (simp add: pics_after_def idt_init_log [OF assms])
qed

section \<open>Properties\<close>

definition idt_boot :: idt where
  "idt_boot = gdt.extend gdt_boot
     (idt.fields (replicate 256 (gate 0x1234 8 0x8E)) \<lparr>table_limit = 0, table_address = 0\<rparr>
        \<lparr>table_limit = 0, table_address = 0\<rparr>)"

lemma idt_boot_table: "length (idt_table idt_boot) = 256"
  by (simp add: idt_boot_def gdt.defs idt.defs)

text \<open>A gate built by \<open>idt_set_gate\<close> decodes to the handler address, selector and attributes it
  was given, with the reserved byte zero, and no other gate changes.\<close>

theorem idt_set_gate_roundtrip:
  assumes "length (idt_table s) = 256"
  shows "let e = idt_table (idt_set_gate num base sel flags s) ! unat num in
     gate_address e = base \<and> kernel_cs e = sel \<and> attributes e = flags \<and> reserved e = 0 \<and>
     (\<forall>i. i \<noteq> unat num \<longrightarrow> idt_table (idt_set_gate num base sel flags s) ! i = idt_table s ! i)"
proof -
  have "unat num < 256" using unsigned_less [of num] by simp
  then show ?thesis using assms
    by (simp add: idt_set_gate_eq gate_address_gate Let_def) (simp add: gate_def)
qed

theorem idt_set_gate_roundtrip_witness:
  "gate_address (idt_table (idt_set_gate 33 0x10ABCD 8 0x8E idt_boot) ! 33) = 0x10ABCD"
  using idt_set_gate_roundtrip [OF idt_boot_table, of 33 "0x10ABCD" 8 "0x8E"] by (simp add: Let_def)

text \<open>After \<open>idt_init\<close> the table register covers exactly the 256 gates; the present ones are 14,
  32, 33 and 128; the first three are ring 0 interrupt gates to the page fault, timer and
  keyboard stubs in the kernel code segment, and 128 is an interrupt gate open to ring 3.\<close>

theorem idt_init_gates:
  assumes "length (idt_table s) = 256"
  shows "let t = idt_init dev a st s; g = (\<lambda>i. idt_table t ! i) in
     unat (table_limit (idtr t)) + 1 = 8 * length (idt_table t) \<and> table_address (idtr t) = a \<and>
     (\<forall>i < 256. gate_present (g i) \<longleftrightarrow> i \<in> {14, 32, 33, 128}) \<and>
     (\<forall>i \<in> {14, 32, 33}. gate_interrupt (g i) \<and> kernel_cs (g i) = 0x08 \<and> gate_dpl (g i) = 0) \<and>
     gate_address (g 14) = isr14 st \<and> gate_address (g 32) = timer_stub st \<and>
     gate_address (g 33) = keyboard_handler st \<and> gate_address (g 128) = isr128 st \<and>
     gate_interrupt (g 128) \<and> gate_dpl (g 128) = 3"
  unfolding Let_def idt_init_table [OF assms] idt_init_idtr [OF assms]
  by (auto simp: nth_list_update gate_present_def gate_interrupt_def gate_dpl_def gate_address_gate
      drop_bit_eq_div)

theorem idt_init_gates_witness:
  "gate_address (idt_table (idt_init (\<lambda>_. 0xB8) 0x104000 \<lparr>isr14 = 1, timer_stub = 2, keyboard_handler = 3,
     isr128 = 4\<rparr> idt_boot) ! 32) = 2"
  using idt_init_gates [OF idt_boot_table, of "\<lambda>_. 0xB8" "0x104000" "\<lparr>isr14 = 1, timer_stub = 2,
     keyboard_handler = 3, isr128 = 4\<rparr>"] by (simp add: Let_def)

text \<open>C21: From \<open>gdt_init\<close> and \<open>idt_init\<close> on, whatever state the interrupt controllers were in, both
  have completed their initialization, the slave is masked, and of the master only the lines 0
  (timer) and 1 (keyboard) are open. Each open line raises a vector that is no processor
  exception, and its gate is a present interrupt gate to the handler of that device in a ring 0
  code segment.\<close>

theorem irq_lines_handled:
  assumes "length (gdt_entries s) = 6" and "length (idt_table s) = 256"
  shows "let t = idt_init dev a st (gdt_init ga ta stk s) in
     \<exists>m sl. pics_after (out_log t) p = (m, sl) \<and> pstate m = Ready \<and> pstate sl = Ready \<and>
       irq_mask sl = 0xFF \<and> cascade m = 0x04 \<and> cascade sl = 0x02 \<and>
       (\<forall>line < 8. (\<exists>v. master_vector m line = Some v) \<longleftrightarrow> line < 2) \<and>
       (\<forall>line < 8. \<forall>v. master_vector m line = Some v \<longrightarrow> 32 \<le> v \<and>
          gate_present (idt_table t ! v) \<and> gate_interrupt (idt_table t ! v) \<and>
          gate_address (idt_table t ! v) = (if line = 0 then timer_stub st else keyboard_handler st) \<and>
          \<not> sel_ldt (kernel_cs (idt_table t ! v)) \<and>
          seg_code (gdt_entries t ! sel_index (kernel_cs (idt_table t ! v))) \<and>
          seg_dpl (gdt_entries t ! sel_index (kernel_cs (idt_table t ! v))) = 0)"
proof -
  define g where "g = gdt_init ga ta stk s"
  have lg: "length (idt_table g) = 256" using assms(2) by (simp add: g_def gdt_init_eq [OF assms(1)])
  define t where "t = idt_init dev a st g"
  have ge: "gdt_entries t = gdt_entries g"
  proof -
    have o: "gdt_entries (outb q v u) = gdt_entries u" for q v and u :: "'a idt_scheme"
      by (simp add: outb_def)
    show ?thesis using lg
      by (simp add: t_def idt_init_def Let_def clear_gates_eq idt_set_gate_eq pic_remap_def o)
  qed
  obtain m sl where p: "pics_after (out_log t) p = (m, sl)" "pstate m = Ready" "offset m = 0x20" "irq_mask m = 0xFC"
    "cascade m = 0x04" "pstate sl = Ready" "irq_mask sl = 0xFF" "cascade sl = 0x02"
    using pics_after_init [OF lg, of dev a st p] by (auto simp: t_def)
  have bits: "bit (0xFC :: u8) line \<longleftrightarrow> 2 \<le> line" if "line < 8" for line
  proof -
    have "line \<in> set [0..<8]" using that by simp
    then show ?thesis by (auto simp: upt_rec)
  qed
  have v: "(\<exists>v. master_vector m line = Some v) \<longleftrightarrow> line < 2" if "line < 8" for line
    using bits [OF that] p by (auto simp: master_vector_def)
  have w: "v = 32 \<and> line = 0 \<or> v = 33 \<and> line = 1" if "line < 8" "master_vector m line = Some v" for line v
    using that bits [OF that(1)] p by (auto simp: master_vector_def split: if_splits)
  have tab: "idt_table t ! 32 = gate (timer_stub st) 0x08 0x8E" "idt_table t ! 33 = gate (keyboard_handler st) 0x08 0x8E"
    by (simp_all add: t_def idt_init_table [OF lg] nth_list_update)
  have seg: "seg_code (gdt_entries t ! sel_index 0x08) \<and> seg_dpl (gdt_entries t ! sel_index 0x08) = 0"
    unfolding ge g_def gdt_init_eq [OF assms(1)]
    by (simp add: sel_index_def drop_bit_eq_div seg_code_def seg_dpl_def)
  have at: "gate_present (idt_table t ! v) \<and> gate_interrupt (idt_table t ! v) \<and>
      kernel_cs (idt_table t ! v) = 0x08" if "v = 32 \<or> v = 33" for v
    using that tab by (auto simp: gate_present_def gate_interrupt_def)
  have body: "32 \<le> v \<and> gate_present (idt_table t ! v) \<and> gate_interrupt (idt_table t ! v) \<and>
      gate_address (idt_table t ! v) = (if line = 0 then timer_stub st else keyboard_handler st) \<and>
      \<not> sel_ldt (kernel_cs (idt_table t ! v)) \<and>
      seg_code (gdt_entries t ! sel_index (kernel_cs (idt_table t ! v))) \<and>
      seg_dpl (gdt_entries t ! sel_index (kernel_cs (idt_table t ! v))) = 0"
    if "line < 8" "master_vector m line = Some v" for line v
    using w [OF that] at [of v] tab seg by (auto simp: gate_address_gate sel_ldt_def)
  show ?thesis unfolding Let_def g_def [symmetric] t_def [symmetric]
    using p(1,2,5-8) v body by (intro exI [of _ m] exI [of _ sl] conjI) blast+
qed

theorem irq_lines_handled_witness:
  "\<exists>m sl. pics_after (out_log (idt_init (\<lambda>_. 0xB8) 0x104000 \<lparr>isr14 = 1, timer_stub = 2,
     keyboard_handler = 3, isr128 = 4\<rparr> (gdt_init 0x103000 0x103100 0x106000 idt_boot)))
     (\<lparr>pstate = Ready, offset = 8, cascade = 0, mode = 0, irq_mask = 0, icw1 = 0\<rparr>,
      \<lparr>pstate = Ready, offset = 0x70, cascade = 0, mode = 0, irq_mask = 0, icw1 = 0\<rparr>) = (m, sl) \<and>
     irq_mask sl = 0xFF"
proof -
  have "length (gdt_entries idt_boot) = 6" by (simp add: idt_boot_def gdt.defs idt.defs gdt_boot_entries)
  from irq_lines_handled [OF this idt_boot_table] show ?thesis unfolding Let_def by blast
qed

text \<open>The system call gate cannot be entered: \<open>idt_init\<close> gives its attribute byte 0xEE as the
  selector too, which names entry 29 of a local table, while the kernel's code segment is the
  GDT selector 0x08 that every other gate has.\<close>

theorem syscall_gate_selector:
  assumes "length (idt_table s) = 256"
  shows "let e = idt_table (idt_init dev a st s) ! 128 in
     gate_present e \<and> gate_dpl e = 3 \<and> kernel_cs e \<noteq> 0x08 \<and> sel_ldt (kernel_cs e) \<and> sel_index (kernel_cs e) = 29"
  unfolding Let_def idt_init_table [OF assms]
  by (simp add: nth_list_update gate_present_def gate_dpl_def drop_bit_eq_div sel_ldt_def sel_index_def
     )

theorem syscall_gate_selector_witness:
  "sel_ldt (kernel_cs (idt_table (idt_init (\<lambda>_. 0xB8) 0x104000 \<lparr>isr14 = 1, timer_stub = 2,
     keyboard_handler = 3, isr128 = 4\<rparr> idt_boot) ! 128))"
  using syscall_gate_selector [OF idt_boot_table] by (simp add: Let_def)

end
