(* ===== verification/Task.thy ===== *)
theory Task
  imports Idt
begin

text \<open>
  Tasks (\<open>task.h\<close>, \<open>task.c\<close>). A \<open>task_t\<close> is four words on the kernel heap: \<open>id\<close>, \<open>esp\<close>,
  \<open>page_dire\<close>, \<open>next\<close>; the tasks form a ring through \<open>next\<close>. A new task starts from a forged
  interrupt frame of 13 words on its kernel stack.
\<close>

section \<open>The code\<close>

record task = idt +
  current_task :: u32
  ready_queue :: u32
  next_pid :: u32

definition sizeof_task_t :: u32 where "sizeof_task_t = 16"

definition task_init :: "'a task_scheme \<Rightarrow> 'a task_scheme option" where
  "task_init s = do {
     (kernel_task, s) \<leftarrow> kmalloc sizeof_task_t s;
     s \<leftarrow> vstore32 kernel_task (next_pid s) s;
     let s = s\<lparr>next_pid := next_pid s + 1\<rparr>;
     s \<leftarrow> vstore32 (kernel_task + 4) 0 s;
     s \<leftarrow> vstore32 (kernel_task + 8) (kernel_directory s) s;
     let s = s\<lparr>tss := (tss s)\<lparr>ss0 := 0x10\<rparr>\<rparr>;
     s \<leftarrow> vstore32 (kernel_task + 12) kernel_task s;
     let s = s\<lparr>current_task := kernel_task\<rparr>;
     let s = s\<lparr>ready_queue := kernel_task\<rparr>;
     Some (klog_ok (lit ''Task Management Initialized'') s)
   }"

text \<open>\<open>kernel_stack--; *kernel_stack = v;\<close>\<close>

definition push :: "u32 \<Rightarrow> u32 \<Rightarrow> 'a task_scheme \<Rightarrow> (u32 \<times> 'a task_scheme) option" where
  "push v sp s = do {
     let sp = sp - 4;
     s \<leftarrow> vstore32 sp v s;
     Some (sp, s)
   }"

primrec push_zeros :: "nat \<Rightarrow> u32 \<Rightarrow> 'a task_scheme \<Rightarrow> (u32 \<times> 'a task_scheme) option" where
  "push_zeros 0 sp s = Some (sp, s)"
| "push_zeros (Suc n) sp s = do {
     (sp, s) \<leftarrow> push 0 sp s;
     push_zeros n sp s
   }"

text \<open>The two stacks of a task; the page of the user stack is opened to ring 3.\<close>

definition task_stacks :: "'a task_scheme \<Rightarrow> ((u32 \<times> u32) \<times> 'a task_scheme) option" where
  "task_stacks s = do {
     (base_ptr_kernel_stack, s) \<leftarrow> kmalloc 1024 s;
     let kernel_stack = base_ptr_kernel_stack + 4 * 256;
     (base_ptr_user_stack, s) \<leftarrow> kmalloc 1024 s;
     let user_stack = base_ptr_user_stack + 4 * 256;
     let aligned_stack_addr = base_ptr_user_stack AND NOT 0xFFF;
     s \<leftarrow> map_page aligned_stack_addr aligned_stack_addr s;
     Some ((kernel_stack, user_stack), s)
   }"

definition forge_frame :: "u32 \<Rightarrow> u32 \<Rightarrow> u32 \<Rightarrow> 'a task_scheme \<Rightarrow> (u32 \<times> 'a task_scheme) option" where
  "forge_frame kernel_stack user_stack entry_point s = do {
     (kernel_stack, s) \<leftarrow> push 0x23 kernel_stack s;
     (kernel_stack, s) \<leftarrow> push user_stack kernel_stack s;
     (kernel_stack, s) \<leftarrow> push 0x202 kernel_stack s;
     (kernel_stack, s) \<leftarrow> push 0x1B kernel_stack s;
     (kernel_stack, s) \<leftarrow> push entry_point kernel_stack s;
     push_zeros 8 kernel_stack s
   }"

text \<open>The structure of the new task, put behind the running one.\<close>

definition link_task :: "u32 \<Rightarrow> u32 \<Rightarrow> 'a task_scheme \<Rightarrow> 'a task_scheme option" where
  "link_task new_task kernel_stack s = do {
     s \<leftarrow> vstore32 new_task (next_pid s) s;
     let s = s\<lparr>next_pid := next_pid s + 1\<rparr>;
     s \<leftarrow> vstore32 (new_task + 4) kernel_stack s;
     s \<leftarrow> vstore32 (new_task + 8) (kernel_directory s) s;
     nxt \<leftarrow> vload32 (current_task s + 12) s;
     s \<leftarrow> vstore32 (new_task + 12) nxt s;
     vstore32 (current_task s + 12) new_task s
   }"

definition create_task :: "u32 \<Rightarrow> 'a task_scheme \<Rightarrow> 'a task_scheme option" where
  "create_task entry_point s = do {
     ((kernel_stack, user_stack), s) \<leftarrow> task_stacks s;
     (kernel_stack, s) \<leftarrow> forge_frame kernel_stack user_stack entry_point s;
     (new_task, s) \<leftarrow> kmalloc sizeof_task_t s;
     link_task new_task kernel_stack s
   }"

section \<open>Fields of a task\<close>

text \<open>Stores to the window from a task state, and updates of the fields above the heap.\<close>

lemma put_task_fields [simp, frame]:
  "current_task (put32 a v s) = current_task s" "ready_queue (put32 a v s) = ready_queue s"
  "next_pid (put32 a v s) = next_pid s" "tss (put32 a v s) = tss s"
  by (simp_all add: put32_def)

lemma edits_task_fields:
  assumes "edits W H s t"
  shows "current_task t = current_task s" "ready_queue t = ready_queue s" "next_pid t = next_pid s"
    "tss t = tss s" "task.more t = task.more s"
proof -
  have t: "t = s\<lparr>mem := mem t\<rparr>" using assms unfolding edits_def by blast
  show "current_task t = current_task s" "ready_queue t = ready_queue s" "next_pid t = next_pid s"
    "tss t = tss s" "task.more t = task.more s" by (subst t, simp)+
qed

text \<open>What the kernel sees of its memory depends on the memory, the registers and the allocator only.\<close>

lemma view_cong:
  assumes "mem t = mem s" "total_blocks t = total_blocks s" "pmm_bitmap t = pmm_bitmap s"
    "kernel_directory t = kernel_directory s" "cr3 t = cr3 s" "cr0 t = cr0 s"
  shows "translate t = translate s" "vmem t = vmem s" "window W t = window W s" "free_blocks t = free_blocks s"
    "phys t = phys s" "paging_ok t = paging_ok s"
proof -
  have "translate t a = translate s a" for a using assms by (simp add: translate_def)
  then show tr: "translate t = translate s" by blast
  then have "vmem t a = vmem s a" for a using assms by (simp add: vmem_def split: option.split)
  then show "vmem t = vmem s" by blast
  show ph: "phys t = phys s" using tr by (simp add: phys_def fun_eq_iff)
  have m: "managed t = managed s" "in_use t = in_use s" "bitmap_span t = bitmap_span s" "pmm_ok t = pmm_ok s"
    using assms by (auto simp: managed_def in_use_def bitmap_word_def bitmap_span_def pmm_ok_def)
  then show f: "free_blocks t = free_blocks s" by (simp add: free_blocks_def)
  show "window W t = window W s" using m f tr ph assms by (simp add: window_def)
  show "paging_ok t = paging_ok s" using m f assms by (simp add: paging_ok_def)
qed

lemma view_updates [simp, frame]:
  "vmem (s\<lparr>next_pid := a\<rparr>) = vmem s" "window W (s\<lparr>next_pid := a\<rparr>) = window W s"
  "vmem (s\<lparr>tss := b\<rparr>) = vmem s" "window W (s\<lparr>tss := b\<rparr>) = window W s"
  "vmem (s\<lparr>current_task := c\<rparr>) = vmem s" "window W (s\<lparr>current_task := c\<rparr>) = window W s"
  "vmem (s\<lparr>ready_queue := d\<rparr>) = vmem s" "window W (s\<lparr>ready_queue := d\<rparr>) = window W s"
  by (rule view_cong; simp)+

lemma same_pmm_task:
  fixes s t :: "'a task_scheme"
  assumes "same_pmm s t"
  shows "heap_first t = heap_first s" "current_task t = current_task s" "ready_queue t = ready_queue s"
    "next_pid t = next_pid s" "tss t = tss s" "vmem t = vmem s" "window W t = window W s"
    "translate t = translate s" "free_blocks t = free_blocks s" "phys t = phys s"
proof -
  note b = same_pmm_blocks [OF assms] same_pmm_paging [OF assms]
  from b(14) show "heap_first t = heap_first s" "current_task t = current_task s" "ready_queue t = ready_queue s"
    "next_pid t = next_pid s" "tss t = tss s"
    by (cases s; cases t; simp)+
  show "vmem t = vmem s" "window W t = window W s" "translate t = translate s" "free_blocks t = free_blocks s"
    "phys t = phys s" using b by (intro view_cong; simp)+
qed

text \<open>\<open>keeps W H s t\<close> is \<open>edits\<close> without the fields above the heap, which may change.\<close>

definition keeps :: "u32 set \<Rightarrow> u32 set \<Rightarrow> 'a task_scheme \<Rightarrow> 'a task_scheme \<Rightarrow> bool" where
  "keeps W H s t \<longleftrightarrow> window W t \<and> translate t = translate s \<and> (\<forall>x \<in> W - H. vmem t x = vmem s x) \<and>
     heap_first t = heap_first s \<and> kernel_directory t = kernel_directory s \<and> cr0 t = cr0 s \<and>
     free_blocks t = free_blocks s \<and> (paging_ok s \<longrightarrow> paging_ok t)"

lemma keeps_edits: "edits W H s t \<Longrightarrow> keeps W H s t"
  using edits_fields [of W H s t] by (auto simp: keeps_def edits_def)

lemma keeps_refl: "window W s \<Longrightarrow> keeps W H s s"
  by (simp add: keeps_def)

lemma keeps_window: "keeps W H s t \<Longrightarrow> window W t"
  by (simp add: keeps_def)

lemma keeps_mono: "keeps W H s t \<Longrightarrow> H \<subseteq> K \<Longrightarrow> keeps W K s t"
  by (auto simp: keeps_def)

lemma keeps_trans: "keeps W H s t \<Longrightarrow> keeps W K t u \<Longrightarrow> keeps W (H \<union> K) s u"
proof -
  assume k: "keeps W H s t" "keeps W K t u"
  then have "phys t = phys s" by (simp add: keeps_def phys_def fun_eq_iff)
  with k show ?thesis unfolding keeps_def by (auto intro: agree_trans)
qed

lemma keeps_view:
  assumes "keeps W H s t" "mem u = mem t" "total_blocks u = total_blocks t" "pmm_bitmap u = pmm_bitmap t"
    "kernel_directory u = kernel_directory t" "cr3 u = cr3 t" "cr0 u = cr0 t" "heap_first u = heap_first t"
  shows "keeps W H s u"
  using assms view_cong [of u t] by (simp add: keeps_def)

lemma keeps_load:
  assumes "keeps W H s t" "owns W b" "span b 4 \<inter> H = {}"
  shows "load32 (vmem t) b = load32 (vmem s) b"
  using assms by (auto simp: keeps_def owns_def span4 load32_def)

lemma keeps_put:
  assumes "keeps W H s t" "owns W a" "span a 4 \<subseteq> H"
  shows "keeps W H s (put32 a v t)"
  using keeps_trans [OF assms(1) keeps_edits [OF edits_put [OF keeps_window [OF assms(1)] assms(2,3)]]]
  by simp

lemma keeps_segment:
  assumes e: "keeps W H s t"
  shows "headers xs \<subseteq> W \<Longrightarrow> headers xs \<inter> H = {} \<Longrightarrow> segment (vmem s) p xs q \<Longrightarrow> segment (vmem t) p xs q"
proof (induction xs arbitrary: p)
  case (Cons c xs)
  then have h: "span p 12 \<subseteq> W" "span p 12 \<inter> H = {}" by auto
  note o = owns_header [OF h(1)] and hp = header_parts [of p]
  have "load32 (vmem t) p = load32 (vmem s) p" "load32 (vmem t) (p + 4) = load32 (vmem s) (p + 4)"
    "load32 (vmem t) (p + 8) = load32 (vmem s) (p + 8)"
    by (rule keeps_load [OF e]; use o hp h in blast)+
  then show ?case using Cons by auto
qed simp

section \<open>Blocks between headers\<close>

lemma sep_either:
  assumes "k + 12 \<le> a \<or> a + n \<le> k" "0 < n" "k + 12 \<le> 0x1001000" "a + n \<le> 0x1001000"
  shows "sep n (of_nat a) 12 (of_nat k)"
proof -
  have u: "unat (of_nat k :: u32) = k" "unat (of_nat a :: u32) = a" using assms by (simp_all add: unat_of_nat)
  show ?thesis using assms(1)
  proof
    assume "k + 12 \<le> a"
    then have "sep 12 (of_nat k) n (of_nat a)" using u assms by (intro sep_interval) simp_all
    then show ?thesis by (rule sep_sym)
  next
    assume "a + n \<le> k"
    then show ?thesis using u assms by (intro sep_interval) simp_all
  qed
qed

lemma block_apart:
  assumes fits: "extent (pre @ m # post) + 12 \<le> 4096" and lo: "extent pre + 12 \<le> b" and hi: "b + n \<le> extent (pre @ [m])"
  shows "span (of_nat (0x1000000 + b)) n \<inter>
     headers (laid 0x1000000 (pre @ m # post) @ [rest_chunk (pre @ m # post)]) = {}"
    "span (of_nat (0x1000000 + b)) n \<subseteq> heap_page"
proof -
  let ?ms = "pre @ m # post" and ?a = "0x1000000 + b"
  have "span (of_nat ?a) n \<inter> span (c_addr d) 12 = {}"
    if d: "d \<in> set (laid 0x1000000 ?ms @ [rest_chunk ?ms])" for d
  proof (cases "n = 0")
    case True
    then show ?thesis by (simp add: span_def)
  next
    case False
    have "\<exists>k. c_addr d = of_nat k \<and> (k + 12 \<le> ?a \<or> ?a + n \<le> k) \<and> k + 12 \<le> 0x1001000"
    proof -
      consider "d \<in> set (laid 0x1000000 pre)" | "c_addr d = of_nat (0x1000000 + extent pre)"
        | "d \<in> set (laid (0x1000000 + extent pre + 12 + m) post)" | "c_addr d = of_nat (0x1000000 + extent ?ms)"
        using d by (auto simp: laid_append rest_chunk_def)
      then show ?thesis
      proof cases
        case 1
        from laid_chunk [OF this] obtain k where "c_addr d = of_nat k" "k + 12 \<le> 0x1000000 + extent pre" by blast
        then show ?thesis using fits lo by (intro exI [of _ k]) simp
      next
        case 2
        then show ?thesis using fits lo by (intro exI [of _ "0x1000000 + extent pre"]) simp
      next
        case 3
        from laid_chunk [OF this] obtain k where "c_addr d = of_nat k" "0x1000000 + extent pre + 12 + m \<le> k"
          "k + 12 \<le> 0x1000000 + extent pre + 12 + m + extent post" by blast
        then show ?thesis using fits hi by (intro exI [of _ k]) simp
      next
        case 4
        then show ?thesis using fits hi by (intro exI [of _ "0x1000000 + extent ?ms"]) simp
      qed
    qed
    then obtain k where k: "c_addr d = of_nat k" "k + 12 \<le> ?a \<or> ?a + n \<le> k" "k + 12 \<le> 0x1001000" by blast
    have "?a + n \<le> 0x1001000" using fits hi by simp
    from sep_span [OF sep_either [OF k(2) _ k(3) this]] False k(1) fits hi show ?thesis by auto
  qed
  then show "span (of_nat ?a) n \<inter> headers (laid 0x1000000 ?ms @ [rest_chunk ?ms]) = {}"
    by (auto simp: headers_def)
  show "span (of_nat ?a) n \<subseteq> heap_page" using heap_page_sub [of b n] fits hi by simp
qed

text \<open>Writes into blocks keep the chain.\<close>

lemma heap_holds_keeps:
  assumes h: "heap_holds ms s" and k: "keeps heap_page H s t" and f: "extent ms + 12 \<le> 4096"
    and H: "H \<inter> headers (laid 0x1000000 ms @ [rest_chunk ms]) = {}"
  shows "heap_holds ms t"
proof -
  have "headers (laid 0x1000000 ms @ [rest_chunk ms]) \<subseteq> heap_page"
    using headers_ok_holds [OF f] by (simp add: headers_ok_def)
  from keeps_segment [OF k this] H h k show ?thesis by (auto simp: heap_holds_def keeps_def)
qed

section \<open>Task structures\<close>

text \<open>The words of the \<open>task_t\<close> at \<open>p\<close>: \<open>esp\<close>, \<open>page_dire\<close>, \<open>next\<close>.\<close>

definition t_id :: "'a task_scheme \<Rightarrow> u32 \<Rightarrow> u32" where "t_id s p = load32 (vmem s) p"
definition t_esp :: "'a task_scheme \<Rightarrow> u32 \<Rightarrow> u32" where "t_esp s p = load32 (vmem s) (p + 4)"
definition t_page_dire :: "'a task_scheme \<Rightarrow> u32 \<Rightarrow> u32" where "t_page_dire s p = load32 (vmem s) (p + 8)"
definition t_next :: "'a task_scheme \<Rightarrow> u32 \<Rightarrow> u32" where "t_next s p = load32 (vmem s) (p + 12)"

lemma owns_struct: "span p 16 \<subseteq> W \<Longrightarrow> owns W p \<and> owns W (p + 4) \<and> owns W (p + 8) \<and> owns W (p + 12)"
  using span_sub [of 0 4 16 p] span_sub [of 4 4 16 p] span_sub [of 8 4 16 p] span_sub [of 12 4 16 p]
  by (auto simp: owns_def)

lemma struct_parts: "span p 4 \<subseteq> span p 16" "span (p + 4) 4 \<subseteq> span p 16" "span (p + 8) 4 \<subseteq> span p 16"
    "span (p + 12) 4 \<subseteq> span p 16"
  using owns_struct [of p "span p 16"] by (simp_all add: owns_def)

lemma sep_in_struct [simp]:
  "sep 4 p 4 (p + 12)" "sep 4 (p + 4) 4 (p + 12)" "sep 4 (p + 8) 4 (p + 12)"
  "sep 4 (p + 12) 4 p" "sep 4 (p + 12) 4 (p + 4)" "sep 4 (p + 12) 4 (p + 8)"
  by (simp_all add: sep_def)

lemma keeps_struct:
  assumes k: "keeps W H s t" and p: "span p 16 \<subseteq> W" and d: "span p 16 \<inter> H = {}"
  shows "t_id t p = t_id s p" "t_esp t p = t_esp s p" "t_page_dire t p = t_page_dire s p" "t_next t p = t_next s p"
proof -
  note o = owns_struct [OF p] and h = struct_parts [of p]
  show "t_id t p = t_id s p" "t_esp t p = t_esp s p" "t_page_dire t p = t_page_dire s p" "t_next t p = t_next s p"
    unfolding t_id_def t_esp_def t_page_dire_def t_next_def
    by (rule keeps_load [OF k]; use o h d in blast)+
qed

section \<open>task_init\<close>

text \<open>And nothing changes outside the window either.\<close>

definition inside :: "u32 set \<Rightarrow> u32 set \<Rightarrow> 'a task_scheme \<Rightarrow> 'a task_scheme \<Rightarrow> bool" where
  "inside W H s t \<longleftrightarrow> keeps W H s t \<and> agree (- phys s ` W) (mem s) (mem t)"

lemma inside_edits: "edits W H s t \<Longrightarrow> inside W H s t"
  using keeps_edits [of W H s t] by (simp add: inside_def edits_def)

lemma inside_view:
  assumes "inside W H s t" "mem u = mem t" "total_blocks u = total_blocks t" "pmm_bitmap u = pmm_bitmap t"
    "kernel_directory u = kernel_directory t" "cr3 u = cr3 t" "cr0 u = cr0 t" "heap_first u = heap_first t"
  shows "inside W H s u"
  using assms keeps_view [of W H s t u] by (simp add: inside_def)

lemma inside_trans: "inside W H s t \<Longrightarrow> inside W K t u \<Longrightarrow> inside W (H \<union> K) s u"
proof -
  assume i: "inside W H s t" "inside W K t u"
  then have "phys t = phys s" by (simp add: inside_def keeps_def phys_def fun_eq_iff)
  with i show ?thesis using keeps_trans [of W H s t K u] by (auto simp: inside_def intro: agree_trans)
qed

lemma inside_put:
  assumes "inside W H s t" "owns W a" "span a 4 \<subseteq> H"
  shows "inside W H s (put32 a v t)"
proof -
  have "window W t" using assms(1) by (simp add: inside_def keeps_def)
  from inside_trans [OF assms(1) inside_edits [OF edits_put [OF this assms(2,3)]]] show ?thesis by simp
qed

lemma task_init_first:
  fixes s :: "'a task_scheme"
  assumes h: "heap_holds ms s" and fits: "extent ms + 40 \<le> 4096"
  defines "p \<equiv> of_nat (0x1000000 + extent ms + 12) :: u32"
  shows "\<exists>t. task_init s = Some t \<and> heap_holds (ms @ [16]) t \<and>
     current_task t = p \<and> ready_queue t = p \<and> next_pid t = next_pid s + 1 \<and> ss0 (tss t) = 0x10 \<and>
     t_id t p = next_pid s \<and> t_esp t p = 0 \<and> t_page_dire t p = kernel_directory s \<and> t_next t p = p \<and>
     keeps heap_page (headers (laid 0x1000000 (ms @ [16]) @ [rest_chunk (ms @ [16])]) \<union> span p 16) s t \<and>
     agree (- phys s ` heap_page) (mem s) (mem t)"
proof -
  have "extent ms + 12 + 16 + 12 \<le> 4096" using fits by simp
  from kmalloc_laid [OF h this] obtain s1 where s1: "kmalloc 16 s = Some (p, s1)" "heap_holds (ms @ [16]) s1"
    "edits heap_page (headers (laid 0x1000000 (ms @ [16]) @ [rest_chunk (ms @ [16])])) s s1"
    unfolding p_def by auto
  have bl: "span p 16 \<inter> headers (laid 0x1000000 (ms @ [16]) @ [rest_chunk (ms @ [16])]) = {}" "span p 16 \<subseteq> heap_page"
    using block_apart [of ms 16 "[]" "extent ms + 12" 16] fits by (simp_all add: p_def add.assoc)
  note o = owns_struct [OF bl(2)] and sp = struct_parts [of p]
  have w1: "window heap_page s1" using s1(2) by (simp add: heap_holds_def)
  note L = vm.laws [of heap_page]
  define s2 where "s2 = put32 p (next_pid s) s1"
  define s3 where "s3 = put32 (p + 8) (kernel_directory s) (put32 (p + 4) 0 (s2\<lparr>next_pid := next_pid s + 1\<rparr>))"
  define s4 where "s4 = put32 (p + 12) p (s3\<lparr>tss := (tss s3)\<lparr>ss0 := 0x10\<rparr>\<rparr>)"
  define s5 where "s5 = s4\<lparr>current_task := p, ready_queue := p\<rparr>"
  define t where "t = klog_ok (lit ''Task Management Initialized'') s5"
  have w: "window heap_page s2" "window heap_page s3" "window heap_page s4"
    unfolding s4_def s3_def s2_def using w1 o by (simp_all add: L)
  have same: "same_pmm s5 t" unfolding t_def by (rule frp.ok [OF same_pmm_refl])
  note q = same_pmm_task [OF same]
  have f1: "next_pid s1 = next_pid s" "kernel_directory s1 = kernel_directory s"
    using edits_task_fields(3) [OF s1(3)] edits_fields(2) [OF s1(3)] by simp_all
  have run: "task_init s = Some t"
    unfolding task_init_def sizeof_task_t_def using s1(1) w1 w o f1
    by (simp add: L s2_def s3_def s4_def s5_def t_def)
  have i0: "inside heap_page (span p 16) s1 s1" by (rule inside_edits [OF edits_refl [OF w1]])
  have i2: "inside heap_page (span p 16) s1 s2" unfolding s2_def using o sp by (intro inside_put i0) auto
  have i3: "inside heap_page (span p 16) s1 s3" unfolding s3_def using o sp by (intro inside_put inside_view [OF i2]) auto
  have i4: "inside heap_page (span p 16) s1 s4" unfolding s4_def using o sp by (intro inside_put inside_view [OF i3]) auto
  have it: "inside heap_page (span p 16) s1 t"
    using same_pmm_blocks [OF same] same_pmm_paging [OF same] q
    by (intro inside_view [OF i4]) (simp_all add: s5_def)
  then have kt: "keeps heap_page (span p 16) s1 t" by (simp add: inside_def)
  have ht: "heap_holds (ms @ [16]) t"
    by (rule heap_holds_keeps [OF s1(2) kt]) (use fits bl in auto)
  have val: "t_id t p = next_pid s" "t_esp t p = 0" "t_page_dire t p = kernel_directory s" "t_next t p = p"
    unfolding t_id_def t_esp_def t_page_dire_def t_next_def q s5_def s4_def s3_def s2_def
    using w1 w o by (simp_all add: L s2_def)
  have fld: "current_task t = p" "ready_queue t = p" "next_pid t = next_pid s + 1" "ss0 (tss t) = 0x10"
    by (simp_all add: q s5_def s4_def s3_def)
  show ?thesis using run ht val fld inside_trans [OF inside_edits [OF s1(3)] it] unfolding inside_def by blast
qed

end
