(* ===== verification/Ring.thy ===== *)
theory Ring
  imports Task
begin

text \<open>
  The ring of tasks: the structures that \<open>task_init\<close> and \<open>create_task\<close> (\<open>task.c\<close>) link through the
  field \<open>next\<close>, as a list that begins with the running task. Three operations change it: saving a
  stack pointer in front and moving on (\<open>timer.c\<close>), inserting behind the front (\<open>create_task\<close>), and
  writes elsewhere.
\<close>

section \<open>The ring as a list\<close>

text \<open>A task structure in the window \<open>W\<close>, with the directory of the kernel and its successor.\<close>

definition task_at :: "u32 set \<Rightarrow> 'a task_scheme \<Rightarrow> u32 \<Rightarrow> u32 \<Rightarrow> bool" where
  "task_at W s p nxt \<longleftrightarrow> p \<noteq> 0 \<and> span p 16 \<subseteq> W \<and> t_page_dire s p = kernel_directory s \<and> t_next s p = nxt"

text \<open>The tasks \<open>ps\<close>, each followed by the next one, the last one by \<open>r\<close>.\<close>

primrec chain :: "u32 set \<Rightarrow> 'a task_scheme \<Rightarrow> u32 list \<Rightarrow> u32 \<Rightarrow> bool" where
  "chain W s [] r = True"
| "chain W s (p # ps) r = (task_at W s p (hd (ps @ [r])) \<and> chain W s ps r)"

definition structs_apart :: "u32 list \<Rightarrow> bool" where
  "structs_apart = sorted_wrt (\<lambda>p p'. span p 16 \<inter> span p' 16 = {})"

text \<open>
  The queue \<open>q\<close> of tasks with their stack pointers; the pointer of the running task, in front, is
  not saved yet.
\<close>

definition ring_of :: "u32 set \<Rightarrow> 'a task_scheme \<Rightarrow> (u32 \<times> u32) list \<Rightarrow> bool" where
  "ring_of W s q \<longleftrightarrow> q \<noteq> [] \<and> window W s \<and> current_task s = fst (hd q) \<and>
     chain W s (map fst q) (fst (hd q)) \<and> structs_apart (map fst q) \<and>
     (\<forall>x \<in> set (tl q). t_esp s (fst x) = snd x)"

lemma ring_of_Cons:
  "ring_of W s ((p, x) # ys) \<longleftrightarrow> window W s \<and> current_task s = p \<and> task_at W s p (hd (map fst ys @ [p])) \<and>
     chain W s (map fst ys) p \<and> (\<forall>y \<in> fst ` set ys. span p 16 \<inter> span y 16 = {}) \<and> structs_apart (map fst ys) \<and>
     (\<forall>y \<in> set ys. t_esp s (fst y) = snd y)"
  by (auto simp: ring_of_def structs_apart_def)

lemma structs_apart_rotate:
  "structs_apart (ps @ [p]) \<longleftrightarrow> structs_apart (p # ps)"
  by (auto simp: structs_apart_def sorted_wrt_append)

lemma chain_append: "chain W s (ps @ qs) r \<longleftrightarrow> chain W s ps (hd (qs @ [r])) \<and> chain W s qs r"
  by (induction ps) (auto simp: hd_append)

lemma chain_in: "chain W s ps r \<Longrightarrow> p \<in> set ps \<Longrightarrow> p \<noteq> 0 \<and> span p 16 \<subseteq> W \<and> t_page_dire s p = kernel_directory s"
  by (induction ps) (auto simp: task_at_def)

lemma chain_cong:
  assumes "kernel_directory t = kernel_directory s"
    and "\<And>p. p \<in> set ps \<Longrightarrow> t_page_dire t p = t_page_dire s p \<and> t_next t p = t_next s p"
  shows "chain W t ps r = chain W s ps r"
  using assms(2) by (induction ps) (auto simp: task_at_def assms(1))

lemma ring_cong:
  assumes "vmem t = vmem s" "window W t = window W s" "current_task t = current_task s"
    "kernel_directory t = kernel_directory s"
  shows "ring_of W t q = ring_of W s q"
proof -
  have "t_page_dire t = t_page_dire s" "t_next t = t_next s" "t_esp t = t_esp s"
    by (intro ext, simp add: t_page_dire_def t_next_def t_esp_def assms(1))+
  then show ?thesis using chain_cong [OF assms(4)] assms(2,3) by (simp add: ring_of_def)
qed

lemma ring_fields:
  assumes r: "ring_of W s q" and w: "window W t"
    and f: "current_task t = current_task s" "kernel_directory t = kernel_directory s"
    and eq: "\<And>p. p \<in> fst ` set q \<Longrightarrow>
      t_page_dire t p = t_page_dire s p \<and> t_next t p = t_next s p \<and> t_esp t p = t_esp s p"
  shows "ring_of W t q"
proof -
  have "chain W t (map fst q) (fst (hd q)) = chain W s (map fst q) (fst (hd q))"
    by (rule chain_cong [OF f(2)]) (use eq in simp)
  moreover have "t_esp t (fst x) = t_esp s (fst x)" if "x \<in> set (tl q)" for x
    using eq [of "fst x"] list.set_sel(2) [of q x] that by (cases q) auto
  ultimately show ?thesis using r w f(1) by (simp add: ring_of_def)
qed

text \<open>The structures of a ring.\<close>

lemma ring_in:
  assumes "ring_of W s q"
  shows "q \<noteq> []" "window W s" "current_task s = fst (hd q)" "fst (hd q) \<in> fst ` set q"
    "p \<in> fst ` set q \<Longrightarrow> p \<noteq> 0" "p \<in> fst ` set q \<Longrightarrow> span p 16 \<subseteq> W"
    "p \<in> fst ` set q \<Longrightarrow> t_page_dire s p = kernel_directory s"
  using assms chain_in [of W s "map fst q" "fst (hd q)"] by (auto simp: ring_of_def)

lemma ring_mono: "ring_of V s q \<Longrightarrow> V \<subseteq> W \<Longrightarrow> window W s \<Longrightarrow> ring_of W s q"
proof -
  have "V \<subseteq> W \<Longrightarrow> chain V s ps r \<Longrightarrow> chain W s ps r" for ps r by (induction ps) (auto simp: task_at_def)
  then show "ring_of V s q \<Longrightarrow> V \<subseteq> W \<Longrightarrow> window W s \<Longrightarrow> ring_of W s q" by (simp add: ring_of_def)
qed

section \<open>Writes elsewhere\<close>

lemma task_at_keeps:
  assumes "keeps W H s t" "task_at W s p n" "span p 16 \<inter> H = {}"
  shows "task_at W t p n"
  using assms keeps_struct [OF assms(1) _ assms(3)] by (auto simp: task_at_def keeps_def)

lemma chain_keeps:
  assumes "keeps W H s t" "\<forall>p \<in> set ps. span p 16 \<inter> H = {}"
  shows "chain W s ps r \<Longrightarrow> chain W t ps r"
  using assms(2) by (induction ps) (auto intro: task_at_keeps [OF assms(1)])

lemma saved_keeps:
  assumes "keeps W H s t" "chain W s (map fst ys) r" "\<forall>p \<in> fst ` set ys. span p 16 \<inter> H = {}"
    and "\<forall>y \<in> set ys. t_esp s (fst y) = snd y"
  shows "\<forall>y \<in> set ys. t_esp t (fst y) = snd y"
proof
  fix y assume y: "y \<in> set ys"
  have "span (fst y) 16 \<subseteq> W" using chain_in [OF assms(2)] y by simp
  from keeps_struct(2) [OF assms(1) this] assms(3,4) y show "t_esp t (fst y) = snd y" by simp
qed

lemma ring_keeps:
  assumes "ring_of W s q" "keeps W H s t" "\<forall>p \<in> fst ` set q. span p 16 \<inter> H = {}" "current_task t = current_task s"
  shows "ring_of W t q"
proof -
  obtain p x ys where q: "q = (p, x) # ys" using ring_in(1) [OF assms(1)] by (cases q) auto
  note r = assms(1) [unfolded q ring_of_Cons] and d = assms(3) [unfolded q]
  show ?thesis unfolding q ring_of_Cons
    using r d assms(4) keeps_window [OF assms(2)] task_at_keeps [OF assms(2)] chain_keeps [OF assms(2)]
      saved_keeps [OF assms(2), of ys p] by auto
qed

section \<open>The next task\<close>

lemma keeps_save:
  assumes "window W s" "span p 16 \<subseteq> W"
  shows "keeps W (span (p + 4) 4) s (put32 (p + 4) e s)"
  using assms owns_struct [OF assms(2)] by (intro keeps_put keeps_refl) auto

text \<open>Saving \<open>e\<close> in the front task and moving the front.\<close>

lemma ring_switch:
  fixes s :: "'a task_scheme" and e :: u32
  assumes r: "ring_of W s ((p, x) # ys)"
  defines "c \<equiv> fst (hd (ys @ [(p, e)]))"
  defines "u \<equiv> (put32 (p + 4) e s)\<lparr>current_task := c\<rparr>"
  shows "ring_of W u (ys @ [(p, e)])" "t_next s p = c" "t_esp u c = snd (hd (ys @ [(p, e)]))"
proof -
  note r = r [unfolded ring_of_Cons]
  define v where "v = put32 (p + 4) e s"
  have p: "task_at W s p c" using r by (cases ys) (simp_all add: c_def)
  then show "t_next s p = c" by (simp add: task_at_def)
  have pW: "span p 16 \<subseteq> W" using p by (simp add: task_at_def)
  note o = owns_struct [OF pW] and L = vm.laws [of W]
  have kv: "keeps W (span (p + 4) 4) s v" unfolding v_def using r pW by (intro keeps_save) simp_all
  have tv: "task_at W v p c" "t_esp v p = e"
    using p r o kv by (simp_all add: task_at_def t_page_dire_def t_next_def t_esp_def v_def L)
  have d: "\<forall>y \<in> fst ` set ys. span y 16 \<inter> span (p + 4) 4 = {}" using r struct_parts [of p] by blast
  have ch: "chain W v (map fst ys) p" "\<forall>y \<in> set ys. t_esp v (fst y) = snd y"
    using chain_keeps [OF kv] saved_keeps [OF kv _ d] r d by auto
  have "chain W v (map fst (ys @ [(p, e)])) c" using ch(1) tv(1) by (simp add: chain_append)
  then have cu: "chain W u (map fst (ys @ [(p, e)])) c"
    by (subst chain_cong [of u v]) (simp_all add: u_def v_def t_page_dire_def t_next_def)
  have ev: "\<forall>y \<in> set (ys @ [(p, e)]). t_esp u (fst y) = snd y"
    using ch(2) tv(2) by (simp add: u_def t_esp_def v_def)
  have wu: "window W u" "current_task u = c" using keeps_window [OF kv] by (simp_all add: u_def v_def)
  have st: "structs_apart (map fst (ys @ [(p, e)]))"
    using r by (simp add: structs_apart_rotate) (simp add: structs_apart_def)
  show "ring_of W u (ys @ [(p, e)])" unfolding ring_of_def c_def [symmetric]
    using cu ev wu st list.set_sel(2) [of "ys @ [(p, e)]"] by blast
  have "hd (ys @ [(p, e)]) \<in> set (ys @ [(p, e)])" by (rule hd_in_set) simp
  with ev show "t_esp u c = snd (hd (ys @ [(p, e)]))" unfolding c_def by blast
qed

section \<open>A new task\<close>

lemma ring_insert:
  fixes s u :: "'a task_scheme"
  assumes r: "ring_of W s q" and k: "keeps W H s u"
    and H: "\<forall>p \<in> fst ` set q. span p 16 \<inter> H = {}"
    and n: "span n 16 \<subseteq> W" "n \<noteq> 0" "\<forall>p \<in> fst ` set q. span p 16 \<inter> span n 16 = {}"
    and f: "current_task u = current_task s" "t_page_dire u n = kernel_directory s"
      "t_next u n = t_next s (fst (hd q))" "t_esp u n = x"
  shows "ring_of W (put32 (fst (hd q) + 12) n u) (hd q # (n, x) # tl q)"
proof -
  obtain c e ys where q: "q = (c, e) # ys" using ring_in(1) [OF r] by (cases q) auto
  define t where "t = put32 (c + 12) n u"
  note ru = ring_keeps [OF r k H f(1), unfolded q ring_of_Cons]
  have kd: "kernel_directory u = kernel_directory s" using k by (simp add: keeps_def)
  have c: "span c 16 \<subseteq> W" "task_at W u c (hd (map fst ys @ [c]))" using ru by (simp_all add: task_at_def)
  have tn: "task_at W u n (hd (map fst ys @ [c]))" using n f kd r by (simp add: task_at_def q ring_of_Cons)
  note o = owns_struct [OF c(1)] and L = vm.laws [of W]
  have kt: "keeps W (span (c + 12) 4) u t"
    unfolding t_def using o ru by (intro keeps_put keeps_refl) auto
  have "task_at W t c n"
    using c o ru kt by (simp add: task_at_def t_page_dire_def t_next_def t_def L)
  moreover have d: "span n 16 \<inter> span (c + 12) 4 = {}" "\<forall>p \<in> fst ` set ys. span p 16 \<inter> span (c + 12) 4 = {}"
    using n(3) ru struct_parts(4) [of c] by (force simp: q, blast)
  then have "task_at W t n (hd (map fst ys @ [c]))" "t_esp t n = x"
    using task_at_keeps [OF kt tn] keeps_struct(2) [OF kt n(1)] f(4) by simp_all
  moreover have "chain W t (map fst ys) c" "\<forall>y \<in> set ys. t_esp t (fst y) = snd y"
    using chain_keeps [OF kt] saved_keeps [OF kt _ d(2)] ru d(2) by auto
  moreover have "window W t" "current_task t = c" using keeps_window [OF kt] ru by (simp_all add: t_def)
  ultimately have "ring_of W t ((c, e) # (n, x) # ys)" unfolding ring_of_Cons
    using ru n(3) by (auto simp: q structs_apart_def)
  then show ?thesis by (simp add: t_def q)
qed

end
