(* ===== verification/Timer.thy ===== *)
theory Timer
  imports Ring
begin

text \<open>
  The scheduler (\<open>timer.c\<close>): each timer interrupt saves the stack pointer of the running task
  and moves to the next task of the ring. The function is declared \<open>void\<close> but returns a value,
  which the stub \<open>timer_stub\<close> of \<open>interrupt.asm\<close> takes from EAX as the new stack pointer. It reads
  a field \<open>kernel_stack_top\<close> that \<open>task_t\<close> does not have; what it would hold for a task is the
  argument \<open>kst\<close>.
\<close>

section \<open>The code\<close>

record timer = task +
  tick :: u32

definition timer_handler_main :: "(u32 \<Rightarrow> u32) \<Rightarrow> u32 \<Rightarrow> 'a timer_scheme \<Rightarrow> (u32 \<times> 'a timer_scheme) option" where
  "timer_handler_main kst current_esp s =
     (let s = s\<lparr>tick := tick s + 1\<rparr>;
          s = outb 0x20 0x20 s
      in if current_task s = 0 then Some (current_task s, s)
         else do {
           s \<leftarrow> vstore32 (current_task s + 4) current_esp s;
           nxt \<leftarrow> vload32 (current_task s + 12) s;
           let s = s\<lparr>current_task := nxt\<rparr>;
           sp \<leftarrow> vload32 (current_task s + 4) s;
           if sp = 0 then Some (current_esp, s)
           else do {
             dir \<leftarrow> vload32 (current_task s + 8) s;
             let s = switch_page_directory dir s;
             let s = (if kst (current_task s) \<noteq> 0
                      then s\<lparr>tss := (tss s)\<lparr>esp0 := kst (current_task s)\<rparr>\<rparr> else s);
             sp \<leftarrow> vload32 (current_task s + 4) s;
             Some (sp, s)
           }
         })"

section \<open>Round robin\<close>

text \<open>
  The abstract scheduler: a queue of tasks with their saved stack pointers, the running task in
  front. A tick saves the pointer \<open>e\<close> of the running task and rotates the queue; the new front
  resumes. \<open>ticks\<close> is a run of ticks with the pointers that they resume.
\<close>

definition switch :: "'e \<Rightarrow> ('a \<times> 'e) list \<Rightarrow> ('a \<times> 'e) list" where
  "switch e q = rotate1 ((fst (hd q), e) # tl q)"

primrec ticks :: "('i \<Rightarrow> 's \<Rightarrow> ('e \<times> 's) option) \<Rightarrow> 'i list \<Rightarrow> 's \<Rightarrow> ('e list \<times> 's) option" where
  "ticks f [] s = Some ([], s)"
| "ticks f (e # es) s = do {
     (r, s) \<leftarrow> f e s;
     (rs, s) \<leftarrow> ticks f es s;
     Some (r # rs, s)
   }"

lemma length_switch: "q \<noteq> [] \<Longrightarrow> length (switch e q) = length q"
  by (cases q) (simp_all add: switch_def)

text \<open>What the code must provide: a tick implements \<open>switch\<close> on the queue it represents. It keeps the part \<open>img i\<close> of
  its input.\<close>

locale round_robin =
  fixes tick :: "'i \<Rightarrow> 's \<Rightarrow> ('e \<times> 's) option"
    and rep :: "'s \<Rightarrow> ('a \<times> 'e) list \<Rightarrow> bool"
    and valid :: "'a \<Rightarrow> 'i \<Rightarrow> bool"
    and img :: "'i \<Rightarrow> 'e"
  assumes rep_ne: "rep s q \<Longrightarrow> q \<noteq> []"
    and tick_switch: "rep s q \<Longrightarrow> valid (fst (hd q)) i \<Longrightarrow>
      \<exists>t. tick i s = Some (snd (hd (switch (img i) q)), t) \<and> rep t (switch (img i) q)"
begin

text \<open>Ticks with the pointers \<open>es\<close> move the tasks \<open>xs\<close> to the back.\<close>

lemma run:
  "rep s (xs @ ys) \<Longrightarrow> list_all2 (\<lambda>x e. valid (fst x) e) xs es \<Longrightarrow>
     \<exists>t. ticks tick es s = Some (map snd (take (length es) (tl (xs @ ys @ zip (map fst xs) (map img es)))), t) \<and>
       rep t (ys @ zip (map fst xs) (map img es))"
proof (induction es arbitrary: s xs ys)
  case Nil
  then show ?case by simp
next
  case (Cons e es)
  then obtain x xs' where xs: "xs = x # xs'" by (cases xs) auto
  let ?y = "(fst x, img e)" and ?T = "xs' @ ys @ [(fst x, img e)] @ zip (map fst xs') (map img es)"
  obtain u where u: "tick e s = Some (snd (hd (xs' @ ys @ [?y])), u)" "rep u (xs' @ ys @ [?y])"
    using tick_switch [OF Cons.prems(1), of e] Cons.prems(2) by (auto simp: xs switch_def)
  obtain t where t: "ticks tick es u = Some (map snd (take (length es) (tl ?T)), t)" "rep t (ys @ ?y # zip (map fst xs') (map img es))"
    using Cons.IH [OF u(2)] Cons.prems(2) by (auto simp: xs)
  have "hd (xs' @ ys @ [?y]) = hd ?T" by (simp add: hd_append)
  moreover have "snd (hd ?T) # map snd (take (length es) (tl ?T)) = map snd (take (Suc (length es)) ?T)"
    by (cases ?T) simp_all
  ultimately show ?case using u(1) t by (simp add: xs)
qed

lemma full_round:
  assumes "rep s q" "list_all2 (\<lambda>x e. valid (fst x) e) q es"
  shows "\<exists>t. ticks tick es s = Some (map snd (tl q) @ [img (hd es)], t) \<and> rep t (zip (map fst q) (map img es))"
proof -
  obtain x xs e es' where q: "q = x # xs" "es = e # es'" using assms rep_ne by (cases q; cases es) auto
  moreover have "length xs = length es'" using list_all2_lengthD [OF assms(2)] q by simp
  ultimately show ?thesis using run [of s q "[]" es] assms by simp
qed

end

section \<open>The code rotates the ring\<close>

lemma timer_updates [simp, frame]:
  fixes s :: "'a timer_scheme"
  shows "vmem (s\<lparr>tick := a\<rparr>) = vmem s" "window W (s\<lparr>tick := a\<rparr>) = window W s"
    "vmem (s\<lparr>out_log := b\<rparr>) = vmem s" "window W (s\<lparr>out_log := b\<rparr>) = window W s"
    "vmem (outb p v s) = vmem s" "window W (outb p v s) = window W s"
  by (rule view_cong; simp add: outb_def)+

lemma outb_task_fields [simp, frame]:
  fixes s :: "'a timer_scheme"
  shows "current_task (outb p v s) = current_task s" "kernel_directory (outb p v s) = kernel_directory s"
    "tick (outb p v s) = tick s" "tick (put32 a w s) = tick s" "cr3 (outb p v s) = cr3 s"
  by (simp_all add: outb_def put32_def)

lemma switch_same_directory: "cr3 s = dir \<Longrightarrow> switch_page_directory dir s = s"
  by (simp add: switch_page_directory_def)

lemma switch_front: "q \<noteq> [] \<Longrightarrow> e \<noteq> 0 \<Longrightarrow> \<forall>x \<in> set (tl q). snd x \<noteq> 0 \<Longrightarrow> snd (hd (switch e q)) \<noteq> (0 :: u32)"
  by (cases q; cases "tl q") (auto simp: switch_def)

lemma timer_tick:
  fixes s :: "'a timer_scheme"
  assumes r: "ring_of W s q" and e: "e \<noteq> 0" and nz: "\<forall>x \<in> set (tl q). snd x \<noteq> 0"
  defines "c \<equiv> fst (hd (switch e q))"
  shows "\<exists>t. timer_handler_main kst e s = Some (snd (hd (switch e q)), t) \<and> ring_of W t (switch e q) \<and>
     tick t = tick s + 1 \<and> out_log t = out_log s @ [(0x20, 0x20)] \<and> cr3 t = cr3 s \<and>
     keeps W (span (fst (hd q) + 4) 4) s t \<and> gdt_entries t = gdt_entries s \<and>
     tss t = (if kst c \<noteq> 0 then (tss s)\<lparr>esp0 := kst c\<rparr> else tss s)"
proof -
  obtain p x ys where q: "q = (p, x) # ys" using ring_in(1) [OF r] by (cases q) auto
  have sw: "switch e q = ys @ [(p, e)]" by (simp add: switch_def q)
  define s1 where "s1 = outb 0x20 0x20 (s\<lparr>tick := tick s + 1\<rparr>)"
  have r1: "ring_of W s1 q" unfolding s1_def using r by (subst ring_cong) simp_all
  define v where "v = put32 (p + 4) e s1"
  define u where "u = v\<lparr>current_task := c\<rparr>"
  note R = ring_switch [OF r1 [unfolded q], of e, folded sw c_def, folded v_def, folded u_def]
  have w1: "window W s1" and cur: "current_task s1 = p" and p: "p \<noteq> 0" "span p 16 \<subseteq> W"
    using ring_in [OF r1] by (simp_all add: q)
  have w: "window W v" "window W u" and kv: "keeps W (span (p + 4) 4) s1 v"
    using keeps_save [OF w1 p(2), of e, folded v_def] by (simp_all add: keeps_def u_def)
  note o = owns_struct [OF p(2)] and L = vm.laws [of W] and rc = ring_in [OF R(1), folded c_def]
  have c: "c \<noteq> 0" "span c 16 \<subseteq> W" and cd: "t_page_dire u c = kernel_directory u" using rc by simp_all
  note oc = owns_struct [OF c(2)]
  have nx: "load32 (vmem v) (p + 12) = c" using R(2) w1 o by (simp add: t_next_def v_def L)
  have ld: "load32 (vmem u) (c + 4) = snd (hd (switch e q))" "load32 (vmem u) (c + 8) = kernel_directory u"
    using R(3) cd by (simp_all add: t_esp_def t_page_dire_def)
  have sp0: "snd (hd (switch e q)) \<noteq> 0" using switch_front [OF _ e nz] q by simp
  have cr: "cr3 u = kernel_directory u" using w by (simp add: window_def)
  define t where "t = (if kst c \<noteq> 0 then u\<lparr>tss := (tss u)\<lparr>esp0 := kst c\<rparr>\<rparr> else u)"
  have wt: "window W t" "vmem t = vmem u" by (simp_all add: t_def w)
  have cu: "current_task u = c" "current_task v = p" by (simp_all add: u_def v_def cur)
  have "timer_handler_main kst e s = Some (snd (hd (switch e q)), t)"
    unfolding timer_handler_main_def s1_def [symmetric] Let_def
    using p(1) w1 w o oc nx ld sp0 cur cu cr wt
    by (simp add: L v_def [symmetric] u_def [symmetric] switch_same_directory t_def)
  moreover have "ring_of W t (switch e q)" using R(1) by (subst ring_cong [of t u]) (simp_all add: t_def)
  moreover have "keeps W (span (p + 4) 4) s t"
  proof -
    have "keeps W {} s s1" using ring_in(2) [OF r] by (intro keeps_view [OF keeps_refl]) (simp_all add: s1_def outb_def)
    from keeps_trans [OF this kv] have "keeps W (span (p + 4) 4) s v" by simp
    then show ?thesis by (rule keeps_view) (simp_all add: t_def u_def)
  qed
  moreover have "tick t = tick s + 1" "out_log t = out_log s @ [(0x20, 0x20)]" "cr3 t = cr3 s"
    "gdt_entries t = gdt_entries s" "tss t = (if kst c \<noteq> 0 then (tss s)\<lparr>esp0 := kst c\<rparr> else tss s)"
    by (simp_all add: t_def u_def v_def s1_def) (simp_all add: outb_def put32_def)
  ultimately show ?thesis by (simp add: q)
qed

text \<open>The pointers that the tick needs are not null.\<close>

interpretation rr: round_robin "timer_handler_main kst" "\<lambda>s q. ring_of W s q \<and> (\<forall>x \<in> set (tl q). snd x \<noteq> 0)"
  "\<lambda>_ e. e \<noteq> 0" "\<lambda>e. e" for kst W
proof unfold_locales
  fix s :: "'b timer_scheme" and q :: "(u32 \<times> u32) list"
  show "ring_of W s q \<and> (\<forall>x \<in> set (tl q). snd x \<noteq> 0) \<Longrightarrow> q \<noteq> []" by (simp add: ring_of_def)
  fix e :: u32
  assume r: "ring_of W s q \<and> (\<forall>x \<in> set (tl q). snd x \<noteq> 0)" and e: "e \<noteq> 0"
  have "\<forall>x \<in> set (tl (switch e q)). snd x \<noteq> 0"
    using r e ring_in(1) [of W s q] by (cases q; cases "tl q") (auto simp: switch_def)
  with timer_tick [of W s q e kst] r e
  show "\<exists>t. timer_handler_main kst e s = Some (snd (hd (switch e q)), t) \<and> ring_of W t (switch e q) \<and>
      (\<forall>x \<in> set (tl (switch e q)). snd x \<noteq> 0)" by blast
qed

lemma task_init_ring:
  fixes s :: "'a task_scheme"
  assumes h: "heap_holds ms s" and fits: "extent ms + 40 \<le> 4096"
  shows "\<exists>t p. task_init s = Some t \<and> ring_of heap_page t [(p, 0)] \<and> t_id t p = next_pid s \<and> t_esp t p = 0 \<and>
     ready_queue t = p \<and> next_pid t = next_pid s + 1 \<and> ss0 (tss t) = 0x10 \<and> heap_holds (ms @ [16]) t \<and>
     p = of_nat (0x1000000 + extent ms + 12) \<and> translate t = translate s \<and> cr0 t = cr0 s \<and>
     kernel_directory t = kernel_directory s \<and> (paging_ok s \<longrightarrow> paging_ok t) \<and>
     agree (- phys s ` heap_page) (mem s) (mem t)"
proof -
  define p where "p = (of_nat (0x1000000 + extent ms + 12) :: u32)"
  obtain t where t: "task_init s = Some t" "heap_holds (ms @ [16]) t" "current_task t = p" "ready_queue t = p"
    "next_pid t = next_pid s + 1" "ss0 (tss t) = 0x10" "t_id t p = next_pid s" "t_esp t p = 0"
    "t_page_dire t p = kernel_directory s" "t_next t p = p"
    "keeps heap_page (headers (laid 0x1000000 (ms @ [16]) @ [rest_chunk (ms @ [16])]) \<union> span p 16) s t" "agree (- phys s ` heap_page) (mem s) (mem t)"
    using task_init_first [OF h fits, folded p_def] by blast
  have kd: "kernel_directory t = kernel_directory s" "translate t = translate s" "cr0 t = cr0 s" "paging_ok s \<longrightarrow> paging_ok t"
    using t(11) by (simp_all add: keeps_def)
  have "span p 16 \<subseteq> heap_page"
    using block_apart(2) [of ms 16 "[]" "extent ms + 12" 16] fits by (simp add: p_def add.assoc)
  moreover have "unat p = 0x1000000 + extent ms + 12"
    unfolding p_def using fits by (simp add: unat_of_nat del: of_nat_add of_nat_numeral)
  then have "p \<noteq> 0" by auto
  ultimately have "ring_of heap_page t [(p, 0)]"
    using t(3,9,10) kd keeps_window [OF t(11)] by (simp add: ring_of_Cons task_at_def structs_apart_def)
  with t kd show ?thesis unfolding p_def by blast
qed

section \<open>A machine for the demonstrations\<close>

text \<open>32 MB of memory, the bitmap at 2 MB, and of the blocks only 5, 9 and 12 free. The heap page is
  mapped onto itself by hand, as \<open>create_task\<close> needs it.\<close>

definition blank :: timer where
  "blank = \<lparr>mem = (\<lambda>_. 0), out_log = [], vga_buff = (\<lambda>_. 0), vga_index = 0, vga_limit = 0,
     total_blocks = 0, used_blocks = 0, pmm_bitmap = 0, kernel_directory = 0, cr3 = 0, cr0 = 0x11,
     heap_first = 0, gdt_entries = replicate 6 (packed 0 0 0 0),
     gdt_pointer = \<lparr>ptr_limit = 0, ptr_base = 0\<rparr>, tss = zero_tss,
     gdtr = \<lparr>ptr_limit = 0, ptr_base = 0\<rparr>,
     segments = \<lparr>seg_cs = 0, seg_ds = 0, seg_es = 0, seg_fs = 0, seg_gs = 0, seg_ss = 0\<rparr>, task_register = 0,
     idt_table = replicate 256 (gate 0 0 0), idtp = \<lparr>table_limit = 0, table_address = 0\<rparr>,
     idtr = \<lparr>table_limit = 0, table_address = 0\<rparr>, current_task = 0, ready_queue = 0, next_pid = 1,
     tick = 0\<rparr>"

definition ram32 :: timer where
  "ram32 = pmm_free_memory 0xC000 (pmm_free_memory 0x9000 (pmm_free_memory 0x5000 (pmm_init 0x200000 0x2000000 blank)))"

lemma frame_apart_bitmap:
  assumes "b < 2 ^ 20" "b \<noteq> 0x200" "bitmap_span s \<subseteq> span 0x200000 4096"
  shows "span (of_nat b * BLOCK_SIZE) 4096 \<inter> bitmap_span s = {}"
proof -
  have u: "unat (of_nat b * BLOCK_SIZE) = 4096 * b" using block_address(1) [OF assms(1)] by (simp add: mult.commute)
  then have "of_nat b * BLOCK_SIZE \<noteq> 0x200000" using assms(2) by auto
  moreover have "aligned (of_nat b * BLOCK_SIZE)" "aligned 0x200000" using u by (simp_all add: aligned_def)
  ultimately have "sep 4096 (of_nat b * BLOCK_SIZE) 4096 0x200000" by (intro frames_sep)
  from sep_span [OF this] assms(3) show ?thesis by auto
qed

lemma ram32_facts:
  "pmm_ok ram32" "free_blocks ram32 = {5, 9, 12}" "frames_apart ram32" "bitmap_span ram32 \<subseteq> span 0x200000 4096"
proof -
  define i where "i = pmm_init 0x200000 0x2000000 blank"
  have t: "unat (total_blocks i) = 8192" by (simp add: i_def BLOCK_SIZE_def)
  have m: "managed i = 8192" by (simp add: managed_def t)
  have e: "free_blocks i = {}" using init_in_use [of _ "0x200000" "0x2000000" blank] by (auto simp: free_blocks_def i_def)
  have ok: "pmm_ok i" by (simp add: i_def)
  then show "pmm_ok ram32" by (simp add: ram32_def i_def [symmetric])
  show fb: "free_blocks ram32 = {5, 9, 12}"
    unfolding ram32_def i_def [symmetric] using ok by (auto simp: free_blocks_free m e)
  have bs: "bitmap_span ram32 = bitmap_span i" by (simp add: ram32_def i_def)
  have "bitmap_span i = span 0x200000 1024" by (auto simp: bitmap_span_def t span_iff) (simp_all add: i_def)
  also have "\<dots> \<subseteq> span 0x200000 4096" using span_sub [of 0 1024 4096 "0x200000"] by simp
  finally show b: "bitmap_span ram32 \<subseteq> span 0x200000 4096" by (simp add: bs)
  then show "frames_apart ram32" unfolding frames_apart_def fb
    using frame_apart_bitmap [of 5 ram32] frame_apart_bitmap [of 9 ram32] frame_apart_bitmap [of 12 ram32] by simp
qed

lemma ram32_paged:
  "\<exists>s. paging_init ram32 = Returns s \<and> paging_ok s \<and> cr3 s = kernel_directory s \<and> bit (cr0 s) 31 \<and>
     kernel_directory s = 0x5000 \<and> \<not> present (pde (mem s) (kernel_directory s) 4) \<and> free_blocks s = {12} \<and> next_apart s \<and>
     bitmap_span s \<subseteq> span 0x200000 4096 \<and> (\<forall>a. translate s a = (if unat a < 0x400000 then Some a else None)) \<and>
     0x1000000 \<notin> frames (mem s) (kernel_directory s)"
proof -
  have "2 \<le> card (free_blocks ram32)" by (simp add: ram32_facts)
  from paging_init_returns [OF ram32_facts(1) this frames_apart_low [OF ram32_facts(3)]]
  obtain s where s: "paging_init ram32 = Returns s" "paging_ok s" "cr3 s = kernel_directory s" "bit (cr0 s) 31"
    "\<forall>i < 1024. present (pde (mem s) (cr3 s) i) \<longleftrightarrow> i = 0"
    "free_blocks s = free_blocks ram32 - {Min (free_blocks ram32), Min (free_blocks ram32 - {Min (free_blocks ram32)})}"
    "bitmap_span s = bitmap_span ram32" "kernel_directory s = of_nat (Min (free_blocks ram32)) * BLOCK_SIZE"
    "\<forall>va. walk (mem s) (cr3 s) va = (if unat va < 0x400000 then Some va else None)"
    "frames (mem s) (cr3 s) = {of_nat (Min (free_blocks ram32)) * BLOCK_SIZE,
       of_nat (Min (free_blocks ram32 - {Min (free_blocks ram32)})) * BLOCK_SIZE}"
    by (elim exE conjE) (rule that)
  have fb: "free_blocks s = {12}" using s(6) by (simp add: ram32_facts insert_Diff_if)
  have kd: "kernel_directory s = 0x5000" using s(8) by (simp add: ram32_facts BLOCK_SIZE_def)
  have "frames_apart s" using ram32_facts(3) unfolding frames_apart_def fb s(7) ram32_facts(2) by simp
  then have "next_apart s" by (intro low_apart_next [of 1] frames_apart_low) (simp_all add: fb)
  moreover have "\<forall>a. translate s a = (if unat a < 0x400000 then Some a else None)"
    using s(3,4,9) by (simp add: translate_def)
  moreover have "0x1000000 \<notin> frames (mem s) (kernel_directory s)"
    using s(3,10) by (simp add: ram32_facts BLOCK_SIZE_def insert_Diff_if)
  ultimately show ?thesis using s fb kd ram32_facts(4) by auto
qed

lemma ram32_boot:
  "\<exists>s u (t :: timer) x. paging_init ram32 = Returns s \<and> map_page 0x1000000 0x1000000 s = Some u \<and> fresh_heap t \<and> task_init t = Some x \<and>
     heap_holds [16] x \<and> ring_of heap_page x [(0x100000C, 0)] \<and> bit (cr0 x) 31 \<and>
     (\<forall>a \<in> heap_page. translate x a = Some a) \<and> paging_ok x \<and> sees_tables 0x1000000 x"
proof -
  obtain s where s: "paging_init ram32 = Returns s" "paging_ok s" "cr3 s = kernel_directory s" "bit (cr0 s) 31"
    "kernel_directory s = 0x5000" "\<not> present (pde (mem s) (kernel_directory s) (dix 0x1000000))" "free_blocks s = {12}"
    "next_apart s" "bitmap_span s \<subseteq> span 0x200000 4096"
    "\<forall>a. translate s a = (if unat a < 0x400000 then Some a else None)" "0x1000000 \<notin> frames (mem s) (kernel_directory s)"
    using ram32_paged by auto
  have low: "translate s a = Some a" if "unat a < 0x400000" for a using s(10) that by simp
  have self: "self_mapped s (span 0x5000 4096)" "self_mapped s (span (of_nat 12 * BLOCK_SIZE) 4096)"
    using low_page_self [OF low, of "0x5000"] low_block_self [OF low, of 12] by simp_all
  have see: "sees_tables 0x1000000 s" using s(5-8) self by (simp add: sees_tables_def Let_def)
  have ne: "free_blocks s \<noteq> {}" and pok: "pmm_ok s" using s(2,7) by (simp_all add: paging_ok_def)
  have n: "fst (pmm_alloc_block s) = 0xC000" using alloc_some(1) [OF pok ne] s(7) by (simp add: BLOCK_SIZE_def)
  have bm: "span 0x1000000 4096 \<inter> bitmap_span s = {}"
    using frame_apart_bitmap [of 4096 s] s(9) by (simp add: BLOCK_SIZE_def)
  define u where "u = remapped 0x1000000 0x1000000 s"
  have mp: "map_page 0x1000000 0x1000000 s = Some u" unfolding u_def by (rule map_page_remaps [OF s(2,3) see])
  have "(0x1000000 :: u32) \<noteq> fst (pmm_alloc_block s)" using n by simp
  note m = remapped_new_window [OF s(2,4,3,6) ne s(8) heap_aligned heap_aligned s(11) this bm, folded u_def]
    and p = remapped_absent [OF s(2,6) ne s(8), where pa = "0x1000000", folded u_def]
  have id: "\<forall>a \<in> heap_page. translate u a = Some a" using m(2) by (auto simp: span_def)
  have uf: "cr0 u = cr0 s" "cr3 u = cr3 s" by (simp_all add: u_def)
  define v where "v = u\<lparr>heap_first := 0x1000000\<rparr>"
  note vu = heap_first_view [where u = u and p = "0x1000000", folded v_def]
  have w: "window heap_page v" using m(1) vu(4) by simp
  note h = header_written [OF w vu(8)]
  define t where "t = put32 (0x1000000 + 8) 0 (put32 (0x1000000 + 4) 1 (put32 0x1000000 4084 v))"
  note h = h [folded t_def]
  have room: "extent [] + 40 \<le> 4096" by simp
  from task_init_ring [OF h(2) [unfolded fresh_holds] room] obtain x where
    x: "task_init t = Some x" "ring_of heap_page x [(0x100000C, 0)]" "heap_holds [16] x"
      "translate x = translate t" "cr0 x = cr0 t" "paging_ok t \<longrightarrow> paging_ok x" "kernel_directory x = kernel_directory t"
      "agree (- phys t ` heap_page) (mem t) (mem x)" by auto
  have wt: "window heap_page t" using h(2) by (simp add: fresh_heap_def)
  have tr: "translate t a = translate u a" for a using h(3) vu(1) by (simp add: edits_def)
  have on: "bit (cr0 t) 31" using edits_fields [OF h(3)] vu(6) uf s(4) by simp
  have "translate u a = Some a" if "translate s a = Some a" for a
    using m(3) [of a] id that by (cases "a \<in> heap_page") simp_all
  then have keep: "self_mapped s A \<Longrightarrow> self_mapped t A" for A by (simp add: self_mapped_def tr)
  have f4: "frame_of (pde (mem t) (kernel_directory t) (dix 0x1000000)) = of_nat 12 * BLOCK_SIZE"
    using edits_pde [OF h(3) w index_bounds(1), of "0x1000000"] edits_fields [OF h(3)] p(2,8) vu(3,5) n
    by (simp add: BLOCK_SIZE_def)
  have "sees_tables 0x1000000 t"
    using keep self f4 heap_slot_present [OF wt on] edits_fields(2) [OF h(3)] vu(5) p(2) s(5)
    by (simp add: sees_tables_def Let_def)
  then have "sees_tables 0x1000000 x"
    using sees_tables_agree [OF wt x(8,7) _ heap_slot_present [OF wt on]] x(4) by simp
  moreover have "paging_ok x" using x(6) edits_paging_ok [OF h(3)] vu(2) p(1) by simp
  moreover have "\<forall>a \<in> heap_page. translate x a = Some a" using x(4) tr id by simp
  moreover have "bit (cr0 x) 31" using x(5) on by simp
  ultimately show ?thesis using s(1) mp h(2) x(1-3) by blast
qed

section \<open>Properties\<close>

text \<open>On a heap with room, \<open>task_init\<close> creates one task that holds the next process number and
  the kernel's page directory, makes it the running task, and closes the ring on it; the ring 0
  stack segment of the task state is set.\<close>

theorem task_init_spec:
  fixes s :: "'a task_scheme"
  assumes "heap_holds ms s" and "extent ms + 40 \<le> 4096"
  shows "\<exists>t p. task_init s = Some t \<and> ring_of heap_page t [(p, 0)] \<and> t_id t p = next_pid s \<and> t_esp t p = 0 \<and>
     ready_queue t = p \<and> next_pid t = next_pid s + 1 \<and> ss0 (tss t) = 0x10 \<and> heap_holds (ms @ [16]) t"
  using task_init_ring [OF assms] by blast

theorem task_init_spec_witness:
  "\<exists>(s :: timer) t p. fresh_heap s \<and> task_init s = Some t \<and> ring_of heap_page t [(p, 0)]"
proof -
  obtain s :: timer where s: "fresh_heap s" using ram32_boot by blast
  have "extent [] + 40 \<le> 4096" by simp
  from task_init_spec [OF s [unfolded fresh_holds] this] s show ?thesis by blast
qed

text \<open>One timer interrupt implements one step of round robin: on a ring of tasks whose saved
  stack pointers are not 0, it acknowledges the interrupt, saves the interrupted stack pointer in
  the running task, makes the next task of the ring the running one and returns the stack pointer
  saved for it; the other tasks are untouched and the address space stays the same.\<close>

theorem timer_refines_rotation:
  fixes s :: "'a timer_scheme"
  assumes "ring_of W s q" and "e \<noteq> 0" and "\<forall>x \<in> set (tl q). snd x \<noteq> 0"
  shows "\<exists>t. timer_handler_main kst e s = Some (snd (hd (switch e q)), t) \<and> ring_of W t (switch e q) \<and>
     tick t = tick s + 1 \<and> out_log t = out_log s @ [(0x20, 0x20)] \<and> cr3 t = cr3 s"
  using timer_tick [OF assms, of kst] by blast

theorem timer_refines_rotation_witness:
  "\<exists>(s :: timer) t. ring_of heap_page s [(0x100000C, 0)] \<and> timer_handler_main (\<lambda>_. 0) 0x90000 s = Some (0x90000, t) \<and>
     ring_of heap_page t [(0x100000C, 0x90000)]"
proof -
  obtain s :: timer where s: "ring_of heap_page s [(0x100000C, 0)]" using ram32_boot by blast
  have "(0x90000 :: u32) \<noteq> 0" "\<forall>x \<in> set (tl [(0x100000C :: u32, 0 :: u32)]). snd x \<noteq> 0" by simp_all
  from timer_refines_rotation [OF s this, of "\<lambda>_. 0"] s show ?thesis by (auto simp: switch_def)
qed

text \<open>Over as many timer interrupts as there are tasks, every other task is resumed exactly once,
  in ring order and with the stack pointer saved for it, and then the first task again, with the
  stack pointer it was interrupted with; the ring then holds the pointers of this round.\<close>

theorem timer_full_round:
  fixes s :: "'a timer_scheme"
  assumes "ring_of W s q" and "length es = length q" and "\<forall>e \<in> set es. e \<noteq> 0"
    and "\<forall>x \<in> set (tl q). snd x \<noteq> 0"
  shows "\<exists>rs t. ticks (timer_handler_main kst) es s = Some (rs, t) \<and> ring_of W t (zip (map fst q) es) \<and>
     rs = map snd (tl q) @ [hd es]"
proof -
  have "list_all2 (\<lambda>x e. e \<noteq> 0) q es" using assms(2,3) by (auto simp: list_all2_conv_all_nth)
  with rr.full_round [of W s q es kst] assms(1,4) show ?thesis by auto
qed

theorem timer_full_round_witness:
  "\<exists>(s :: timer) t. ticks (timer_handler_main (\<lambda>_. 0)) [0x90000] s = Some ([0x90000], t)"
proof -
  obtain s :: timer where s: "ring_of heap_page s [(0x100000C, 0)]" using ram32_boot by blast
  have "length [0x90000] = length [(0x100000C, 0)]" "\<forall>e \<in> set [0x90000 :: u32]. e \<noteq> 0"
    "\<forall>x \<in> set (tl [(0x100000C :: u32, 0 :: u32)]). snd x \<noteq> 0" by simp_all
  from timer_full_round [OF s this, of "\<lambda>_. 0"] show ?thesis by auto
qed

end
