(* ===== verification/Cpu.thy ===== *)
theory Cpu
  imports Task
begin

text \<open>
  The processor around an interrupt (\<open>interrupt.asm\<close>): what it pushes when it enters a gate, the
  instructions \<open>pusha\<close>, \<open>popa\<close> and \<open>iret\<close> that the stubs are made of, and \<open>jump_to_usermode\<close>. A stub
  leaves the data segment register DS alone; \<open>iret\<close> does not.
\<close>

section \<open>Instructions\<close>

record cpu =
  r_edi :: u32
  r_esi :: u32
  r_ebp :: u32
  r_ebx :: u32
  r_edx :: u32
  r_ecx :: u32
  r_eax :: u32
  r_eip :: u32
  r_eflags :: u32
  r_esp :: u32
  r_cs :: u16
  r_ss :: u16

primrec pushes :: "u32 list \<Rightarrow> u32 \<Rightarrow> 'a task_scheme \<Rightarrow> (u32 \<times> 'a task_scheme) option" where
  "pushes [] sp s = Some (sp, s)"
| "pushes (v # vs) sp s = do {
     (sp, s) \<leftarrow> push v sp s;
     pushes vs sp s
   }"

definition push_all :: "u32 list \<Rightarrow> cpu \<Rightarrow> 'a task_scheme \<Rightarrow> (cpu \<times> 'a task_scheme) option" where
  "push_all vs c s = do {
     (sp, s) \<leftarrow> pushes vs (r_esp c) s;
     Some (c\<lparr>r_esp := sp\<rparr>, s)
   }"

text \<open>
  Entering an interrupt gate of ring 0: from an outer ring the processor first takes the stack of
  the task state and pushes the old one. It pushes flags, code segment and instruction pointer,
  and turns interrupts off.
\<close>

definition deliver :: "cpu \<Rightarrow> 'a task_scheme \<Rightarrow> (cpu \<times> 'a task_scheme) option" where
  "deliver c s = do {
     (c', s) \<leftarrow> (if sel_rpl (r_cs c) = 0 then Some (c, s)
       else push_all [ucast (r_ss c), r_esp c] (c\<lparr>r_esp := esp0 (tss s), r_ss := ucast (ss0 (tss s))\<rparr>) s);
     (c', s) \<leftarrow> push_all [r_eflags c, ucast (r_cs c), r_eip c] c' s;
     Some (c'\<lparr>r_cs := 0x08, r_eflags := r_eflags c AND NOT 0x200\<rparr>, s)
   }"

definition pusha :: "cpu \<Rightarrow> 'a task_scheme \<Rightarrow> (cpu \<times> 'a task_scheme) option" where
  "pusha c s = push_all [r_eax c, r_ecx c, r_edx c, r_ebx c, r_esp c, r_ebp c, r_esi c, r_edi c] c s"

text \<open>The fifth word, the stack pointer, is skipped.\<close>

definition popa :: "cpu \<Rightarrow> 'a task_scheme \<Rightarrow> cpu option" where
  "popa c s = do {
     edi \<leftarrow> vload32 (r_esp c) s;
     esi \<leftarrow> vload32 (r_esp c + 4) s;
     ebp \<leftarrow> vload32 (r_esp c + 8) s;
     ebx \<leftarrow> vload32 (r_esp c + 16) s;
     edx \<leftarrow> vload32 (r_esp c + 20) s;
     ecx \<leftarrow> vload32 (r_esp c + 24) s;
     eax \<leftarrow> vload32 (r_esp c + 28) s;
     Some (c\<lparr>r_edi := edi, r_esi := esi, r_ebp := ebp, r_ebx := ebx, r_edx := edx, r_ecx := ecx, r_eax := eax,
       r_esp := r_esp c + 32\<rparr>)
   }"

text \<open>A return to an outer ring also takes back the stack.\<close>

definition iret :: "cpu \<Rightarrow> 'a task_scheme \<Rightarrow> cpu option" where
  "iret c s = do {
     eip \<leftarrow> vload32 (r_esp c) s;
     cs \<leftarrow> vload32 (r_esp c + 4) s;
     eflags \<leftarrow> vload32 (r_esp c + 8) s;
     let c' = c\<lparr>r_eip := eip, r_cs := ucast cs, r_eflags := eflags\<rparr>;
     if sel_rpl (ucast cs) = 0 then Some (c'\<lparr>r_esp := r_esp c + 12\<rparr>)
     else do {
       esp \<leftarrow> vload32 (r_esp c + 12) s;
       ss \<leftarrow> vload32 (r_esp c + 16) s;
       Some (c'\<lparr>r_esp := esp, r_ss := ucast ss\<rparr>)
     }
   }"

text \<open>
  On the return to an outer ring the processor clears a data segment register whose descriptor is
  of an inner ring; a null selector faults at the next access through it.
\<close>

definition ds_after :: "cpu \<Rightarrow> u16 \<Rightarrow> 'a gdt_scheme \<Rightarrow> u16" where
  "ds_after c ds s =
     (if sel_index ds < length (gdt_entries s) \<and> ucast (sel_rpl (r_cs c)) \<le> seg_dpl (gdt_entries s ! sel_index ds)
      then ds else 0)"

definition null_selector :: "u16 \<Rightarrow> bool" where
  "null_selector w \<longleftrightarrow> sel_index w = 0 \<and> \<not> sel_ldt w"

text \<open>\<open>jump_to_usermode(entry_point, user_esp)\<close>: the arguments lie behind the return address; \<open>mov ax\<close>
  leaves the upper half of EAX.\<close>

definition jump_to_usermode :: "cpu \<Rightarrow> 'a task_scheme \<Rightarrow> (cpu \<times> u16 \<times> 'a task_scheme) option" where
  "jump_to_usermode c s = do {
     (c, s) \<leftarrow> push_all [r_ebp c] c s;
     let c = c\<lparr>r_ebp := r_esp c\<rparr>;
     ebx \<leftarrow> vload32 (r_ebp c + 8) s;
     let c = c\<lparr>r_ebx := ebx\<rparr>;
     ecx \<leftarrow> vload32 (r_ebp c + 12) s;
     let c = c\<lparr>r_ecx := ecx\<rparr>;
     let c = c\<lparr>r_eax := (r_eax c AND NOT 0xFFFF) OR 0x23\<rparr>;
     (c, s) \<leftarrow> push_all [0x23, r_ecx c, 0x202, 0x1B, r_ebx c] c s;
     c \<leftarrow> iret c s;
     Some (c, ds_after c 0x23 s, s)
   }"

section \<open>Pushing\<close>

lemma pushes_append: "pushes (vs @ ws) sp s = do { (sp, s) \<leftarrow> pushes vs sp s; pushes ws sp s }"
  by (induction vs arbitrary: sp s) (auto split: bind_splits)

lemma sep_top: "N \<le> 4096 \<Longrightarrow> span (b + of_nat N) 4 \<inter> span b N = {}"
proof (cases "N = 0")
  case False
  assume N: "N \<le> 4096"
  have "unat (- of_nat N :: u32) = 2 ^ 32 - N"
    using unat_neg [of "of_nat N"] False N by (simp add: unat_of_nat word_unat_eq_iff)
  then have "sep N b 4 (b + of_nat N)" using N by (simp add: sep_def unat_of_nat)
  from sep_span [OF this] N show ?thesis by auto
qed (simp add: span_def)

lemma pushes_effect:
  "window W s \<Longrightarrow> span b N \<subseteq> W \<Longrightarrow> N \<le> 4096 \<Longrightarrow> 4 * length vs \<le> N \<Longrightarrow>
     \<exists>t. pushes vs (b + of_nat N) s = Some (b + of_nat (N - 4 * length vs), t) \<and> edits W (span b N) s t \<and>
       (\<forall>j < length vs. load32 (vmem t) (b + of_nat (N - 4 * Suc j)) = vs ! j)"
proof (induction vs arbitrary: N s)
  case Nil
  then show ?case by (simp add: edits_refl)
next
  case (Cons v vs)
  define M where "M = N - 4"
  have N: "N = M + 4" and M: "M \<le> 4096" using Cons.prems by (simp_all add: M_def)
  let ?a = "b + of_nat M"
  have sp: "span ?a 4 \<subseteq> span b N" "span b M \<subseteq> span b N"
    using span_sub [of M 4 N b] span_sub [of 0 M N b] N by simp_all
  have o: "owns W ?a" using sp Cons.prems(2) by (auto simp: owns_def)
  have a: "b + of_nat N - 4 = ?a" by (simp add: N)
  define u where "u = put32 ?a v s"
  note L = vm.laws [of W]
  have eu: "edits W (span b N) s u" unfolding u_def using Cons.prems(1) o sp by (intro edits_put) auto
  have wu: "window W u" by (rule edits_window [OF eu])
  have bM: "span b M \<subseteq> W" using sp Cons.prems(2) by blast
  from Cons.IH [OF wu bM M] Cons.prems(4) N obtain t where
    t: "pushes vs ?a u = Some (b + of_nat (M - 4 * length vs), t)" "edits W (span b M) u t"
      "\<forall>j < length vs. load32 (vmem t) (b + of_nat (M - 4 * Suc j)) = vs ! j" by auto
  have "pushes (v # vs) (b + of_nat N) s = Some (b + of_nat (N - 4 * length (v # vs)), t)"
    using Cons.prems(1) o t(1) N by (simp add: push_def a L u_def [symmetric] Let_def)
  moreover have "edits W (span b N) s t"
    by (rule edits_trans [OF eu edits_mono [OF t(2) sp(2)]])
  moreover have "load32 (vmem t) (b + of_nat (N - 4 * Suc j)) = (v # vs) ! j" if "j < length (v # vs)" for j
  proof (cases j)
    case 0
    have "load32 (vmem t) ?a = load32 (vmem u) ?a"
      by (rule edits_load [OF t(2) o sep_top [OF M]])
    also have "\<dots> = v" using Cons.prems(1) o by (simp add: u_def L)
    finally show ?thesis using 0 N by simp
  next
    case (Suc i)
    then have "N - 4 * Suc j = M - 4 * Suc i" using N by simp
    then show ?thesis using t(3) that Suc by simp
  qed
  ultimately show ?case by blast
qed

text \<open>The words from the new stack pointer up are the pushed ones, the last one first.\<close>

definition words_at :: "memory \<Rightarrow> u32 \<Rightarrow> u32 list \<Rightarrow> bool" where
  "words_at m e vs \<longleftrightarrow> (\<forall>i < length vs. load32 m (e + of_nat (4 * i)) = vs ! i)"

lemma pushes_words:
  assumes "window W s" "span (tp - of_nat n) n \<subseteq> W" "n = 4 * length vs" "n \<le> 4096"
  shows "\<exists>t. pushes vs tp s = Some (tp - of_nat n, t) \<and> edits W (span (tp - of_nat n) n) s t \<and>
     words_at (vmem t) (tp - of_nat n) (rev vs)"
proof -
  have tp: "tp - of_nat n + of_nat n = tp" by simp
  from pushes_effect [OF assms(1,2,4), of vs] assms(3) obtain t where
    t: "pushes vs tp s = Some (tp - of_nat n, t)" "edits W (span (tp - of_nat n) n) s t"
      "\<forall>j < length vs. load32 (vmem t) (tp - of_nat n + of_nat (n - 4 * Suc j)) = vs ! j" unfolding tp by auto
  have "load32 (vmem t) (tp - of_nat n + of_nat (4 * i)) = rev vs ! i" if i: "i < length vs" for i
  proof -
    let ?j = "length vs - Suc i"
    have "n - 4 * Suc ?j = 4 * i" "?j < length vs" using i assms(3) by simp_all
    with t(3) [rule_format, of ?j] i show ?thesis by (simp only: rev_nth)
  qed
  with t(1,2) show ?thesis unfolding words_at_def by auto
qed

section \<open>Suspended programs\<close>

text \<open>
  The frame of an interrupted program \<open>c\<close>, from the lowest address up. In the place that \<open>popa\<close>
  skips lies the stack pointer \<open>sp\<close> before \<open>pusha\<close>.
\<close>

definition frame_words :: "u32 \<Rightarrow> cpu \<Rightarrow> u32 list" where
  "frame_words sp c = [r_edi c, r_esi c, r_ebp c, sp, r_ebx c, r_edx c, r_ecx c, r_eax c,
     r_eip c, ucast (r_cs c), r_eflags c] @ (if sel_rpl (r_cs c) = 0 then [] else [r_esp c, ucast (r_ss c)])"

definition frame_size :: "cpu \<Rightarrow> nat" where
  "frame_size c = (if sel_rpl (r_cs c) = 0 then 44 else 52)"

lemma length_frame: "4 * length (frame_words sp c) = frame_size c"
  by (simp add: frame_words_def frame_size_def)

text \<open>A program that waits at \<open>e\<close> for its next turn.\<close>

definition suspended :: "u32 set \<Rightarrow> 'a task_scheme \<Rightarrow> u32 \<Rightarrow> cpu \<Rightarrow> bool" where
  "suspended W s e c \<longleftrightarrow> span e (frame_size c) \<subseteq> W \<and> (\<exists>sp. words_at (vmem s) e (frame_words sp c)) \<and>
     (sel_rpl (r_cs c) = 0 \<longrightarrow> r_esp c = e + 44 \<and> r_ss c = 0x10)"

lemma words_at_frame:
  assumes "words_at m e (frame_words sp c)"
  shows "load32 m e = r_edi c" "load32 m (e + 4) = r_esi c" "load32 m (e + 8) = r_ebp c" "load32 m (e + 16) = r_ebx c"
    "load32 m (e + 20) = r_edx c" "load32 m (e + 24) = r_ecx c" "load32 m (e + 28) = r_eax c" "load32 m (e + 32) = r_eip c"
    "load32 m (e + 36) = ucast (r_cs c)" "load32 m (e + 40) = r_eflags c"
    "sel_rpl (r_cs c) \<noteq> 0 \<Longrightarrow> load32 m (e + 44) = r_esp c \<and> load32 m (e + 48) = ucast (r_ss c)"
proof -
  note w = assms [unfolded words_at_def frame_words_def]
  show "load32 m e = r_edi c" "load32 m (e + 4) = r_esi c" "load32 m (e + 8) = r_ebp c" "load32 m (e + 16) = r_ebx c"
    "load32 m (e + 20) = r_edx c" "load32 m (e + 24) = r_ecx c" "load32 m (e + 28) = r_eax c" "load32 m (e + 32) = r_eip c"
    "load32 m (e + 36) = ucast (r_cs c)" "load32 m (e + 40) = r_eflags c"
    using w [rule_format, of 0] w [rule_format, of 1] w [rule_format, of 2] w [rule_format, of 4] w [rule_format, of 5]
      w [rule_format, of 6] w [rule_format, of 7] w [rule_format, of 8] w [rule_format, of 9] w [rule_format, of 10]
    by simp_all
  show "sel_rpl (r_cs c) \<noteq> 0 \<Longrightarrow> load32 m (e + 44) = r_esp c \<and> load32 m (e + 48) = ucast (r_ss c)"
    using w [rule_format, of 11] w [rule_format, of 12] by simp
qed

lemma suspended_loads:
  assumes w: "window W s" and f: "suspended W s e c" and k: "k + 4 \<le> frame_size c"
  shows "vload32 (e + of_nat k) s = Some (load32 (vmem s) (e + of_nat k))"
proof -
  have "owns W (e + of_nat k)" using span_sub [OF k, of e] f by (auto simp: suspended_def owns_def)
  then show ?thesis using w vm.laws(1) [of W] by simp
qed

lemma selector_word [simp]: "ucast (ucast (w :: u16) :: u32) = w"
  by (rule bit_word_eqI) (simp add: bit_simps)

text \<open>It resumes exactly where it was interrupted.\<close>

lemma suspended_resumes:
  assumes w: "window W s" and f: "suspended W s e c" and sp: "r_esp d = e" and ss: "sel_rpl (r_cs c) = 0 \<Longrightarrow> r_ss d = 0x10"
  shows "do { d \<leftarrow> popa d s; iret d s } = Some c"
proof -
  obtain x where x: "words_at (vmem s) e (frame_words x c)" using f by (auto simp: suspended_def)
  note m = words_at_frame [OF x]
  have 44: "44 \<le> frame_size c" by (simp add: frame_size_def)
  have ld: "vload32 (e + of_nat k) s = Some (load32 (vmem s) (e + of_nat k))" if "k + 4 \<le> 44" for k
    using suspended_loads [OF w f, of k] that 44 by simp
  note ld = ld [of 0] ld [of 4] ld [of 8] ld [of 16] ld [of 20] ld [of 24] ld [of 28] ld [of 32] ld [of 36] ld [of 40]
  show ?thesis
  proof (cases "sel_rpl (r_cs c) = 0")
    case True
    then have "r_esp c = e + 44" "r_ss c = 0x10" using f by (simp_all add: suspended_def)
    then show ?thesis using ld m sp ss True by (cases c; cases d) (simp add: popa_def iret_def add.assoc)
  next
    case False
    then have "frame_size c = 52" by (simp add: frame_size_def)
    then have "vload32 (e + 44) s = Some (load32 (vmem s) (e + 44))" "vload32 (e + 48) s = Some (load32 (vmem s) (e + 48))"
      using suspended_loads [OF w f, of 44] suspended_loads [OF w f, of 48] by simp_all
    then show ?thesis using ld m sp False by (cases c; cases d) (simp add: popa_def iret_def add.assoc)
  qed
qed

lemma words_at_keeps:
  assumes k: "keeps W H s t" and e: "span e n \<subseteq> W" "span e n \<inter> H = {}" "4 * length vs = n"
  shows "words_at (vmem s) e vs \<Longrightarrow> words_at (vmem t) e vs"
  unfolding words_at_def
proof (intro allI impI)
  fix i assume w: "\<forall>i<length vs. load32 (vmem s) (e + of_nat (4 * i)) = vs ! i" and i: "i < length vs"
  have "4 * i + 4 \<le> n" using i e(3) by simp
  from span_sub [OF this, of e] e have "owns W (e + of_nat (4 * i))" "span (e + of_nat (4 * i)) 4 \<inter> H = {}"
    by (auto simp: owns_def)
  from keeps_load [OF k this] w i show "load32 (vmem t) (e + of_nat (4 * i)) = vs ! i" by simp
qed

lemma suspended_keeps:
  assumes "keeps W H s t" "suspended W s e c" "span e (frame_size c) \<inter> H = {}"
  shows "suspended W t e c"
  using assms words_at_keeps [OF assms(1) _ assms(3) length_frame] by (auto simp: suspended_def)

section \<open>Interrupting a program\<close>

text \<open>The stack that an interrupt of \<open>c\<close> uses, and where the frame comes to lie.\<close>

definition entry_stack :: "'a task_scheme \<Rightarrow> cpu \<Rightarrow> u32" where
  "entry_stack s c = (if sel_rpl (r_cs c) = 0 then r_esp c else esp0 (tss s))"

definition frame_at :: "'a task_scheme \<Rightarrow> cpu \<Rightarrow> u32" where
  "frame_at s c = entry_stack s c - of_nat (frame_size c)"

text \<open>All stack segments of ring 0 are the data segment of the kernel.\<close>

definition kernel_ss :: "'a task_scheme \<Rightarrow> cpu \<Rightarrow> bool" where
  "kernel_ss s c \<longleftrightarrow> (if sel_rpl (r_cs c) = 0 then r_ss c = 0x10 else ss0 (tss s) = 0x10)"

lemma pushes_sp: "pushes vs sp s = Some (p, t) \<Longrightarrow> p = sp - of_nat (4 * length vs)"
proof (induction vs arbitrary: sp s)
  case (Cons v vs)
  then obtain u where "pushes vs (sp - 4) u = Some (p, t)" by (auto simp: push_def Let_def split: bind_splits)
  from Cons.IH [OF this] show ?case by (simp add: algebra_simps)
qed simp

lemma pushes_split:
  assumes "pushes (vs @ ws) sp s = Some (p, t)" "n = 4 * length vs"
  obtains u where "pushes vs sp s = Some (sp - of_nat n, u)" "pushes ws (sp - of_nat n) u = Some (p, t)"
proof -
  obtain q u where u: "pushes vs sp s = Some (q, u)" "pushes ws q u = Some (p, t)"
    using assms(1) by (auto simp: pushes_append split: bind_splits)
  with pushes_sp [OF u(1)] assms(2) that show thesis by simp
qed

lemma pushes_tss: "pushes vs sp s = Some (p, t) \<Longrightarrow> tss t = tss s \<and> gdt_entries t = gdt_entries s"
  by (induction vs arbitrary: sp s)
    (auto simp: push_def vstore32_def put32_def Let_def split: bind_splits if_splits)

text \<open>The gate and \<open>pusha\<close> are one sequence of pushes; they leave the program suspended.\<close>

lemma enters:
  assumes w: "window W s" and r: "span (frame_at s c) (frame_size c) \<subseteq> W" and k: "kernel_ss s c"
  shows "\<exists>d t. do { (c, s) \<leftarrow> deliver c s; pusha c s } = Some (d, t) \<and> r_esp d = frame_at s c \<and> r_ss d = 0x10 \<and>
     edits W (span (frame_at s c) (frame_size c)) s t \<and> suspended W t (frame_at s c) c"
proof -
  let ?tp = "entry_stack s c" and ?a = "frame_at s c"
  define vs where "vs = rev (frame_words (?a + 32) c)"
  have n: "frame_size c = 4 * length vs" "frame_size c \<le> 4096"
    using length_frame [of "?a + 32" c] by (simp_all add: vs_def frame_size_def)
  obtain t where t: "pushes vs ?tp s = Some (?a, t)" "edits W (span ?a (frame_size c)) s t"
    "words_at (vmem t) ?a (frame_words (?a + 32) c)"
    using pushes_words [OF w _ n, of ?tp] r by (auto simp: frame_at_def vs_def)
  have "suspended W t ?a c" unfolding suspended_def
    using t(3) r k by (auto simp: frame_at_def entry_stack_def frame_size_def kernel_ss_def)
  moreover have "\<exists>d. do { (c, s) \<leftarrow> deliver c s; pusha c s } = Some (d, t) \<and> r_esp d = ?a \<and> r_ss d = 0x10"
  proof (cases "sel_rpl (r_cs c) = 0")
    case True
    then have a: "?tp = r_esp c" "?a = r_esp c - 44" by (simp_all add: frame_at_def entry_stack_def frame_size_def)
    let ?gate = "[r_eflags c, ucast (r_cs c), r_eip c]"
    let ?regs = "[r_eax c, r_ecx c, r_edx c, r_ebx c, r_esp c - 12, r_ebp c, r_esi c, r_edi c]"
    have "vs = ?gate @ ?regs" using True by (simp add: vs_def frame_words_def a)
    from pushes_split [OF t(1) [unfolded this] , of 12] obtain u where
      "pushes ?gate (r_esp c) s = Some (r_esp c - 12, u)" "pushes ?regs (r_esp c - 12) u = Some (?a, t)"
      by (auto simp: a)
    then show ?thesis using True k
      by (simp add: deliver_def pusha_def push_all_def kernel_ss_def del: pushes.simps)
  next
    case False
    then have a: "?tp = esp0 (tss s)" "?a = esp0 (tss s) - 52" by (simp_all add: frame_at_def entry_stack_def frame_size_def)
    let ?old = "[ucast (r_ss c), r_esp c]" and ?gate = "[r_eflags c, ucast (r_cs c), r_eip c]"
    let ?regs = "[r_eax c, r_ecx c, r_edx c, r_ebx c, esp0 (tss s) - 20, r_ebp c, r_esi c, r_edi c]"
    have "vs = ?old @ ?gate @ ?regs" using False by (simp add: vs_def frame_words_def a)
    from pushes_split [OF t(1) [unfolded this] , of 8] obtain u where
      u: "pushes ?old (esp0 (tss s)) s = Some (esp0 (tss s) - 8, u)" "pushes (?gate @ ?regs) (esp0 (tss s) - 8) u = Some (?a, t)"
      by (auto simp: a)
    from pushes_split [OF u(2), of 12] obtain v where
      "pushes ?gate (esp0 (tss s) - 8) u = Some (esp0 (tss s) - 20, v)" "pushes ?regs (esp0 (tss s) - 20) v = Some (?a, t)"
      by auto
    with u(1) show ?thesis using False k
      by (simp add: deliver_def pusha_def push_all_def kernel_ss_def del: pushes.simps)
  qed
  ultimately show ?thesis using t(2) by blast
qed

end
