(* ===== verification/Switch.thy ===== *)
theory Switch
  imports Timer Cpu
begin

text \<open>
  The timer interrupt as the processor sees it: \<open>timer_stub\<close> (\<open>interrupt.asm\<close>) around
  \<open>timer_handler_main\<close>. The stub saves the registers of the interrupted program on its kernel stack,
  loads the stack pointer that the handler returns, and takes the registers of another program
  from there. The state of the data segment register is threaded along, since the stub does not
  save it. What the call and the compiled handler themselves put on the stack, below these words,
  is not modelled.
\<close>

section \<open>The code\<close>

definition timer_stub :: "(u32 \<Rightarrow> u32) \<Rightarrow> cpu \<Rightarrow> u16 \<times> 'a timer_scheme \<Rightarrow> (cpu \<times> u16 \<times> 'a timer_scheme) option" where
  "timer_stub kst c = (\<lambda>(ds, s). do {
     (c, s) \<leftarrow> pusha c s;
     let current_esp = r_esp c;
     (c, s) \<leftarrow> push_all [r_esp c] c s;
     (eax, s) \<leftarrow> (if null_selector ds then None else timer_handler_main kst current_esp s);
     let c = c\<lparr>r_esp := eax\<rparr>;
     c \<leftarrow> popa c s;
     c \<leftarrow> iret c s;
     Some (c, ds_after c ds s, s)
   })"

definition timer_interrupt :: "(u32 \<Rightarrow> u32) \<Rightarrow> cpu \<Rightarrow> u16 \<times> 'a timer_scheme \<Rightarrow> (cpu \<times> u16 \<times> 'a timer_scheme) option" where
  "timer_interrupt kst c = (\<lambda>(ds, s). do {
     (c, s) \<leftarrow> deliver c s;
     timer_stub kst c (ds, s)
   })"

section \<open>One interrupt\<close>

text \<open>The bytes below the top of the stack that gate and stub write.\<close>

definition room :: "'a task_scheme \<Rightarrow> cpu \<Rightarrow> u32 set" where
  "room s c = span (frame_at s c - 4) (frame_size c + 4)"

lemma room_parts: "span (frame_at s c) (frame_size c) \<subseteq> room s c" "span (frame_at s c - 4) 4 \<subseteq> room s c"
  using span_sub [of 4 "frame_size c" "frame_size c + 4" "frame_at s c - 4"]
    span_sub [of 0 4 "frame_size c + 4" "frame_at s c - 4"] by (simp_all add: room_def)

lemma room_apart: "span (frame_at s c - 4) 4 \<inter> span (frame_at s c) (frame_size c) = {}"
proof -
  have "sep 4 (frame_at s c - 4) (frame_size c) (frame_at s c)"
    by (simp add: sep_def frame_size_def)
  from sep_span [OF this] show ?thesis by (simp add: frame_size_def)
qed

lemma stub_saves:
  fixes s :: "'a timer_scheme"
  assumes w: "window W s" and rm: "room s c \<subseteq> W" and k: "kernel_ss s c"
  shows "\<exists>d t. timer_interrupt kst c (ds, s) =
       do { (eax, u) \<leftarrow> (if null_selector ds then None else timer_handler_main kst (frame_at s c) t);
            d \<leftarrow> popa (d\<lparr>r_esp := eax\<rparr>) u; d \<leftarrow> iret d u; Some (d, ds_after d ds u, u) } \<and>
     r_ss d = 0x10 \<and> edits W (room s c) s t \<and> suspended W t (frame_at s c) c"
proof -
  have fr: "span (frame_at s c) (frame_size c) \<subseteq> W" using room_parts(1) [of s c] rm by blast
  from enters [OF w fr k] obtain d u where u: "do { (c, s) \<leftarrow> deliver c s; pusha c s } = Some (d, u)"
    "r_esp d = frame_at s c" "r_ss d = 0x10" "edits W (span (frame_at s c) (frame_size c)) s u" "suspended W u (frame_at s c) c"
    by blast
  obtain d0 u0 where d0: "deliver c s = Some (d0, u0)" "pusha d0 u0 = Some (d, u)" using u(1) by (auto split: bind_splits)
  have wu: "window W u" and p4: "span (frame_at s c - of_nat 4) 4 \<subseteq> W"
    using edits_window [OF u(4)] room_parts(2) [of s c] rm by auto
  from pushes_words [OF wu p4, of "[frame_at s c]"] obtain t where
    t: "pushes [frame_at s c] (frame_at s c) u = Some (frame_at s c - 4, t)" "edits W (span (frame_at s c - 4) 4) u t" by auto
  have "edits W (room s c) s t"
    by (rule edits_trans [OF edits_mono [OF u(4)] edits_mono [OF t(2)]]) (rule room_parts)+
  moreover have "suspended W t (frame_at s c) c"
    using suspended_keeps [OF keeps_edits [OF t(2)] u(5)] room_apart [of s c] by blast
  moreover have "push_all [r_esp d] d u = Some (d\<lparr>r_esp := frame_at s c - 4\<rparr>, t)"
    using t(1) u(2) by (simp add: push_all_def del: pushes.simps)
  ultimately show ?thesis using d0 u(2,3)
    by (intro exI [of _ "d\<lparr>r_esp := frame_at s c - 4\<rparr>"] exI [of _ t]) (simp add: timer_interrupt_def timer_stub_def)
qed

lemma edits_gdt:
  fixes s t :: "'a task_scheme"
  assumes "edits W H s t"
  shows "gdt_entries t = gdt_entries s"
proof -
  have t: "t = s\<lparr>mem := mem t\<rparr>" using assms unfolding edits_def by blast
  show ?thesis by (subst t) simp
qed

text \<open>
  The ring moves on, the interrupted program is suspended with the frame at its saved pointer, and
  the processor takes its registers from the frame of the next program.
\<close>

lemma interrupt_switches:
  fixes s :: "'a timer_scheme"
  assumes r: "ring_of W s q" and rm: "room s c \<subseteq> W" and k: "kernel_ss s c"
    and far: "\<forall>p \<in> fst ` set q. span p 16 \<inter> room s c = {}"
    and e: "frame_at s c \<noteq> 0" and nz: "\<forall>x \<in> set (tl q). snd x \<noteq> 0" and ds: "\<not> null_selector ds"
  defines "q' \<equiv> switch (frame_at s c) q"
  shows "\<exists>d t. timer_interrupt kst c (ds, s) =
       do { d \<leftarrow> popa (d\<lparr>r_esp := snd (hd q')\<rparr>) t; d \<leftarrow> iret d t; Some (d, ds_after d ds t, t) } \<and>
     r_ss d = 0x10 \<and> ring_of W t q' \<and> keeps W (room s c \<union> span (fst (hd q) + 4) 4) s t \<and>
     suspended W t (frame_at s c) c \<and> gdt_entries t = gdt_entries s \<and>
     tss t = (if kst (fst (hd q')) \<noteq> 0 then (tss s)\<lparr>esp0 := kst (fst (hd q'))\<rparr> else tss s)"
proof -
  obtain d u where u: "timer_interrupt kst c (ds, s) =
       do { (eax, u) \<leftarrow> timer_handler_main kst (frame_at s c) u;
            d \<leftarrow> popa (d\<lparr>r_esp := eax\<rparr>) u; d \<leftarrow> iret d u; Some (d, ds_after d ds u, u) }"
     "r_ss d = 0x10" "edits W (room s c) s u" "suspended W u (frame_at s c) c"
    using stub_saves [OF ring_in(2) [OF r] rm k, of kst ds] ds by auto
  have f: "current_task u = current_task s" "tss u = tss s" "gdt_entries u = gdt_entries s"
    using edits_task_fields [OF u(3)] edits_gdt [OF u(3)] by simp_all
  have ru: "ring_of W u q" by (rule ring_keeps [OF r keeps_edits [OF u(3)] far f(1)])
  obtain t where t: "timer_handler_main kst (frame_at s c) u = Some (snd (hd q'), t)" "ring_of W t q'"
    "keeps W (span (fst (hd q) + 4) 4) u t" "gdt_entries t = gdt_entries u"
    "tss t = (if kst (fst (hd q')) \<noteq> 0 then (tss u)\<lparr>esp0 := kst (fst (hd q'))\<rparr> else tss u)"
    using timer_tick [OF ru e nz, of kst] unfolding q'_def by blast
  have "span (frame_at s c) (frame_size c) \<inter> span (fst (hd q) + 4) 4 = {}"
    using far [rule_format, OF ring_in(4) [OF r]] struct_parts(2) [of "fst (hd q)"] room_parts(1) [of s c] by blast
  with suspended_keeps [OF t(3) u(4)] keeps_trans [OF keeps_edits [OF u(3)] t(3)] u(1,2) t f
  show ?thesis by auto
qed

section \<open>Programs in the ring\<close>

text \<open>
  The abstract scheduler of the processor's programs: each task of the queue with the program that
  it runs. Task \<open>p\<close> has the stack \<open>stk p\<close> for its interrupts, apart from those of the others, and \<open>ktop p\<close> is the ring 0
  stack pointer while it runs. What the handler reads as \<open>kernel_stack_top\<close> must agree: it is \<open>ktop p\<close> itself, or 0
  for all, where the ring 0 stack pointer never changes and so at most one task can be interrupted in ring 3.
\<close>

definition stacks_apart :: "(u32 \<Rightarrow> u32) \<Rightarrow> (u32 \<Rightarrow> u32) \<Rightarrow> (u32 \<Rightarrow> u32 set) \<Rightarrow> u32 set \<Rightarrow> u32 set \<Rightarrow> bool" where
  "stacks_apart kst ktop stk W P \<longleftrightarrow> (\<forall>p \<in> P. stk p \<subseteq> W \<and> (\<forall>p' \<in> P. (if kst p' \<noteq> 0 then kst p' else ktop p) = ktop p' \<and>
     span p' 16 \<inter> stk p = {} \<and> (p \<noteq> p' \<longrightarrow> stk p \<inter> stk p' = {})))"

definition waits :: "(u32 \<Rightarrow> u32 set) \<Rightarrow> u32 set \<Rightarrow> 'a task_scheme \<Rightarrow> u32 \<times> cpu \<Rightarrow> bool" where
  "waits stk W s = (\<lambda>(p, c). t_esp s p \<noteq> 0 \<and> suspended W s (t_esp s p) c \<and> span (t_esp s p) (frame_size c) \<subseteq> stk p)"

definition saved_esp :: "'a task_scheme \<Rightarrow> u32 \<times> cpu \<Rightarrow> u32 \<times> u32" where
  "saved_esp s x = (fst x, t_esp s (fst x))"

definition programs :: "(u32 \<Rightarrow> u32) \<Rightarrow> (u32 \<Rightarrow> u32) \<Rightarrow> (u32 \<Rightarrow> u32 set) \<Rightarrow> u32 set \<Rightarrow> 'a timer_scheme \<Rightarrow> (u32 \<times> cpu) list \<Rightarrow> bool"
  where
  "programs kst ktop stk W s q \<longleftrightarrow> ring_of W s (map (saved_esp s) q) \<and> (\<forall>x \<in> set (tl q). waits stk W s x) \<and>
     stacks_apart kst ktop stk W (fst ` set q) \<and> esp0 (tss s) = ktop (fst (hd q)) \<and> ss0 (tss s) = 0x10"

text \<open>An interrupt of \<open>c\<close> while task \<open>p\<close> runs stays within the stack of \<open>p\<close>.\<close>

definition fits_stack :: "(u32 \<Rightarrow> u32) \<Rightarrow> (u32 \<Rightarrow> u32 set) \<Rightarrow> u32 \<Rightarrow> cpu \<Rightarrow> bool" where
  "fits_stack ktop stk p c \<longleftrightarrow>
     (let e = (if sel_rpl (r_cs c) = 0 then r_esp c else ktop p) - of_nat (frame_size c)
      in e \<noteq> 0 \<and> span (e - 4) (frame_size c + 4) \<subseteq> stk p \<and> (sel_rpl (r_cs c) = 0 \<longrightarrow> r_ss c = 0x10))"

text \<open>A data segment that ring 3 may use stays through every return.\<close>

definition flat_ds :: "u16 \<Rightarrow> 'a gdt_scheme \<Rightarrow> bool" where
  "flat_ds ds s \<longleftrightarrow> \<not> null_selector ds \<and> sel_index ds < length (gdt_entries s) \<and> seg_dpl (gdt_entries s ! sel_index ds) = 3"

lemma ring_saved:
  assumes "ring_of W s q" "map fst q' = map fst q" "\<forall>x \<in> set (tl q'). snd x = t_esp s (fst x)"
  shows "ring_of W s q'"
proof -
  have "fst (hd q') = fst (hd q)" "q' \<noteq> []"
    using assms(1,2) ring_in(1) [OF assms(1)] by (cases q; cases q'; simp)+
  with assms show ?thesis by (simp add: ring_of_def)
qed

lemma ds_flat: "flat_ds ds s \<Longrightarrow> ds_after c ds s = ds"
proof -
  have "unat (sel_rpl (r_cs c)) \<le> 3" using word_and_le1 [of "r_cs c" 3] by (simp add: sel_rpl_def word_le_nat_alt)
  then have "(ucast (sel_rpl (r_cs c)) :: u8) \<le> 3"
    using order_trans [OF take_bit_nat_less_eq_self] by (simp add: word_le_nat_alt unsigned_ucast_eq)
  then show "flat_ds ds s \<Longrightarrow> ds_after c ds s = ds" by (simp add: ds_after_def flat_ds_def)
qed

lemma fst_saved [simp]: "fst (saved_esp s x) = fst x"
  by (simp add: saved_esp_def)

lemma fits_stack_room:
  assumes "fits_stack ktop stk p c" "esp0 (tss s) = ktop p" "ss0 (tss s) = 0x10"
  shows "frame_at s c \<noteq> 0" "room s c \<subseteq> stk p" "kernel_ss s c"
  using assms by (auto simp: fits_stack_def Let_def frame_at_def entry_stack_def room_def kernel_ss_def)

lemma ring_map_saved: "ring_of W s q \<Longrightarrow> map fst zs = map fst q \<Longrightarrow> ring_of W s (map (saved_esp s) zs)"
  by (rule ring_saved) (simp_all add: comp_def map_tl [symmetric] del: map_tl, auto simp: saved_esp_def)

text \<open>Writing into the stack of \<open>p\<close> and the structure of \<open>p\<close> leaves the other tasks alone.\<close>

lemma waits_keeps:
  assumes k: "keeps W (H \<union> span (p + 4) 4) s t" and H: "H \<subseteq> stk p" and st: "stacks_apart kst ktop stk W P"
    and P: "p \<in> P" "y \<in> P" "y \<noteq> p" "span y 16 \<subseteq> W" "span y 16 \<inter> span p 16 = {}"
  shows "t_esp t y = t_esp s y" "waits stk W s (y, c) \<Longrightarrow> waits stk W t (y, c)"
proof -
  have d: "stk y \<inter> stk p = {}" "span p 16 \<inter> stk y = {}" "span y 16 \<inter> stk p = {}"
    using st P(1-3) by (auto simp: stacks_apart_def)
  then have "span y 16 \<inter> (H \<union> span (p + 4) 4) = {}" using H P(5) struct_parts(2) [of p] by blast
  from keeps_struct(2) [OF k P(4) this] show e: "t_esp t y = t_esp s y" .
  assume w: "waits stk W s (y, c)"
  then have "span (t_esp s y) (frame_size c) \<inter> (H \<union> span (p + 4) 4) = {}"
    using d H struct_parts(2) [of p] by (auto simp: waits_def)
  from suspended_keeps [OF k _ this] w e show "waits stk W t (y, c)" by (simp add: waits_def)
qed

lemma ring_others:
  assumes "ring_of W s ((p, x) # ys)" "y \<in> fst ` set ys"
  shows "span y 16 \<subseteq> W" "span y 16 \<inter> span p 16 = {}" "y \<noteq> p"
proof -
  show "span y 16 \<subseteq> W" using ring_in(6) [OF assms(1), of y] assms(2) by simp
  show d: "span y 16 \<inter> span p 16 = {}" using assms by (auto simp: ring_of_Cons)
  have "p \<in> span p 16" unfolding span_def by (rule image_eqI [where x = 0]) simp_all
  with d show "y \<noteq> p" by blast
qed

lemma interrupt_programs:
  fixes s :: "'a timer_scheme"
  assumes pr: "programs kst ktop stk W s ((p, c0) # ys)" and v: "fits_stack ktop stk p c" and ds: "\<not> null_selector ds"
  shows "\<exists>t. timer_interrupt kst c (ds, s) =
       Some (snd (hd (ys @ [(p, c)])), ds_after (snd (hd (ys @ [(p, c)]))) ds s, t) \<and>
     gdt_entries t = gdt_entries s \<and> programs kst ktop stk W t (ys @ [(p, c)])"
proof -
  let ?e = "frame_at s c" and ?P = "insert p (fst ` set ys)"
  let ?q' = "map (saved_esp s) ys @ [(p, ?e)]"
  define n where "n = hd (ys @ [(p, c)])"
  have R: "ring_of W s ((p, t_esp s p) # map (saved_esp s) ys)" and st: "stacks_apart kst ktop stk W ?P"
    and tss: "esp0 (tss s) = ktop p" "ss0 (tss s) = 0x10" and wt: "\<And>x. x \<in> set ys \<Longrightarrow> waits stk W s x"
    using pr by (auto simp: programs_def saved_esp_def)
  note e = fits_stack_room [OF v tss]
  have "\<forall>x \<in> ?P. span x 16 \<inter> stk p = {}" "stk p \<subseteq> W" using st by (simp_all add: stacks_apart_def)
  moreover have "fst ` set ((p, t_esp s p) # map (saved_esp s) ys) = ?P" by (simp add: image_image)
  ultimately have rW: "room s c \<subseteq> W" and far: "\<forall>x \<in> fst ` set ((p, t_esp s p) # map (saved_esp s) ys). span x 16 \<inter> room s c = {}"
    using e(2) by blast+
  have nz: "\<forall>x \<in> set (tl ((p, t_esp s p) # map (saved_esp s) ys)). snd x \<noteq> 0"
    using wt by (auto simp: waits_def saved_esp_def)
  have hd: "fst (hd ?q') = fst n" by (cases ys) (auto simp: n_def)
  have n: "fst n \<in> ?P" by (cases ys) (auto simp: n_def)
  obtain d t where t: "timer_interrupt kst c (ds, s) =
       do { d \<leftarrow> popa (d\<lparr>r_esp := snd (hd ?q')\<rparr>) t; d \<leftarrow> iret d t; Some (d, ds_after d ds t, t) }"
     "r_ss d = 0x10" "ring_of W t ?q'" "keeps W (room s c \<union> span (p + 4) 4) s t" "suspended W t ?e c"
     "gdt_entries t = gdt_entries s" "tss t = (if kst (fst n) \<noteq> 0 then (tss s)\<lparr>esp0 := kst (fst n)\<rparr> else tss s)"
    using interrupt_switches [OF R rW e(3) far e(1) nz, where ds = ds and kst = kst] ds hd unfolding switch_def by auto
  note others = ring_others [OF R]
  have esp: "t_esp t (fst y) = t_esp s (fst y)" and wait: "waits stk W t y" if y: "y \<in> set ys" for y
    using waits_keeps(1) [OF t(4) e(2) st, of "fst y"] waits_keeps(2) [OF t(4) e(2) st, of "fst y" "snd y"]
      others [of "fst y"] wt [OF y] y by (simp_all add: image_image)
  have pe: "t_esp t p = ?e" if "ys \<noteq> []" using t(3) that by (cases ys) (auto simp: ring_of_def)
  have "suspended W t (snd (hd ?q')) (snd n)"
    using wait esp t(5) by (cases ys) (auto simp: n_def waits_def saved_esp_def)
  from suspended_resumes [OF ring_in(2) [OF t(3)] this, of "d\<lparr>r_esp := snd (hd ?q')\<rparr>"] t(2)
  obtain x where "popa (d\<lparr>r_esp := snd (hd ?q')\<rparr>) t = Some x" "iret x t = Some (snd n)"
    by (auto split: bind_splits)
  then have "timer_interrupt kst c (ds, s) = Some (snd n, ds_after (snd n) ds s, t)"
    using t(1,6) by (simp add: ds_after_def)
  moreover have "ring_of W t (map (saved_esp t) (ys @ [(p, c)]))"
    by (rule ring_map_saved [OF t(3)]) simp
  moreover have "\<forall>x \<in> set (tl (ys @ [(p, c)])). waits stk W t x"
    using wait pe e t(5) room_parts(1) [of s c] by (cases ys) (auto simp: waits_def)
  moreover have "esp0 (tss t) = ktop (fst n)" using st n t(7) tss(1) by (auto simp: stacks_apart_def)
  moreover have "ss0 (tss t) = 0x10" using t(7) tss(2) by simp
  ultimately show ?thesis using st t(6) by (simp add: programs_def n_def)
qed

text \<open>The registers and the data segment at the interrupt, and the registers that go on; what the program that goes
  on does about its data segment is its own business.\<close>

definition resumed :: "(u32 \<Rightarrow> u32) \<Rightarrow> cpu \<times> u16 \<Rightarrow> 'a timer_scheme \<Rightarrow> (cpu \<times> 'a timer_scheme) option" where
  "resumed kst = (\<lambda>(c, ds) s. do {
     (c', ds', t) \<leftarrow> timer_interrupt kst c (ds, s);
     Some (c', t)
   })"

interpretation pr: round_robin "resumed kst" "programs kst ktop stk W"
  "\<lambda>p (c, ds). fits_stack ktop stk p c \<and> \<not> null_selector ds" fst for kst ktop stk W
proof unfold_locales
  fix s :: "'b timer_scheme" and q :: "(u32 \<times> cpu) list" and i :: "cpu \<times> u16"
  obtain c ds where i: "i = (c, ds)" by (cases i)
  show ne: "programs kst ktop stk W s q \<Longrightarrow> q \<noteq> []" by (auto simp: programs_def ring_of_def)
  assume pr: "programs kst ktop stk W s q"
    and v: "case i of (c, ds) \<Rightarrow> fits_stack ktop stk (fst (hd q)) c \<and> \<not> null_selector ds"
  then obtain p c0 ys where q: "q = (p, c0) # ys" using ne by (cases q) auto
  show "\<exists>t. resumed kst i s = Some (snd (hd (switch (fst i) q)), t) \<and> programs kst ktop stk W t (switch (fst i) q)"
    using interrupt_programs [of kst ktop stk W s p c0 ys c ds] pr v by (auto simp: i q switch_def resumed_def)
qed

section \<open>When the stacks are one\<close>

text \<open>With one stack for two programs of ring 3, the second one's frame overwrites the first one's.\<close>

lemma shared_stack:
  fixes s :: "'a timer_scheme"
  assumes r: "ring_of W s [(p, x), (p', k)]" and k: "k \<noteq> 0" "suspended W s k c'" "ss0 (tss s) = 0x10"
    and o: "sel_rpl (r_cs c) \<noteq> 0" "sel_rpl (r_cs d) \<noteq> 0"
  defines "e \<equiv> esp0 (tss s) - 52"
  assumes st: "e \<noteq> 0" "span (e - 4) 56 \<subseteq> W" "span p 16 \<inter> span (e - 4) 56 = {}" "span p' 16 \<inter> span (e - 4) 56 = {}"
    "span k (frame_size c') \<inter> (span (e - 4) 56 \<union> span p 16) = {}" and fl: "flat_ds ds s"
  shows "\<exists>t. ticks (timer_interrupt (\<lambda>_. 0)) [c, d] (ds, s) = Some ([c', d], ds, t)"
proof -
  have rm: "room s a = span (e - 4) 56" "frame_at s a = e" "kernel_ss s a" if "sel_rpl (r_cs a) \<noteq> 0" for a
    using that k(3) by (simp_all add: room_def frame_at_def entry_stack_def frame_size_def e_def kernel_ss_def)
  note rc = rm [OF o(1)] and rd = rm [OF o(2)]
  have ds: "\<not> null_selector ds" using fl by (simp add: flat_ds_def)
  obtain a u where u: "timer_interrupt (\<lambda>_. 0) c (ds, s) =
       do { d \<leftarrow> popa (a\<lparr>r_esp := k\<rparr>) u; d \<leftarrow> iret d u; Some (d, ds_after d ds u, u) }"
     "r_ss a = 0x10" "ring_of W u [(p', k), (p, e)]" "keeps W (span (e - 4) 56 \<union> span (p + 4) 4) s u"
     "gdt_entries u = gdt_entries s" "tss u = tss s"
    using interrupt_switches [OF r, of c ds "\<lambda>_. 0"] rc st k(1) ds by (auto simp: switch_def)
  have "suspended W u k c'" using suspended_keeps [OF u(4) k(2)] st(5) struct_parts(2) [of p] by blast
  from suspended_resumes [OF ring_in(2) [OF u(3)] this, of "a\<lparr>r_esp := k\<rparr>"] u(2)
  have 1: "timer_interrupt (\<lambda>_. 0) c (ds, s) = Some (c', ds, u)"
    using u(1) ds_flat [of ds u c'] fl u(5) by (auto simp: flat_ds_def split: bind_splits)
  have "room u d = room s d" "frame_at u d = frame_at s d" "kernel_ss u d = kernel_ss s d"
    using u(6) by (simp_all add: room_def frame_at_def entry_stack_def kernel_ss_def)
  note rd = rd [folded this]
  obtain b t where t: "timer_interrupt (\<lambda>_. 0) d (ds, u) =
       do { d \<leftarrow> popa (b\<lparr>r_esp := e\<rparr>) t; d \<leftarrow> iret d t; Some (d, ds_after d ds t, t) }"
     "r_ss b = 0x10" "ring_of W t [(p, e), (p', e)]" "suspended W t e d" "gdt_entries t = gdt_entries u"
    using interrupt_switches [OF u(3), of d ds "\<lambda>_. 0"] rd st ds by (auto simp: switch_def)
  from suspended_resumes [OF ring_in(2) [OF t(3)] t(4), of "b\<lparr>r_esp := e\<rparr>"] t(2)
  have "timer_interrupt (\<lambda>_. 0) d (ds, u) = Some (d, ds, t)"
    using t(1) ds_flat [of ds t d] fl t(5) u(5) by (auto simp: flat_ds_def split: bind_splits)
  with 1 show ?thesis by simp
qed

section \<open>When the data segment is lost\<close>

lemma null_ds_faults: "null_selector ds \<Longrightarrow> timer_interrupt kst c (ds, s) = None"
  by (auto simp: timer_interrupt_def timer_stub_def split: bind_splits)

lemma ds_dropped:
  assumes "seg_dpl (gdt_entries s ! sel_index ds) = 0" "sel_rpl (r_cs c) = 3"
  shows "ds_after c ds s = 0"
  using assms by (simp add: ds_after_def)

end
