(* ===== verification/Spawn.thy ===== *)
theory Spawn
  imports Switch
begin

text \<open>
  What \<open>create_task\<close> (\<open>task.c\<close>) achieves. Its call of \<open>map_page\<close> maps the heap page that holds
  the user stack onto itself, so the result depends on whether the heap page already was mapped
  onto itself: if it was, the task is created and enters the ring behind the running task; if it
  was not, the whole heap disappears from the kernel's view.
\<close>

section \<open>The forged frame\<close>

lemma push_zeros_pushes: "push_zeros n sp s = pushes (replicate n 0) sp s"
  by (induction n arbitrary: sp s) (auto split: bind_splits)

lemma forge_frame_pushes:
  "forge_frame k us e s = pushes ([0x23, us, 0x202, 0x1B, e] @ replicate 8 0) k s"
  by (simp only: forge_frame_def push_zeros_pushes pushes.simps append.simps)

text \<open>A program that starts at \<open>ep\<close> in ring 3, with its stack at \<open>us\<close>.\<close>

definition newborn :: "u32 \<Rightarrow> u32 \<Rightarrow> cpu" where
  "newborn ep us = \<lparr>r_edi = 0, r_esi = 0, r_ebp = 0, r_ebx = 0, r_edx = 0, r_ecx = 0, r_eax = 0,
     r_eip = ep, r_eflags = 0x202, r_esp = us, r_cs = 0x1B, r_ss = 0x23\<rparr>"

lemma newborn_ring3 [simp]: "sel_rpl (r_cs (newborn ep us)) = 3" "frame_size (newborn ep us) = 52"
  by (simp_all add: newborn_def frame_size_def sel_rpl_def)

lemma newborn_frame: "rev ([0x23, us, 0x202, 0x1B, ep] @ replicate 8 0) = frame_words 0 (newborn ep us)"
proof -
  have "replicate 8 0 = [0, 0, 0, 0, 0, 0, 0, 0 :: u32]" by (simp add: numeral_eq_Suc)
  then show ?thesis by (simp add: frame_words_def newborn_def sel_rpl_def)
qed

lemma forged_frame:
  assumes "window W s" "span b 1024 \<subseteq> W"
  shows "\<exists>t. forge_frame (b + 1024) us e s = Some (b + 972, t) \<and> edits W (span b 1024) s t \<and>
     suspended W t (b + 972) (newborn e us)"
proof -
  define vs where "vs = [0x23, us, 0x202, 0x1B, e] @ replicate 8 0"
  have sp: "span (b + 972) 52 \<subseteq> span b 1024" using span_sub [of 972 52 1024 b] by simp
  have b: "b + 1024 - of_nat 52 = b + 972" by simp
  have W: "span (b + 1024 - of_nat 52) 52 \<subseteq> W" unfolding b using sp assms(2) by (rule order_trans)
  have "52 = 4 * length vs" by (simp add: vs_def)
  from pushes_words [OF assms(1) W this] obtain t where
    t: "pushes vs (b + 1024) s = Some (b + 972, t)" "edits W (span (b + 972) 52) s t"
      "words_at (vmem t) (b + 972) (frame_words 0 (newborn e us))"
    unfolding b newborn_frame [of us e, folded vs_def, symmetric] by auto
  have "suspended W t (b + 972) (newborn e us)"
    unfolding suspended_def using t(3) W [unfolded b] by auto
  with t(1) edits_mono [OF t(2) sp] show ?thesis unfolding forge_frame_pushes vs_def by blast
qed

section \<open>Blocks of tasks\<close>

text \<open>\<open>p\<close> is the pointer of an allocation large enough for a task structure.\<close>

definition block_in :: "nat list \<Rightarrow> u32 \<Rightarrow> bool" where
  "block_in ms p \<longleftrightarrow> (\<exists>pre m post. ms = pre @ m # post \<and> 16 \<le> m \<and> p = of_nat (0x1000000 + extent pre + 12))"

lemma spans_apart:
  "a + m \<le> b \<Longrightarrow> b + k \<le> 0x1001000 \<Longrightarrow> span (of_nat a) m \<inter> span (of_nat b) k = {}"
proof (cases "m = 0")
  case False
  assume h: "a + m \<le> b" "b + k \<le> 0x1001000"
  have "sep m (of_nat a) k (of_nat b)" using h False by (intro sep_interval) (simp_all add: unat_of_nat)
  from sep_span [OF this] h show ?thesis by simp
qed (simp add: span_def)

lemma block_in_used: "block_in ms p \<Longrightarrow> span p 16 \<subseteq> span 0x1000000 (extent ms)"
proof -
  assume "block_in ms p"
  then obtain pre m post where m: "ms = pre @ m # post" "16 \<le> m" "p = of_nat (0x1000000 + extent pre + 12)"
    by (auto simp: block_in_def)
  then have "extent pre + 12 + 16 \<le> extent ms" by simp
  from span_sub [OF this, of "0x1000000"] show ?thesis unfolding m(3) by simp
qed

lemma block_in_facts:
  assumes b: "block_in ms p" and f: "extent (ms @ ns) + 12 \<le> 4096"
  shows "span p 16 \<subseteq> heap_page" "span p 16 \<inter> headers (laid 0x1000000 (ms @ ns) @ [rest_chunk (ms @ ns)]) = {}"
    "extent ms \<le> a \<Longrightarrow> a + k \<le> 4096 \<Longrightarrow> span p 16 \<inter> span (of_nat (0x1000000 + a)) k = {}"
proof -
  obtain pre m post where ms: "ms = pre @ m # post" "16 \<le> m" "p = of_nat (0x1000000 + extent pre + 12)"
    using b by (auto simp: block_in_def)
  have e: "ms @ ns = pre @ m # (post @ ns)" by (simp add: ms(1))
  show "span p 16 \<subseteq> heap_page" "span p 16 \<inter> headers (laid 0x1000000 (ms @ ns) @ [rest_chunk (ms @ ns)]) = {}"
    unfolding e using block_apart [of pre m "post @ ns" "extent pre + 12" 16] f ms by (simp_all add: add.assoc)
  show "extent ms \<le> a \<Longrightarrow> a + k \<le> 4096 \<Longrightarrow> span p 16 \<inter> span (of_nat (0x1000000 + a)) k = {}"
    unfolding ms(3) using ms(1,2) by (intro spans_apart) simp_all
qed

section \<open>The page of the user stack\<close>

lemma alloc_upper_fields [simp, frame]:
  "heap_first (snd (pmm_alloc_block (s :: 'a task_scheme))) = heap_first s"
  "current_task (snd (pmm_alloc_block s)) = current_task s" "next_pid (snd (pmm_alloc_block s)) = next_pid s"
  "tss (snd (pmm_alloc_block s)) = tss s" "gdt_entries (snd (pmm_alloc_block s)) = gdt_entries s"
  by (simp_all add: pmm_alloc_block_def set_bitmap_word_def Let_def)

lemma remapped_upper_fields [simp, frame]:
  "heap_first (remapped va pa (s :: 'a task_scheme)) = heap_first s"
  "current_task (remapped va pa s) = current_task s" "next_pid (remapped va pa s) = next_pid s"
  "tss (remapped va pa s) = tss s" "gdt_entries (remapped va pa s) = gdt_entries s"
  by (simp_all add: remapped_def entered_def linked_def Let_def case_prod_beta)

lemma heap_base_frame: "frame_of 0x1000000 = 0x1000000"
  by (rule frame_of_aligned [OF heap_aligned])

lemma user_stack_page: "i < 4096 \<Longrightarrow> of_nat (0x1000000 + i) AND NOT 0xFFF = (0x1000000 :: u32)"
  using frame_of_offset [OF heap_aligned, of i] by (simp add: frame_of_def)

lemma identity_offset: "x \<in> heap_page \<Longrightarrow> 0x1000000 OR (x AND 0xFFF) = x"
  using page_offset(2,3) [OF heap_aligned] by (auto simp: span_def)

lemma heap_page_iff: "drop_bit 12 x = (4096 :: u32) \<longleftrightarrow> x \<in> heap_page"
  using page_span [OF heap_aligned, of x] by simp

text \<open>After the call the heap page is mapped onto itself.\<close>

lemma remap_translate:
  fixes s :: "'a task_scheme"
  assumes "window heap_page s" "paging_ok s" "bit (cr0 s) 31"
  shows "translate (remapped 0x1000000 0x1000000 s) x = (if x \<in> heap_page then Some x else translate s x)"
  using remapped_present(4) [OF assms(2) heap_slot_present [OF assms(1,3)], of "0x1000000" x] assms identity_offset [of x]
  by (simp add: window_def translate_def heap_base_frame heap_page_iff)

lemma remap_keeps:
  fixes s :: "'a task_scheme"
  assumes w: "window heap_page s" and ok: "paging_ok s" and on: "bit (cr0 s) 31"
    and id: "\<forall>x \<in> heap_page. translate s x = Some x"
  shows "keeps heap_page {} s (remapped 0x1000000 0x1000000 s)"
proof -
  let ?t = "remapped 0x1000000 0x1000000 s"
  note pr = heap_slot_present [OF w on]
  have same: "translate s a = Some (frame_of 0x1000000 OR (a AND 0xFFF))" if "a \<in> heap_page" for a
    using id that identity_offset [OF that] by (simp add: heap_base_frame)
  note m = remapped_window [OF w ok pr on same]
  have tr: "translate ?t x = translate s x" for x using remap_translate [OF w ok on, of x] id by simp
  show ?thesis unfolding keeps_def using m(1,3) tr remapped_present(1,3) [OF ok pr, of "0x1000000"]
    by (simp add: fun_eq_iff)
qed

section \<open>create_task\<close>

lemma task_stacks_run:
  fixes s :: "'a task_scheme"
  assumes h: "heap_holds ms s" and fits: "extent ms + 2072 + 12 \<le> 4096"
    and ok: "paging_ok s" and on: "bit (cr0 s) 31" and see: "sees_tables 0x1000000 s"
  defines "HD \<equiv> headers (laid 0x1000000 (ms @ [1024, 1024]) @ [rest_chunk (ms @ [1024, 1024])])"
  shows "\<exists>u. task_stacks s = Some ((of_nat (0x1000000 + extent ms + 12) + 1024, of_nat (0x1000000 + extent ms + 1048) + 1024),
       remapped 0x1000000 0x1000000 u) \<and> heap_holds (ms @ [1024, 1024]) u \<and> edits heap_page HD s u"
proof -
  have f1: "extent ms + 12 + 1024 + 12 \<le> 4096" and f2: "extent (ms @ [1024]) + 12 + 1024 + 12 \<le> 4096"
    using fits by simp_all
  from kmalloc_laid [OF h f1] obtain s1 where s1: "kmalloc 1024 s = Some (of_nat (0x1000000 + extent ms + 12), s1)"
    "heap_holds (ms @ [1024]) s1" "edits heap_page (headers (laid 0x1000000 (ms @ [1024]) @ [rest_chunk (ms @ [1024])])) s s1"
    by auto
  from kmalloc_laid [OF s1(2) f2] obtain s2 where
    s2: "kmalloc 1024 s1 = Some (of_nat (0x1000000 + extent ms + 1048), s2)"
    "heap_holds (ms @ [1024, 1024]) s2" "edits heap_page HD s1 s2" by (auto simp: HD_def add_ac)
  have "headers (laid 0x1000000 (ms @ [1024]) @ [rest_chunk (ms @ [1024])]) \<subseteq> HD"
    by (auto simp: HD_def laid_append rest_chunk_def)
  then have "edits heap_page HD s s2" using edits_trans [OF edits_mono [OF s1(3)] s2(3)] by simp
  moreover have "of_nat (0x1000000 + extent ms + 1048) AND NOT 0xFFF = (0x1000000 :: u32)"
    using user_stack_page [of "extent ms + 1048"] fits by (simp add: add.assoc)
  moreover have "map_page 0x1000000 0x1000000 s2 = Some (remapped 0x1000000 0x1000000 s2)"
  proof (rule map_page_remaps)
    have w: "window heap_page s" "window heap_page s2" using h s2(2) by (simp_all add: heap_holds_def)
    have e: "edits heap_page HD s s2" by fact
    show "paging_ok s2" by (rule edits_paging_ok [OF e ok])
    show "cr3 s2 = kernel_directory s2" using w(2) by (simp add: window_def)
    show "sees_tables 0x1000000 s2"
      using sees_tables_agree [OF w(1) _ edits_fields(2) [OF e] _ heap_slot_present [OF w(1) on]] e see
      by (simp add: edits_def)
  qed
  ultimately show ?thesis using s1(1) s2(1,2)
    by (intro exI [of _ s2]) (simp add: task_stacks_def Let_def)
qed

text \<open>The stacks and the frame on them.\<close>

lemma forged_stacks:
  fixes s :: "'a task_scheme"
  assumes h: "heap_holds ms s" and fits: "extent ms + 2084 \<le> 4096" and on: "bit (cr0 s) 31" and ok: "paging_ok s"
    and see: "sees_tables 0x1000000 s" and id: "\<forall>x \<in> heap_page. translate s x = Some x"
  defines "b \<equiv> of_nat (0x1000000 + (extent ms + 12)) :: u32"
    and "us \<equiv> of_nat (0x1000000 + extent ms + 1048) + 1024 :: u32"
    and "HD \<equiv> headers (laid 0x1000000 (ms @ [1024, 1024]) @ [rest_chunk (ms @ [1024, 1024])])"
  shows "\<exists>u t. task_stacks s = Some ((b + 1024, us), u) \<and> forge_frame (b + 1024) us ep u = Some (b + 972, t) \<and>
     heap_holds (ms @ [1024, 1024]) t \<and> keeps heap_page (HD \<union> span b 1024) s t \<and>
     suspended heap_page t (b + 972) (newborn ep us) \<and> current_task t = current_task s \<and> next_pid t = next_pid s \<and>
     tss t = tss s \<and> gdt_entries t = gdt_entries s"
proof -
  have b: "of_nat (0x1000000 + extent ms + 12) + 1024 = b + 1024" by (simp add: b_def add.assoc)
  have f: "extent ms + 2072 + 12 \<le> 4096" using fits by simp
  from task_stacks_run [OF h f ok on see, folded HD_def] obtain u where
    u: "task_stacks s = Some ((b + 1024, us), remapped 0x1000000 0x1000000 u)" "heap_holds (ms @ [1024, 1024]) u"
      "edits heap_page HD s u" unfolding b us_def by blast
  define v where "v = remapped 0x1000000 0x1000000 u"
  have tu: "\<forall>x \<in> heap_page. translate u x = Some x" "bit (cr0 u) 31"
    using id u(3) edits_fields(5) [OF u(3)] on by (simp_all add: edits_def)
  have kv: "keeps heap_page {} u v"
    unfolding v_def by (rule remap_keeps [OF edits_window [OF u(3)] edits_paging_ok [OF u(3) ok] tu(2,1)])
  have bb: "span b 1024 \<inter> HD = {}" "span b 1024 \<subseteq> heap_page"
    using block_apart [of ms 1024 "[1024]" "extent ms + 12" 1024] fits by (simp_all add: b_def HD_def)
  from forged_frame [OF keeps_window [OF kv] bb(2), of us ep] obtain t where
    t: "forge_frame (b + 1024) us ep v = Some (b + 972, t)" "edits heap_page (span b 1024) v t"
      "suspended heap_page t (b + 972) (newborn ep us)" by blast
  have kt: "keeps heap_page (span b 1024) u t" using keeps_trans [OF kv keeps_edits [OF t(2)]] by simp
  have "heap_holds (ms @ [1024, 1024]) t"
    by (rule heap_holds_keeps [OF u(2) kt]) (use fits bb(1) in \<open>simp_all add: HD_def\<close>)
  moreover have "keeps heap_page (HD \<union> span b 1024) s t" by (rule keeps_trans [OF keeps_edits [OF u(3)] kt])
  moreover have "current_task t = current_task s" "next_pid t = next_pid s" "tss t = tss s" "gdt_entries t = gdt_entries s"
    using edits_task_fields [OF t(2)] edits_task_fields [OF u(3)] edits_gdt [OF t(2)] edits_gdt [OF u(3)]
    by (simp_all add: v_def)
  ultimately show ?thesis using u(1) t(1,3) unfolding v_def by blast
qed

text \<open>The structure.\<close>

lemma link_task_writes:
  fixes s :: "'a task_scheme"
  assumes w: "window W s" and n: "span n 16 \<subseteq> W" and c: "span (current_task s) 16 \<subseteq> W" "span (current_task s) 16 \<inter> span n 16 = {}"
  shows "\<exists>v. link_task n k s = Some (put32 (current_task s + 12) n v) \<and> keeps W (span n 16) s v \<and>
     t_id v n = next_pid s \<and> t_esp v n = k \<and> t_page_dire v n = kernel_directory s \<and> t_next v n = t_next s (current_task s) \<and>
     current_task v = current_task s \<and> next_pid v = next_pid s + 1 \<and> tss v = tss s \<and> gdt_entries v = gdt_entries s"
proof -
  note o = owns_struct [OF n] and oc = owns_struct [OF c(1)] and sp = struct_parts [of n] and L = vm.laws [of W]
  define v1 where "v1 = put32 n (next_pid s) s"
  define v2 where "v2 = put32 (n + 8) (kernel_directory s) (put32 (n + 4) k (v1\<lparr>next_pid := next_pid s + 1\<rparr>))"
  define v where "v = put32 (n + 12) (t_next v2 (current_task s)) v2"
  have k1: "keeps W (span n 16) s v1" unfolding v1_def using o sp by (intro keeps_put keeps_refl w) auto
  have k2: "keeps W (span n 16) s v2" unfolding v2_def using o sp by (intro keeps_put keeps_view [OF k1]) auto
  have kv: "keeps W (span n 16) s v" unfolding v_def using o sp by (intro keeps_put k2) auto
  note ws = keeps_window [OF k1] keeps_window [OF k2] keeps_window [OF kv]
  have nx: "t_next v2 (current_task s) = t_next s (current_task s)" by (rule keeps_struct(4) [OF k2 c])
  have f: "current_task v1 = current_task s" "current_task v2 = current_task s" "kernel_directory v1 = kernel_directory s"
    "kernel_directory v2 = kernel_directory s" "next_pid v1 = next_pid s" by (simp_all add: v1_def v2_def)
  have "link_task n k s = Some (put32 (current_task s + 12) n v)"
    unfolding link_task_def using w ws o oc f
    by (simp add: L v1_def [symmetric]) (simp add: L v2_def [symmetric] t_next_def [symmetric] v_def f)
  moreover have "t_page_dire v n = kernel_directory s" "t_next v n = t_next s (current_task s)" "t_esp v n = k" "t_id v n = next_pid s"
    using w ws o nx
    by (simp_all add: t_page_dire_def t_next_def t_esp_def t_id_def v_def v2_def L) (simp_all add: v1_def L)
  moreover have "current_task v = current_task s" "next_pid v = next_pid s + 1" "tss v = tss s" "gdt_entries v = gdt_entries s"
    by (simp_all add: v_def v2_def v1_def put32_def)
  ultimately show ?thesis using kv by blast
qed

text \<open>Where the kernel stack \<open>b\<close> and the structure \<open>n\<close> of a new task lie in the heap.\<close>

lemma new_blocks:
  assumes fits: "extent ms + 2112 \<le> 4096"
  defines "b \<equiv> of_nat (0x1000000 + (extent ms + 12)) :: u32"
    and "n \<equiv> of_nat (0x1000000 + (extent ms + 2084)) :: u32"
    and "HD \<equiv> headers (laid 0x1000000 (ms @ [1024, 1024, 16]) @ [rest_chunk (ms @ [1024, 1024, 16])])"
  shows "span n 16 \<inter> HD = {}" "span n 16 \<subseteq> heap_page" "span b 1024 \<inter> HD = {}" "span b 1024 \<inter> span n 16 = {}"
    "n \<noteq> 0" "b + 972 \<noteq> 0" "span (b + 972) 52 \<subseteq> span b 1024"
    "span (b + 972) 52 \<union> span n 16 \<subseteq> span 0x1000000 (extent ms + 2112)"
    "block_in (ms @ [1024, 1024, 16]) n"
proof -
  show "span n 16 \<inter> HD = {}" "span n 16 \<subseteq> heap_page" "span b 1024 \<inter> HD = {}" "span b 1024 \<inter> span n 16 = {}"
    using block_apart [of "ms @ [1024, 1024]" 16 "[]" "extent ms + 2084" 16]
      block_apart [of ms 1024 "[1024, 16]" "extent ms + 12" 1024] fits
      spans_apart [of "0x1000000 + (extent ms + 12)" 1024 "0x1000000 + (extent ms + 2084)" 16]
    by (simp_all add: n_def b_def HD_def del: of_nat_add of_nat_numeral)
  have "unat n = 0x1000000 + (extent ms + 2084)"
    unfolding n_def using fits by (simp add: unat_of_nat del: of_nat_add of_nat_numeral)
  then show "n \<noteq> 0" by auto
  have "unat (b + 972) = 0x1000000 + (extent ms + 984)"
    unfolding b_def using fits by (simp add: unat_word_ariths unat_of_nat del: of_nat_add of_nat_numeral)
  then show "b + 972 \<noteq> 0" by auto
  show "span (b + 972) 52 \<subseteq> span b 1024" using span_sub [of 972 52 1024 b] by simp
  have "span (b + 972) 52 \<subseteq> span 0x1000000 (extent ms + 2112)" "span n 16 \<subseteq> span 0x1000000 (extent ms + 2112)"
    using span_sub [of "extent ms + 984" 52 "extent ms + 2112" "0x1000000"]
      span_sub [of "extent ms + 2084" 16 "extent ms + 2112" "0x1000000"] by (simp_all add: b_def n_def)
  then show "span (b + 972) 52 \<union> span n 16 \<subseteq> span 0x1000000 (extent ms + 2112)" by blast
  show "block_in (ms @ [1024, 1024, 16]) n" unfolding block_in_def
    by (intro exI [of _ "ms @ [1024, 1024]"] exI [of _ 16] exI [of _ "[]"]) (simp add: n_def add.assoc)
qed

lemma old_blocks:
  assumes fits: "extent ms + 2112 \<le> 4096" and p: "block_in ms p"
  shows "span p 16 \<subseteq> heap_page"
    "span p 16 \<inter> headers (laid 0x1000000 (ms @ [1024, 1024, 16]) @ [rest_chunk (ms @ [1024, 1024, 16])]) = {}"
    "span p 16 \<inter> span (of_nat (0x1000000 + (extent ms + 12))) 1024 = {}"
    "span p 16 \<inter> span (of_nat (0x1000000 + (extent ms + 2084))) 16 = {}"
proof -
  have "extent (ms @ [1024, 1024, 16]) + 12 \<le> 4096" using fits by simp
  note bi = block_in_facts [OF p this]
  show "span p 16 \<subseteq> heap_page"
    "span p 16 \<inter> headers (laid 0x1000000 (ms @ [1024, 1024, 16]) @ [rest_chunk (ms @ [1024, 1024, 16])]) = {}"
    by (rule bi)+
  show "span p 16 \<inter> span (of_nat (0x1000000 + (extent ms + 12))) 1024 = {}"
    "span p 16 \<inter> span (of_nat (0x1000000 + (extent ms + 2084))) 16 = {}"
    by (rule bi(3); use fits in simp)+
qed

text \<open>The three allocations: the frame is forged in the first block, the structure comes last.\<close>

lemma blocks_forged:
  fixes s :: "'a task_scheme"
  assumes h: "heap_holds ms s" and fits: "extent ms + 2112 \<le> 4096" and on: "bit (cr0 s) 31" and ok: "paging_ok s"
    and see: "sees_tables 0x1000000 s" and id: "\<forall>x \<in> heap_page. translate s x = Some x"
  defines "b \<equiv> of_nat (0x1000000 + (extent ms + 12)) :: u32"
    and "us \<equiv> of_nat (0x1000000 + extent ms + 1048) + 1024 :: u32"
    and "n \<equiv> of_nat (0x1000000 + (extent ms + 2084)) :: u32"
    and "HD \<equiv> headers (laid 0x1000000 (ms @ [1024, 1024, 16]) @ [rest_chunk (ms @ [1024, 1024, 16])])"
  shows "\<exists>u s4 s5. task_stacks s = Some ((b + 1024, us), u) \<and> forge_frame (b + 1024) us ep u = Some (b + 972, s4) \<and>
     kmalloc 16 s4 = Some (n, s5) \<and> heap_holds (ms @ [1024, 1024, 16]) s5 \<and>
     keeps heap_page (HD \<union> span b 1024) s s5 \<and> suspended heap_page s5 (b + 972) (newborn ep us) \<and>
     current_task s5 = current_task s \<and> next_pid s5 = next_pid s \<and> tss s5 = tss s \<and> gdt_entries s5 = gdt_entries s"
proof -
  let ?ms2 = "ms @ [1024, 1024]"
  define HD2 where "HD2 = headers (laid 0x1000000 ?ms2 @ [rest_chunk ?ms2])"
  have HD2: "HD2 \<subseteq> HD" by (auto simp: HD_def HD2_def laid_append rest_chunk_def)
  have "extent ms + 2084 \<le> 4096" using fits by simp
  from forged_stacks [OF h this on ok see id, of ep, folded b_def us_def HD2_def] obtain u s4 where
    s4: "task_stacks s = Some ((b + 1024, us), u)" "forge_frame (b + 1024) us ep u = Some (b + 972, s4)"
      "heap_holds ?ms2 s4" "keeps heap_page (HD2 \<union> span b 1024) s s4" "suspended heap_page s4 (b + 972) (newborn ep us)"
      "current_task s4 = current_task s" "next_pid s4 = next_pid s" "tss s4 = tss s" "gdt_entries s4 = gdt_entries s" by blast
  have "extent ?ms2 + 12 + 16 + 12 \<le> 4096" using fits by simp
  from kmalloc_laid [OF s4(3) this] obtain s5 where
    s5: "kmalloc 16 s4 = Some (n, s5)" "heap_holds (ms @ [1024, 1024, 16]) s5" "edits heap_page HD s4 s5"
    by (auto simp: n_def HD_def add_ac)
  have "keeps heap_page (HD \<union> span b 1024) s s5"
    using keeps_trans [OF s4(4) keeps_edits [OF s5(3)]] HD2 by (auto intro: keeps_mono)
  moreover note nb = new_blocks [OF fits, folded b_def n_def HD_def]
  have "span (b + 972) 52 \<inter> HD = {}" using nb(3,7) by blast
  then have "suspended heap_page s5 (b + 972) (newborn ep us)"
    by (intro suspended_keeps [OF keeps_edits [OF s5(3)] s4(5)]) simp
  moreover have "current_task s5 = current_task s" "next_pid s5 = next_pid s" "tss s5 = tss s" "gdt_entries s5 = gdt_entries s"
    using edits_task_fields [OF s5(3)] edits_gdt [OF s5(3)] s4 by simp_all
  ultimately show ?thesis using s4(1,2) s5 by blast
qed

lemma create_task_enters_ring:
  fixes s :: "'a task_scheme"
  assumes h: "heap_holds ms s" and fits: "extent ms + 2112 \<le> 4096" and on: "bit (cr0 s) 31" and ok: "paging_ok s"
    and see: "sees_tables 0x1000000 s" and id: "\<forall>x \<in> heap_page. translate s x = Some x"
    and r: "ring_of heap_page s q" and blocks: "\<forall>p \<in> fst ` set q. block_in ms p"
  defines "b \<equiv> of_nat (0x1000000 + (extent ms + 12)) :: u32"
    and "us \<equiv> of_nat (0x1000000 + extent ms + 1048) + 1024 :: u32"
    and "n \<equiv> of_nat (0x1000000 + (extent ms + 2084)) :: u32"
  shows "\<exists>t. create_task ep s = Some t \<and> heap_holds (ms @ [1024, 1024, 16]) t \<and>
     ring_of heap_page t (hd q # (n, b + 972) # tl q) \<and> block_in (ms @ [1024, 1024, 16]) n \<and>
     t_id t n = next_pid s \<and> next_pid t = next_pid s + 1 \<and> suspended heap_page t (b + 972) (newborn ep us) \<and>
     (\<forall>p \<in> insert n (fst ` set q). span (b + 972) 52 \<inter> span p 16 = {}) \<and> b + 972 \<noteq> 0 \<and>
     span (b + 972) 52 \<union> span n 16 \<subseteq> span 0x1000000 (extent ms + 2112) \<and>
     tss t = tss s \<and> gdt_entries t = gdt_entries s"
proof -
  let ?ms3 = "ms @ [1024, 1024, 16]" and ?c = "current_task s"
  define HD where "HD = headers (laid 0x1000000 ?ms3 @ [rest_chunk ?ms3])"
  from blocks_forged [OF h fits on ok see id, of ep, folded b_def us_def n_def HD_def] obtain u s4 s5 where
    s4: "task_stacks s = Some ((b + 1024, us), u)" "forge_frame (b + 1024) us ep u = Some (b + 972, s4)" and
    s5: "kmalloc 16 s4 = Some (n, s5)" "heap_holds ?ms3 s5" and
    k5: "keeps heap_page (HD \<union> span b 1024) s s5" and su: "suspended heap_page s5 (b + 972) (newborn ep us)" and
    f5: "current_task s5 = ?c" "next_pid s5 = next_pid s" "tss s5 = tss s" "gdt_entries s5 = gdt_entries s" by blast
  note nb = new_blocks [OF fits, folded b_def n_def HD_def]
  have bf: "span p 16 \<subseteq> heap_page" "span p 16 \<inter> HD = {}" "span p 16 \<inter> span b 1024 = {}" "span p 16 \<inter> span n 16 = {}"
    if "p \<in> fst ` set q" for p
    using old_blocks [OF fits, of p, folded b_def n_def HD_def] blocks that by blast+
  have cq: "?c \<in> fst ` set q" and cur: "fst (hd q) = ?c" using ring_in(3,4) [OF r] by simp_all
  have w5: "window heap_page s5" using s5(2) by (simp add: heap_holds_def)
  note cw = bf [OF cq]
  from link_task_writes [OF w5 nb(2), unfolded f5, OF cw(1,4), of "b + 972"] obtain v where
    v: "link_task n (b + 972) s5 = Some (put32 (?c + 12) n v)" "keeps heap_page (span n 16) s5 v"
      "t_id v n = next_pid s" "t_esp v n = b + 972" "t_page_dire v n = kernel_directory s5" "t_next v n = t_next s5 ?c"
      "current_task v = ?c" "next_pid v = next_pid s + 1" "tss v = tss s" "gdt_entries v = gdt_entries s" by blast
  define t where "t = put32 (?c + 12) n v"
  have kv: "keeps heap_page (HD \<union> span b 1024 \<union> span n 16) s v" by (rule keeps_trans [OF k5 v(2)])
  have far: "span p 16 \<inter> (HD \<union> span b 1024 \<union> span n 16) = {}" if "p \<in> fst ` set q" for p using bf [OF that] by blast
  have kd: "kernel_directory s5 = kernel_directory s" and nx: "t_next s5 ?c = t_next s ?c"
    using k5 keeps_struct(4) [OF k5 cw(1)] cw(2,3) by (auto simp: keeps_def)
  have ring: "ring_of heap_page t (hd q # (n, b + 972) # tl q)"
    using ring_insert [OF r kv _ nb(2) nb(5) _ v(7)] far bf(4) v(4-6) kd nx by (simp add: cur t_def)
  have kc: "keeps heap_page (span (?c + 12) 4) v t"
    unfolding t_def using owns_struct [OF cw(1)] by (intro keeps_put keeps_refl keeps_window [OF v(2)]) auto
  note kt = keeps_trans [OF v(2) kc] and c12 = struct_parts(4) [of ?c]
  have "(span n 16 \<union> span (?c + 12) 4) \<inter> HD = {}" using nb(1) cw(2) c12 by blast
  then have "heap_holds ?ms3 t"
    unfolding HD_def by (rule heap_holds_keeps [OF s5(2) kt, rotated]) (use fits in simp)
  moreover
  have fr: "\<forall>p \<in> insert n (fst ` set q). span (b + 972) 52 \<inter> span p 16 = {}"
    using nb(7) nb(4) bf(3) by blast
  have "span (b + 972) 52 \<inter> (span n 16 \<union> span (?c + 12) 4) = {}" using nb(7) nb(4) cw(3) c12 by blast
  then have "suspended heap_page t (b + 972) (newborn ep us)" by (intro suspended_keeps [OF kt su]) simp
  moreover have "span n 16 \<inter> span (?c + 12) 4 = {}" using cw(4) c12 by blast
  from keeps_struct(1) [OF kc nb(2) this] v(3) have "t_id t n = next_pid s" by simp
  moreover note nb(9)
  moreover have "create_task ep s = Some t"
    using s4(1,2) s5(1) v(1) by (simp add: create_task_def sizeof_task_t_def t_def)
  moreover have "next_pid t = next_pid s + 1" "tss t = tss s" "gdt_entries t = gdt_entries s" using v by (simp_all add: t_def put32_def)
  ultimately show ?thesis using ring fr nb(6,8) by (intro exI [of _ t] conjI)
qed

section \<open>Properties\<close>

text \<open>C10: When the heap page is mapped onto itself, as the tables behind it are, and has room, \<open>create_task\<close> adds a task with a
  fresh process number behind the running task in the ring, and all other tasks keep their places.
  Its saved stack pointer leads to a frame from which \<open>popa\<close> and \<open>iret\<close> enter the given
  address in ring 3, with interrupts on, all registers zero and the stack pointer at the top of
  the task's user stack.\<close>

theorem create_task_spec:
  fixes s :: "'a task_scheme"
  assumes "heap_holds ms s" and "extent ms + 2112 \<le> 4096" and "bit (cr0 s) 31" and "paging_ok s"
    and "sees_tables 0x1000000 s" and "\<forall>x \<in> heap_page. translate s x = Some x"
    and "ring_of heap_page s q" and "\<forall>p \<in> fst ` set q. block_in ms p"
  shows "\<exists>t n k us. create_task ep s = Some t \<and> heap_holds (ms @ [1024, 1024, 16]) t \<and>
     ring_of heap_page t (hd q # (n, k) # tl q) \<and> t_id t n = next_pid s \<and> next_pid t = next_pid s + 1 \<and>
     (\<forall>d. r_esp d = k \<longrightarrow> do { d \<leftarrow> popa d t; iret d t } =
        Some \<lparr>r_edi = 0, r_esi = 0, r_ebp = 0, r_ebx = 0, r_edx = 0, r_ecx = 0, r_eax = 0,
          r_eip = ep, r_eflags = 0x202, r_esp = us, r_cs = 0x1B, r_ss = 0x23\<rparr>) \<and>
     us = of_nat (0x1000000 + extent (ms @ [1024, 1024]))"
proof -
  have us: "of_nat (0x1000000 + extent ms + 1048) + 1024 = (of_nat (0x1000000 + extent (ms @ [1024, 1024])) :: u32)" by simp
  obtain t n k where t: "create_task ep s = Some t" "heap_holds (ms @ [1024, 1024, 16]) t"
    "ring_of heap_page t (hd q # (n, k) # tl q)" "t_id t n = next_pid s" "next_pid t = next_pid s + 1"
    "suspended heap_page t k (newborn ep (of_nat (0x1000000 + extent (ms @ [1024, 1024]))))"
    using create_task_enters_ring [OF assms, of ep] unfolding us by blast
  note suspended_resumes [OF ring_in(2) [OF t(3)] t(6)]
  then show ?thesis using t(1-5) newborn_ring3 unfolding newborn_def by force
qed

theorem create_task_spec_witness:
  "\<exists>(s :: timer) t n k. ring_of heap_page s [(0x100000C, 0)] \<and> create_task 0x105000 s = Some t \<and>
     ring_of heap_page t [(0x100000C, 0), (n, k)] \<and> t_id t n = next_pid s"
proof -
  obtain s :: timer where s: "heap_holds [16] s" "ring_of heap_page s [(0x100000C, 0)]" "bit (cr0 s) 31"
    "\<forall>x \<in> heap_page. translate s x = Some x" "paging_ok s" "sees_tables 0x1000000 s" using ram32_boot by blast
  have b: "\<forall>p \<in> fst ` set [(0x100000C, 0 :: u32)]. block_in [16] p"
    by (simp add: block_in_def) (rule exI [of _ "[]"], simp)
  have f: "extent [16] + 2112 \<le> 4096" by simp
  from create_task_spec [OF s(1) f s(3,5,6,4,2) b, of "0x105000"] obtain t n k where
    "create_task 0x105000 s = Some t" "ring_of heap_page t (hd [(0x100000C, 0)] # (n, k) # tl [(0x100000C, 0)])" "t_id t n = next_pid s"
    by blast
  then show ?thesis using s(2) by (intro exI [of _ s] exI [of _ t] exI [of _ n] exI [of _ k]) simp
qed

text \<open>The call \<open>map_page(aligned_stack_addr, aligned_stack_addr)\<close> that opens the user stack to
  ring 3 maps the heap page onto the frame with the same number. After it every address of the
  heap page translates to itself, and unless that frame was the heap's, the kernel no longer sees
  its heap there: all chunk headers and task structures have changed to what the frame at 16 MB
  held before.\<close>

theorem create_task_loses_heap:
  fixes s :: "'a task_scheme"
  assumes "heap_holds ms s" and "extent ms + 2084 \<le> 4096" and "bit (cr0 s) 31" and "paging_ok s"
    and "sees_tables 0x1000000 s"
  shows "\<exists>r t. task_stacks s = Some (r, t) \<and> current_task t = current_task s \<and> (\<forall>x \<in> heap_page. translate t x = Some x) \<and>
     (\<forall>x \<in> heap_page. x \<notin> phys s ` heap_page \<longrightarrow> x \<notin> frame_bytes (frames (mem s) (kernel_directory s)) \<longrightarrow>
        vmem t x = mem s x)"
proof -
  have f: "extent ms + 2072 + 12 \<le> 4096" using assms(2) by simp
  obtain u HD r where u: "task_stacks s = Some (r, remapped 0x1000000 0x1000000 u)" "heap_holds (ms @ [1024, 1024]) u"
    "edits heap_page HD s u" using task_stacks_run [OF assms(1) f assms(4,3,5)] by blast
  let ?t = "remapped 0x1000000 0x1000000 u" and ?d = "kernel_directory s"
  have w: "window heap_page u" and on: "bit (cr0 u) 31" and kd: "kernel_directory u = ?d"
    using edits_window [OF u(3)] edits_fields [OF u(3)] assms(3) by simp_all
  have ok: "paging_ok u" by (rule edits_paging_ok [OF u(3) assms(4)])
  have agu: "agree (- phys s ` heap_page) (mem s) (mem u)" using u(3) by (simp add: edits_def)
  have ws: "window heap_page s" using assms(1) by (simp add: heap_holds_def)
  then have "frame_bytes (frames (mem s) ?d) \<subseteq> - phys s ` heap_page" by (auto simp: window_def)
  from structure_agree(4) [OF agree_mono [OF agu this]]
  have fr: "frames (mem u) ?d = frames (mem s) ?d" .
  have tr: "translate ?t x = Some x" if "x \<in> heap_page" for x
    using remap_translate [OF w ok on, of x] that by simp
  have "vmem ?t x = mem s x" if x: "x \<in> heap_page" "x \<notin> phys s ` heap_page" "x \<notin> frame_bytes (frames (mem s) ?d)" for x
  proof -
    have "{x} \<inter> frame_bytes (frames (mem u) (kernel_directory u)) = {}" using x(3) fr kd by simp
    from remapped_present(7) [OF ok heap_slot_present [OF w on] this]
    have "mem ?t x = mem u x" by (simp add: agree_def)
    moreover have "mem u x = mem s x" using agu x(2) by (simp add: agree_def)
    ultimately show ?thesis using tr [OF x(1)] by (simp add: vmem_def)
  qed
  moreover have "current_task ?t = current_task s" using edits_task_fields [OF u(3)] by simp
  ultimately show ?thesis using u(1) tr by blast
qed

theorem create_task_loses_heap_witness:
  "\<exists>(s :: timer) r t. heap_holds [16] s \<and> task_stacks s = Some (r, t) \<and> (\<forall>x \<in> heap_page. translate t x = Some x)"
proof -
  obtain s :: timer where s: "heap_holds [16] s" "bit (cr0 s) 31" "paging_ok s" "sees_tables 0x1000000 s"
    using ram32_boot by blast
  have "extent [16] + 2084 \<le> 4096" by simp
  from create_task_loses_heap [OF s(1) this s(2-4)] s(1) show ?thesis by blast
qed

end
