(* ===== verification/Multitask.thy ===== *)
theory Multitask
  imports Spawn
begin

text \<open>
  Several programs on the processor: the timer interrupt together with the tasks of \<open>create_task\<close>.
  As long as no two tasks use one stack for their interrupts, the interrupts are an exact round robin of programs.
  The code has one ring 0 stack for all tasks, as \<open>task_t\<close> has no field for another, so this is the kernel with one
  task of ring 3; a second one overwrites the first. No frame holds the data segment.
\<close>

section \<open>A machine with two tasks\<close>

text \<open>The machine of \<open>Timer\<close> with segments and task state as \<open>gdt_init\<close> leaves them, and one task created.\<close>

definition flat_tables :: "gdt_entry list" where
  "flat_tables = [packed 0 0 0 0, packed 0 0xFFFFFFFF 0x9A 0xCF, packed 0 0xFFFFFFFF 0x92 0xCF,
     packed 0 0xFFFFFFFF 0xFA 0xCF, packed 0 0xFFFFFFFF 0xF2 0xCF, packed 0 0 0 0]"

lemma ram32_flat:
  "\<exists>s :: timer. heap_holds [16] s \<and> ring_of heap_page s [(0x100000C, 0)] \<and> bit (cr0 s) 31 \<and>
     (\<forall>x \<in> heap_page. translate s x = Some x) \<and> paging_ok s \<and> sees_tables 0x1000000 s \<and>
     gdt_entries s = flat_tables \<and> tss s = zero_tss\<lparr>ss0 := 0x10, esp0 := 0x1001000\<rparr>"
proof -
  obtain s :: timer where s: "heap_holds [16] s" "ring_of heap_page s [(0x100000C, 0)]" "bit (cr0 s) 31"
    "\<forall>x \<in> heap_page. translate s x = Some x" "paging_ok s" "sees_tables 0x1000000 s" using ram32_boot by blast
  define t where "t = s\<lparr>gdt_entries := flat_tables, tss := zero_tss\<lparr>ss0 := 0x10, esp0 := 0x1001000\<rparr>\<rparr>"
  have v: "translate t = translate s" "vmem t = vmem s" "window W t = window W s" "free_blocks t = free_blocks s"
    "paging_ok t = paging_ok s" for W by (rule view_cong; simp add: t_def)+
  have f: "mem t = mem s" "kernel_directory t = kernel_directory s" "bitmap_span t = bitmap_span s" "heap_first t = heap_first s"
    "cr0 t = cr0 s" by (simp_all add: t_def bitmap_span_def)
  have "heap_holds [16] t" using s(1) v f by (simp add: heap_holds_def)
  moreover have "ring_of heap_page t [(0x100000C, 0)]" using s(2) v by (subst ring_cong [of t s]) (simp_all add: t_def)
  moreover have "sees_tables 0x1000000 t"
  proof -
    have m: "self_mapped t A = self_mapped s A" "next_apart t = next_apart s" for A
      using v f by (simp_all add: self_mapped_def next_apart_def)
    show ?thesis using s(6) by (simp only: sees_tables_def f v m)
  qed
  moreover have "gdt_entries t = flat_tables" "tss t = zero_tss\<lparr>ss0 := 0x10, esp0 := 0x1001000\<rparr>" by (simp_all add: t_def)
  ultimately show ?thesis using s(3-5) v f by (intro exI [of _ t]) simp
qed


lemma flat_selectors:
  "gdt_entries s = flat_tables \<Longrightarrow> seg_dpl (gdt_entries s ! sel_index 0x10) = 0"
  "gdt_entries s = flat_tables \<Longrightarrow> flat_ds 0x23 s" "\<not> null_selector 0x10"
  by (simp_all add: flat_tables_def flat_ds_def null_selector_def sel_index_def seg_dpl_def drop_bit_eq_div)

lemma block_16: "block_in [16] 0x100000C"
  by (simp add: block_in_def) (rule exI [of _ "[]"], simp)

lemma spawned:
  "\<exists>t :: timer. window heap_page t \<and> ring_of heap_page t [(0x100000C, 0), (0x1000840, 0x10003F4)] \<and>
     suspended heap_page t 0x10003F4 (newborn 0x105000 0x1000834) \<and>
     gdt_entries t = flat_tables \<and> tss t = zero_tss\<lparr>ss0 := 0x10, esp0 := 0x1001000\<rparr>"
proof -
  obtain s :: timer where s: "heap_holds [16] s" "ring_of heap_page s [(0x100000C, 0)]" "bit (cr0 s) 31"
    "\<forall>x \<in> heap_page. translate s x = Some x" "paging_ok s" "sees_tables 0x1000000 s"
    "gdt_entries s = flat_tables" "tss s = zero_tss\<lparr>ss0 := 0x10, esp0 := 0x1001000\<rparr>" using ram32_flat by blast
  have b: "\<forall>p \<in> fst ` set [(0x100000C, 0 :: u32)]. block_in [16] p" using block_16 by simp
  have f: "extent [16] + 2112 \<le> 4096" by simp
  from create_task_enters_ring [OF s(1) f s(3,5,6,4,2) b, of "0x105000"] s(7,8) ring_in(2)
  show ?thesis by fastforce
qed

lemma heap_apart:
  "a + m \<le> b \<Longrightarrow> b + k \<le> 0x1001000 \<Longrightarrow> span (of_nat a) m \<inter> span (of_nat b) k = {} \<and> span (of_nat b) k \<inter> span (of_nat a) m = {}"
  using spans_apart [of a m b k] by blast

text \<open>The kernel, interrupted on the stack it runs on, and the one task of ring 3, interrupted on the ring 0 stack of the
  task state; its first frame lies in the block that \<open>create_task\<close> took for it.\<close>

definition demo_top :: "u32 \<Rightarrow> u32" where
  "demo_top p = 0x1001000"

definition demo_stack :: "u32 \<Rightarrow> u32 set" where
  "demo_stack p = (if p = 0x1000840 then span 0x1000028 1024 \<union> span 0x1000F00 256 else span 0x1000900 1536)"

lemma demo_stacks: "stacks_apart (\<lambda>_. 0) demo_top demo_stack heap_page {0x100000C, 0x1000840}"
  using heap_page_sub [of 40 1024] heap_page_sub [of 2304 1536] heap_page_sub [of 3840 256]
    heap_apart [of "0x100000C" 16 "0x1000028" 1024] heap_apart [of "0x100000C" 16 "0x1000900" 1536]
    heap_apart [of "0x100000C" 16 "0x1000F00" 256] heap_apart [of "0x1000840" 16 "0x1000F00" 256]
    heap_apart [of "0x1000028" 1024 "0x1000840" 16] heap_apart [of "0x1000840" 16 "0x1000900" 1536]
    heap_apart [of "0x1000028" 1024 "0x1000900" 1536] heap_apart [of "0x1000900" 1536 "0x1000F00" 256]
  by (simp add: stacks_apart_def demo_top_def demo_stack_def Int_Un_distrib Int_Un_distrib2)

text \<open>The kernel at some place of its code, with its stack in the upper part of the heap page.\<close>

definition kernel_cpu :: cpu where
  "kernel_cpu = (newborn 0x100000 0x1000F00)\<lparr>r_cs := 0x08, r_ss := 0x10\<rparr>"

lemma demo_fits:
  "fits_stack demo_top demo_stack 0x100000C kernel_cpu"
  "sel_rpl (r_cs d) = 3 \<Longrightarrow> fits_stack demo_top demo_stack 0x1000840 d"
proof -
  have "span 0x1000ED0 48 \<subseteq> span 0x1000900 1536" "span 0x1000FC8 56 \<subseteq> span 0x1000F00 256"
    using span_sub [of 1488 48 1536 "0x1000900"] span_sub [of 200 56 256 "0x1000F00"] by simp_all
  then show "fits_stack demo_top demo_stack 0x100000C kernel_cpu"
    "sel_rpl (r_cs d) = 3 \<Longrightarrow> fits_stack demo_top demo_stack 0x1000840 d"
    by (auto simp: fits_stack_def demo_top_def demo_stack_def kernel_cpu_def newborn_def frame_size_def sel_rpl_def Let_def)
qed

text \<open>What the handler reads where \<open>kernel_stack_top\<close> would be is taken to be 0.\<close>

abbreviation demo_queue :: "(u32 \<times> cpu) list" where
  "demo_queue \<equiv> [(0x100000C, kernel_cpu), (0x1000840, newborn 0x105000 0x1000834)]"

lemma demo_programs: "\<exists>t :: timer. programs (\<lambda>_. 0) demo_top demo_stack heap_page t demo_queue \<and> gdt_entries t = flat_tables"
proof -
  obtain t :: timer where t: "ring_of heap_page t [(0x100000C, 0), (0x1000840, 0x10003F4)]"
    "suspended heap_page t 0x10003F4 (newborn 0x105000 0x1000834)"
    "gdt_entries t = flat_tables" "tss t = zero_tss\<lparr>ss0 := 0x10, esp0 := 0x1001000\<rparr>" using spawned by blast
  have "t_esp t 0x1000840 = 0x10003F4" using t(1) by (simp add: ring_of_def)
  moreover have "span 0x10003F4 52 \<subseteq> span 0x1000028 1024" using span_sub [of 972 52 1024 "0x1000028"] by simp
  then have "span 0x10003F4 52 \<subseteq> demo_stack 0x1000840" by (auto simp: demo_stack_def)
  moreover have "ring_of heap_page t (map (saved_esp t) demo_queue)"
    by (rule ring_map_saved [OF t(1)]) simp
  ultimately have "programs (\<lambda>_. 0) demo_top demo_stack heap_page t demo_queue"
    using t(2,4) demo_stacks by (simp add: programs_def waits_def) (simp add: demo_top_def)
  with t(3) show ?thesis by blast
qed

section \<open>Properties\<close>

text \<open>C8: Under the timer interrupt the processor's programs take turns, as long as no two tasks are interrupted on the
  same stack; with the code as it is, where the ring 0 stack pointer never changes, that is the kernel and one task of
  ring 3, and with a \<open>kernel_stack_top\<close> for each task, any number. An interrupt of the program \<open>c\<close>, whose data
  segment is usable, puts it, with every register, the flags and the stack, at the end of the queue and continues the
  next program exactly where it was interrupted, except for the data segment register: that stays as \<open>c\<close> had it, or
  becomes null when it selects a segment of an inner ring.\<close>

theorem timer_switches_programs:
  assumes "programs kst ktop stk W s q" and "fits_stack ktop stk (fst (hd q)) c" and "\<not> null_selector ds"
  shows "\<exists>t. timer_interrupt kst c (ds, s) =
       Some (snd (hd (switch c q)), ds_after (snd (hd (switch c q))) ds s, t) \<and> programs kst ktop stk W t (switch c q)"
proof -
  obtain p c0 ys where q: "q = (p, c0) # ys" using assms(1) by (cases q) (auto simp: programs_def ring_of_def)
  with interrupt_programs [of kst ktop stk W s p c0 ys c ds] assms show ?thesis by (auto simp: switch_def)
qed

theorem timer_switches_programs_witness:
  "\<exists>(s :: timer) t. timer_interrupt (\<lambda>_. 0) kernel_cpu (0x10, s) = Some (newborn 0x105000 0x1000834, 0, t) \<and>
     programs (\<lambda>_. 0) demo_top demo_stack heap_page t [(0x1000840, newborn 0x105000 0x1000834), (0x100000C, kernel_cpu)]"
proof -
  obtain s :: timer where s: "programs (\<lambda>_. 0) demo_top demo_stack heap_page s demo_queue" "gdt_entries s = flat_tables"
    using demo_programs by blast
  have "fits_stack demo_top demo_stack (fst (hd demo_queue)) kernel_cpu" using demo_fits by simp
  moreover have "ds_after (newborn 0x105000 0x1000834) 0x10 s = 0"
    by (rule ds_dropped) (simp_all add: flat_selectors(1) [OF s(2)] newborn_def sel_rpl_def)
  ultimately show ?thesis using timer_switches_programs [OF s(1) _ flat_selectors(3), of kernel_cpu] by (auto simp: switch_def)
qed

text \<open>C25: Over as many timer interrupts as there are tasks, every program runs once: the interrupts resume, in
  ring order, each waiting program where it was interrupted, and at last the first one, with the registers
  it had when this round began. This needs stacks apart as in the step before, and that every program, when it is
  interrupted, has loaded a data segment it can use, which a new task must do itself.\<close>

theorem every_program_resumes:
  assumes "programs kst ktop stk W s q"
    and "list_all2 (\<lambda>x (c, ds). fits_stack ktop stk (fst x) c \<and> \<not> null_selector ds) q irqs"
  shows "\<exists>t. ticks (resumed kst) irqs s = Some (map snd (tl q) @ [fst (hd irqs)], t) \<and>
     programs kst ktop stk W t (zip (map fst q) (map fst irqs))"
  using pr.full_round [OF assms] by simp

theorem every_program_resumes_witness:
  "\<exists>(s :: timer) t. ticks (resumed (\<lambda>_. 0)) [(kernel_cpu, 0x10), (newborn 0x105004 0x1000800, 0x23)] s =
     Some ([newborn 0x105000 0x1000834, kernel_cpu], t)"
proof -
  obtain s :: timer where s: "programs (\<lambda>_. 0) demo_top demo_stack heap_page s demo_queue" using demo_programs by blast
  have "\<not> null_selector 0x23" by (simp add: null_selector_def sel_index_def drop_bit_eq_div)
  then have "list_all2 (\<lambda>x (c, ds). fits_stack demo_top demo_stack (fst x) c \<and> \<not> null_selector ds)
     demo_queue [(kernel_cpu, 0x10), (newborn 0x105004 0x1000800, 0x23)]"
    using demo_fits flat_selectors(3) by simp
  from every_program_resumes [OF s this] show ?thesis by auto
qed

text \<open>C26: Without the field \<open>kernel_stack_top\<close> all tasks of ring 3 are interrupted on one stack, and the second
  overwrites the registers of the first: of two tasks, after the program \<open>c\<close> of the first and then the program
  \<open>d\<close> of the second are interrupted, the first task goes on with the registers of \<open>d\<close>, and \<open>c\<close> is lost.\<close>

theorem one_stack_loses_program:
  fixes s :: "'a timer_scheme"
  assumes "ring_of W s [(p, x), (p', k)]" and "k \<noteq> 0" and "suspended W s k c'" and "ss0 (tss s) = 0x10"
    and "sel_rpl (r_cs c) \<noteq> 0" and "sel_rpl (r_cs d) \<noteq> 0"
    and "esp0 (tss s) \<noteq> 52" and "span (esp0 (tss s) - 56) 56 \<subseteq> W"
    and "span p 16 \<inter> span (esp0 (tss s) - 56) 56 = {}" and "span p' 16 \<inter> span (esp0 (tss s) - 56) 56 = {}"
    and "span k (frame_size c') \<inter> (span (esp0 (tss s) - 56) 56 \<union> span p 16) = {}" and "flat_ds ds s"
  shows "\<exists>t. ticks (timer_interrupt (\<lambda>_. 0)) [c, d] (ds, s) = Some ([c', d], ds, t)"
proof -
  have "esp0 (tss s) - 52 - 4 = esp0 (tss s) - 56" "esp0 (tss s) - 52 \<noteq> 0" using assms(7) by simp_all
  with shared_stack [OF assms(1-6)] assms(8-12) show ?thesis by simp
qed

theorem one_stack_loses_program_witness:
  "\<exists>(s :: timer) t. ticks (timer_interrupt (\<lambda>_. 0)) [newborn 0x104000 0x1000840, newborn 0x105004 0x1000800] (0x23, s) =
     Some ([newborn 0x105000 0x1000834, newborn 0x105004 0x1000800], t)"
proof -
  obtain s :: timer where s: "ring_of heap_page s [(0x100000C, 0), (0x1000840, 0x10003F4)]"
    "suspended heap_page s 0x10003F4 (newborn 0x105000 0x1000834)"
    "gdt_entries s = flat_tables" "tss s = zero_tss\<lparr>ss0 := 0x10, esp0 := 0x1001000\<rparr>" using spawned by blast
  have d: "span 0x1000FC8 56 \<subseteq> heap_page" "span 0x100000C 16 \<inter> span 0x1000FC8 56 = {}" "span 0x1000840 16 \<inter> span 0x1000FC8 56 = {}"
    "span 0x10003F4 52 \<inter> (span 0x1000FC8 56 \<union> span 0x100000C 16) = {}"
    using heap_page_sub [of 4040 56] heap_apart [of "0x100000C" 16 "0x1000FC8" 56] heap_apart [of "0x1000840" 16 "0x1000FC8" 56]
      heap_apart [of "0x10003F4" 52 "0x1000FC8" 56] heap_apart [of "0x100000C" 16 "0x10003F4" 52]
    by (simp_all add: Int_Un_distrib)
  have "\<exists>t. ticks (timer_interrupt (\<lambda>_. 0)) [newborn 0x104000 0x1000840, newborn 0x105004 0x1000800] (0x23, s) =
     Some ([newborn 0x105000 0x1000834, newborn 0x105004 0x1000800], 0x23, t)"
    by (rule one_stack_loses_program [OF s(1) _ s(2)]) (use s(3,4) d flat_selectors(2) in simp_all)
  then show ?thesis by blast
qed

text \<open>C27: A new task and its data segment: when a program with a ring 0 data segment, such as the kernel, is interrupted
  and a program with the frame that \<open>create_task\<close> forges is next, and the two have different stacks for their
  interrupts, the new program starts at its entry point with a null data segment, since the return to ring 3 clears
  the register and neither the stub nor \<open>create_task\<close> loads another. When the next timer interrupt comes before it
  has loaded the register itself, the handler faults; when it has, the first program goes on with every register as it was.\<close>

theorem new_task_without_data_segment:
  assumes "programs kst ktop stk W s [(p, c0), (n, newborn ep us)]" and "fits_stack ktop stk p c"
    and "\<not> null_selector ds" and "seg_dpl (gdt_entries s ! sel_index ds) = 0"
  shows "\<exists>t. timer_interrupt kst c (ds, s) = Some (newborn ep us, 0, t) \<and>
     (\<forall>d ds'. fits_stack ktop stk n d \<longrightarrow>
        (if null_selector ds' then timer_interrupt kst d (ds', t) = None
         else \<exists>u. timer_interrupt kst d (ds', t) = Some (c, ds_after c ds' s, u)))"
proof -
  have "ds_after (newborn ep us) ds s = 0" by (rule ds_dropped [OF assms(4)]) (simp add: newborn_def sel_rpl_def)
  then obtain t where t: "timer_interrupt kst c (ds, s) = Some (newborn ep us, 0, t)" "gdt_entries t = gdt_entries s"
    "programs kst ktop stk W t [(n, newborn ep us), (p, c)]"
    using interrupt_programs [OF assms(1-3)] by auto
  have "\<exists>u. timer_interrupt kst d (ds', t) = Some (c, ds_after c ds' s, u)" if "fits_stack ktop stk n d" "\<not> null_selector ds'" for d ds'
    using interrupt_programs [OF t(3) that] t(2) by (auto simp: ds_after_def)
  with t(1) show ?thesis by (intro exI [of _ t]) (simp add: null_ds_faults)
qed

theorem new_task_without_data_segment_witness:
  "\<exists>(s :: timer) t u. timer_interrupt (\<lambda>_. 0) kernel_cpu (0x10, s) = Some (newborn 0x105000 0x1000834, 0, t) \<and>
     timer_interrupt (\<lambda>_. 0) (newborn 0x105000 0x1000834) (0, t) = None \<and>
     timer_interrupt (\<lambda>_. 0) (newborn 0x105004 0x1000834) (0x23, t) = Some (kernel_cpu, 0x23, u)"
proof -
  obtain s :: timer where s: "programs (\<lambda>_. 0) demo_top demo_stack heap_page s demo_queue" "gdt_entries s = flat_tables"
    using demo_programs by blast
  have "null_selector 0" "\<not> null_selector 0x23" by (simp_all add: null_selector_def sel_index_def sel_ldt_def drop_bit_eq_div)
  moreover have "ds_after kernel_cpu 0x23 s = 0x23" by (rule ds_flat [OF flat_selectors(2) [OF s(2)]])
  moreover have fits: "fits_stack demo_top demo_stack 0x1000840 (newborn a b)" for a b
    by (rule demo_fits(2)) (simp add: newborn_def sel_rpl_def)
  moreover obtain t where t: "timer_interrupt (\<lambda>_. 0) kernel_cpu (0x10, s) = Some (newborn 0x105000 0x1000834, 0, t)"
    "\<forall>d ds'. fits_stack demo_top demo_stack 0x1000840 d \<longrightarrow>
       (if null_selector ds' then timer_interrupt (\<lambda>_. 0) d (ds', t) = None
        else \<exists>u. timer_interrupt (\<lambda>_. 0) d (ds', t) = Some (kernel_cpu, ds_after kernel_cpu ds' s, u))"
    using new_task_without_data_segment [OF s(1) demo_fits(1) flat_selectors(3) flat_selectors(1) [OF s(2)]] by (elim exE conjE) (rule that)
  moreover have "timer_interrupt (\<lambda>_. 0) (newborn a b) (0, t) = None" for a b
    using t(2) [THEN spec, THEN spec, of "newborn a b" 0] fits \<open>null_selector 0\<close> by simp
  moreover have "\<exists>u. timer_interrupt (\<lambda>_. 0) (newborn a b) (0x23, t) = Some (kernel_cpu, 0x23, u)" for a b
    using t(2) [THEN spec, THEN spec, of "newborn a b" "0x23"] fits \<open>\<not> null_selector 0x23\<close> \<open>ds_after kernel_cpu 0x23 s = 0x23\<close>
    by simp
  ultimately show ?thesis using t(1) by blast
qed

end
