(* ===== verification/Syscall.thy ===== *)
theory Syscall
  imports Multitask
begin

text \<open>
  The stubs of the system call (\<open>isr128\<close> and \<open>isr_common_stub\<close> of \<open>interrupt.asm\<close>) and of the page
  fault (\<open>isr14\<close>). The system call's C function \<open>isr_handler\<close> is declared in \<open>isr.h\<close> and defined nowhere: it
  is a parameter, which gets the address of a \<open>registers_t\<close> and may change memory.
\<close>

section \<open>The code\<close>

record registers =
  rg_ds :: u32
  rg_edi :: u32
  rg_esi :: u32
  rg_ebp :: u32
  rg_esp :: u32
  rg_ebx :: u32
  rg_edx :: u32
  rg_ecx :: u32
  rg_eax :: u32
  rg_int_no :: u32
  rg_err_code :: u32
  rg_eip :: u32
  rg_cs :: u32
  rg_eflags :: u32
  rg_useresp :: u32
  rg_ss :: u32

definition registers_at :: "memory \<Rightarrow> u32 \<Rightarrow> registers" where
  "registers_at m p = \<lparr>rg_ds = load32 m p, rg_edi = load32 m (p + 4), rg_esi = load32 m (p + 8),
     rg_ebp = load32 m (p + 12), rg_esp = load32 m (p + 16), rg_ebx = load32 m (p + 20), rg_edx = load32 m (p + 24),
     rg_ecx = load32 m (p + 28), rg_eax = load32 m (p + 32), rg_int_no = load32 m (p + 36), rg_err_code = load32 m (p + 40),
     rg_eip = load32 m (p + 44), rg_cs = load32 m (p + 48), rg_eflags = load32 m (p + 52),
     rg_useresp = load32 m (p + 56), rg_ss = load32 m (p + 60)\<rparr>"

definition mov_ax :: "u16 \<Rightarrow> cpu \<Rightarrow> cpu" where
  "mov_ax w c = c\<lparr>r_eax := (r_eax c AND NOT 0xFFFF) OR ucast w\<rparr>"

definition isr_common_stub :: "(u32 \<Rightarrow> 'a task_scheme \<Rightarrow> 'a task_scheme option) \<Rightarrow> cpu \<Rightarrow> u16 \<times> 'a task_scheme \<Rightarrow>
    (cpu \<times> u16 \<times> 'a task_scheme) option" where
  "isr_common_stub isr_handler c = (\<lambda>(ds, s). do {
     (c, s) \<leftarrow> pusha c s;
     let c = mov_ax ds c;
     (c, s) \<leftarrow> push_all [r_eax c] c s;
     let c = mov_ax 0x10 c;
     (c, s) \<leftarrow> push_all [r_esp c] c s;
     regs \<leftarrow> vload32 (r_esp c) s;
     s \<leftarrow> isr_handler regs s;
     let c = c\<lparr>r_esp := r_esp c + 4\<rparr>;
     ebx \<leftarrow> vload32 (r_esp c) s;
     let c = c\<lparr>r_ebx := ebx, r_esp := r_esp c + 4\<rparr>;
     let ds = ucast (r_ebx c);
     c \<leftarrow> popa c s;
     let c = c\<lparr>r_esp := r_esp c + 8\<rparr>;
     let c = c\<lparr>r_eflags := r_eflags c OR 0x200\<rparr>;
     c \<leftarrow> iret c s;
     Some (c, ds_after c ds s, s)
   })"

definition isr128 :: "(u32 \<Rightarrow> 'a task_scheme \<Rightarrow> 'a task_scheme option) \<Rightarrow> cpu \<Rightarrow> u16 \<times> 'a task_scheme \<Rightarrow>
    (cpu \<times> u16 \<times> 'a task_scheme) option" where
  "isr128 isr_handler c = (\<lambda>(ds, s). do {
     let c = c\<lparr>r_eflags := r_eflags c AND NOT 0x200\<rparr>;
     (c, s) \<leftarrow> push_all [0] c s;
     (c, s) \<leftarrow> push_all [128] c s;
     isr_common_stub isr_handler c (ds, s)
   })"

text \<open>The page fault: the processor pushes an error code on top of the frame.\<close>

definition isr14 :: "u32 \<Rightarrow> cpu \<Rightarrow> 'a task_scheme \<Rightarrow> (cpu \<times> 'a task_scheme) outcome option" where
  "isr14 cr2 c s = do {
     (c, s) \<leftarrow> pusha c s;
     case page_fault_handler cr2 s of
       Halts s \<Rightarrow> Some (Halts (c, s))
     | Returns s \<Rightarrow> do {
         c \<leftarrow> popa c s;
         let c = c\<lparr>r_esp := r_esp c + 4\<rparr>;
         c \<leftarrow> iret c s;
         Some (Returns (c, s))
       }
   }"

section \<open>The frame of a system call\<close>

text \<open>What the stub shows of a program \<open>c\<close> with data segment \<open>ds\<close>, and the program that a frame stands for.\<close>

definition shown :: "u16 \<Rightarrow> cpu \<Rightarrow> u32 \<Rightarrow> registers" where
  "shown ds c sp = \<lparr>rg_ds = (r_eax c AND NOT 0xFFFF) OR ucast ds, rg_edi = r_edi c, rg_esi = r_esi c, rg_ebp = r_ebp c,
     rg_esp = sp, rg_ebx = r_ebx c, rg_edx = r_edx c, rg_ecx = r_ecx c, rg_eax = r_eax c, rg_int_no = 128, rg_err_code = 0,
     rg_eip = r_eip c, rg_cs = ucast (r_cs c), rg_eflags = r_eflags c, rg_useresp = r_esp c, rg_ss = ucast (r_ss c)\<rparr>"

definition program_of :: "registers \<Rightarrow> cpu" where
  "program_of r = \<lparr>r_edi = rg_edi r, r_esi = rg_esi r, r_ebp = rg_ebp r, r_ebx = rg_ebx r, r_edx = rg_edx r, r_ecx = rg_ecx r,
     r_eax = rg_eax r, r_eip = rg_eip r, r_eflags = rg_eflags r, r_esp = rg_useresp r, r_cs = ucast (rg_cs r), r_ss = ucast (rg_ss r)\<rparr>"

lemma low_word: "(ucast ((x AND NOT 0xFFFF) OR ucast (w :: u16) :: u32) :: u16) = w"
proof -
  have "(0xFFFF :: u32) = mask 16" by (simp add: mask_eq_exp_minus_1)
  then show ?thesis unfolding \<open>0xFFFF = mask 16\<close> by (intro bit_word_eqI) (auto simp: bit_simps)
qed

lemma program_shown: "program_of (shown ds c sp) = c"
  by (cases c) (simp add: program_of_def shown_def)

lemma shown_ds: "ucast (rg_ds (shown ds c sp)) = ds"
  unfolding shown_def by (simp only: registers.simps low_word)

text \<open>The words from the argument of the handler up.\<close>

definition frame_of_call :: "u16 \<Rightarrow> cpu \<Rightarrow> u32 \<Rightarrow> u32 list" where
  "frame_of_call ds c p = [p, (r_eax c AND NOT 0xFFFF) OR ucast ds, r_edi c, r_esi c, r_ebp c, p + 36, r_ebx c, r_edx c, r_ecx c,
     r_eax c, 128, 0, r_eip c, ucast (r_cs c), r_eflags c, r_esp c, ucast (r_ss c)]"

lemma words_load: "words_at m e vs \<Longrightarrow> i < length vs \<Longrightarrow> load32 m (e + of_nat (4 * i)) = vs ! i"
  by (simp add: words_at_def)

lemma frame_shown:
  assumes "words_at m (p - 4) (frame_of_call ds c p)"
  shows "registers_at m p = shown ds c (p + 36)" "load32 m (p - 4) = p"
proof -
  note w = words_load [OF assms, unfolded frame_of_call_def]
  show "registers_at m p = shown ds c (p + 36)"
    using w [of 1] w [of 2] w [of 3] w [of 4] w [of 5] w [of 6] w [of 7] w [of 8] w [of 9] w [of 10] w [of 11] w [of 12]
      w [of 13] w [of 14] w [of 15] w [of 16] by (simp add: registers_at_def shown_def add.commute)
  show "load32 m (p - 4) = p" using w [of 0] by simp
qed

text \<open>Popping the frame yields the program that it stands for.\<close>

lemma frame_resumes:
  assumes w: "window W s" and f: "span p 64 \<subseteq> W" and d: "r_esp d = p + 4" and rpl: "sel_rpl (r_cs (program_of (registers_at (vmem s) p))) \<noteq> 0"
  shows "\<exists>d'. popa d s = Some d' \<and> (\<forall>x. iret (d'\<lparr>r_esp := r_esp d' + 8, r_eflags := x\<rparr>) s = Some (program_of (registers_at (vmem s) p)))"
    "vload32 p s = Some (rg_ds (registers_at (vmem s) p))"
proof -
  have ld: "vload32 (p + of_nat k) s = Some (load32 (vmem s) (p + of_nat k))" if "k + 4 \<le> 64" for k
    using span_sub [OF that, of p] f w vm.laws(1) [of W s "p + of_nat k"] by (auto simp: owns_def)
  note ld = ld [of 4] ld [of 8] ld [of 12] ld [of 20] ld [of 24] ld [of 28] ld [of 32] ld [of 44] ld [of 48] ld [of 52]
    ld [of 56] ld [of 60] ld [of 0]
  show "vload32 p s = Some (rg_ds (registers_at (vmem s) p))" using ld by (simp add: registers_at_def)
  show "\<exists>d'. popa d s = Some d' \<and> (\<forall>x. iret (d'\<lparr>r_esp := r_esp d' + 8, r_eflags := x\<rparr>) s = Some (program_of (registers_at (vmem s) p)))"
    using ld d rpl by (cases d) (simp add: popa_def iret_def program_of_def registers_at_def add.assoc)
qed

text \<open>Gate and stub push the frame; what is left is the handler and the way back.\<close>

lemma call_enters:
  fixes s :: "'a task_scheme"
  assumes w: "window W s" and o: "sel_rpl (r_cs c) \<noteq> 0"
  defines "p \<equiv> esp0 (tss s) - 64"
  assumes r: "span (p - 4) 68 \<subseteq> W"
  shows "\<exists>d u. (do { (c, s) \<leftarrow> deliver c s; isr128 h c (ds, s) }) =
       (do { v \<leftarrow> h p u; ebx \<leftarrow> vload32 p v; d \<leftarrow> popa (d\<lparr>r_ebx := ebx, r_esp := p + 4\<rparr>) v;
             d \<leftarrow> iret (d\<lparr>r_esp := r_esp d + 8, r_eflags := r_eflags d OR 0x200\<rparr>) v;
             Some (d, ds_after d (ucast ebx) v, v) }) \<and>
     edits W (span (p - 4) 68) s u \<and> words_at (vmem u) (p - 4) (frame_of_call ds c p)"
proof -
  define T where "T = esp0 (tss s)"
  let ?old = "[ucast (r_ss c), r_esp c]" and ?gate = "[r_eflags c, ucast (r_cs c), r_eip c]"
  let ?regs = "[r_eax c, r_ecx c, r_edx c, r_ebx c, T - 28, r_ebp c, r_esi c, r_edi c]"
  let ?ds = "(r_eax c AND NOT 0xFFFF) OR ucast ds"
  define vs where "vs = ?old @ ?gate @ [0] @ [128] @ ?regs @ [?ds] @ [p]"
  have p: "p = T - 64" by (simp add: p_def T_def)
  have vs: "rev vs = frame_of_call ds c p" by (simp add: vs_def frame_of_call_def p)
  have n: "68 = 4 * length vs" "68 \<le> (4096 :: nat)" by (simp_all add: vs_def)
  have r': "span (T - of_nat 68) 68 \<subseteq> W" using r by (simp add: p)
  obtain u where u: "pushes vs T s = Some (T - 68, u)" "edits W (span (p - 4) 68) s u"
    "words_at (vmem u) (p - 4) (frame_of_call ds c p)"
    using pushes_words [OF w r' n] unfolding vs by (auto simp: p)
  from pushes_split [OF u(1) [unfolded vs_def], of 8] obtain s1 where
    s1: "pushes ?old T s = Some (T - 8, s1)" "pushes (?gate @ [0] @ [128] @ ?regs @ [?ds] @ [p]) (T - 8) s1 = Some (T - 68, u)" by auto
  from pushes_split [OF s1(2), of 12] obtain s2 where
    s2: "pushes ?gate (T - 8) s1 = Some (T - 20, s2)" "pushes ([0] @ [128] @ ?regs @ [?ds] @ [p]) (T - 20) s2 = Some (T - 68, u)" by auto
  from pushes_split [OF s2(2), of 4] obtain s3 where
    s3: "pushes [0] (T - 20) s2 = Some (T - 24, s3)" "pushes ([128] @ ?regs @ [?ds] @ [p]) (T - 24) s3 = Some (T - 68, u)" by auto
  from pushes_split [OF s3(2), of 4] obtain s4 where
    s4: "pushes [128] (T - 24) s3 = Some (T - 28, s4)" "pushes (?regs @ [?ds] @ [p]) (T - 28) s4 = Some (T - 68, u)" by auto
  from pushes_split [OF s4(2), of 32] obtain s5 where
    s5: "pushes ?regs (T - 28) s4 = Some (T - 60, s5)" "pushes ([?ds] @ [p]) (T - 60) s5 = Some (T - 68, u)" by auto
  from pushes_split [OF s5(2), of 4] obtain s6 where
    s6: "pushes [?ds] (T - 60) s5 = Some (p, s6)" "pushes [p] p s6 = Some (p - 4, u)" by (auto simp: p)
  have "owns W (p - 4)" using span_sub [of 0 4 68 "p - 4"] r by (auto simp: owns_def)
  then have ld: "vload32 (p - 4) u = Some p"
    using vm.laws(1) [of W u "p - 4"] edits_window [OF u(2)] frame_shown(2) [OF u(3)] by simp
  show ?thesis using u(2,3) o s1(1) s2(1) s3(1) s4(1) s5(1) s6 ld
    by (intro exI [of _ "mov_ax 0x10 (mov_ax ds (c\<lparr>r_ss := ucast (ss0 (tss s)), r_cs := 8, r_eflags := r_eflags c AND NOT 0x200\<rparr>))"]
        exI [of _ u])
      (simp add: deliver_def isr128_def isr_common_stub_def pusha_def push_all_def mov_ax_def T_def [symmetric] add.commute [of 4] del: pushes.simps)
qed

definition system_call :: "(u32 \<Rightarrow> 'a task_scheme \<Rightarrow> 'a task_scheme option) \<Rightarrow> cpu \<Rightarrow> u16 \<times> 'a task_scheme \<Rightarrow>
    (cpu \<times> u16 \<times> 'a task_scheme) option" where
  "system_call isr_handler c = (\<lambda>(ds, s). do {
     (c, s) \<leftarrow> deliver c s;
     isr128 isr_handler c (ds, s)
   })"

text \<open>A handler that stores its answer in the field for EAX.\<close>

lemma registers_put:
  assumes w: "window W s" and f: "span p 64 \<subseteq> W"
  shows "registers_at (vmem (put32 (p + 32) x s)) p = (registers_at (vmem s) p)\<lparr>rg_eax := x\<rparr>" "owns W (p + 32)"
proof -
  have o: "owns W (p + of_nat k)" if "k + 4 \<le> 64" for k using span_sub [OF that, of p] f by (auto simp: owns_def)
  show o32: "owns W (p + 32)" using o [of 32] by simp
  have l: "load32 (vmem (put32 (p + 32) x s)) (p + of_nat k) = load32 (vmem s) (p + of_nat k)"
    if "k + 4 \<le> 64" "sep 4 (p + 32) 4 (p + of_nat k)" for k
    using vm.laws(5) [of W s "p + 32" "p + of_nat k" x] w o32 o [OF that(1)] that(2) by simp
  have x: "load32 (vmem (put32 (p + 32) x s)) (p + 32) = x" using vm.laws(4) [of W s "p + 32" x] w o32 by simp
  show "registers_at (vmem (put32 (p + 32) x s)) p = (registers_at (vmem s) p)\<lparr>rg_eax := x\<rparr>"
    using l [of 0] l [of 4] l [of 8] l [of 12] l [of 16] l [of 20] l [of 24] l [of 28] l [of 36] l [of 40] l [of 44]
      l [of 48] l [of 52] l [of 56] l [of 60] x by (simp add: registers_at_def sep_def)
qed

section \<open>Properties\<close>

text \<open>C13: The stubs of the system call agree with \<open>registers_t\<close>: a program of ring 3 that is interrupted through
  \<open>isr128\<close> shows itself to \<open>isr_handler\<close> as a \<open>registers_t\<close> with its registers, vector 128 and error code 0,
  except that the upper half of the field \<open>ds\<close> is that of EAX; and when the handler returns, the program
  goes on with the registers and the data segment that the structure then holds, so unchanged if
  the handler leaves the structure alone. (This is so once the gate is entered; as \<open>idt_init\<close> writes
  it, the gate of vector 128 names a wrong code segment, \<open>syscall_gate_selector\<close> in \<open>Idt\<close>.)\<close>

theorem system_call_frame:
  assumes "window W s" and "sel_rpl (r_cs c) \<noteq> 0" and "span (esp0 (tss s) - 68) 68 \<subseteq> W"
  shows "\<exists>u. registers_at (vmem u) (esp0 (tss s) - 64) = shown ds c (esp0 (tss s) - 28) \<and>
     edits W (span (esp0 (tss s) - 68) 68) s u \<and>
     (\<forall>v. h (esp0 (tss s) - 64) u = Some v \<and> window W v \<longrightarrow>
        (let r = registers_at (vmem v) (esp0 (tss s) - 64); d = program_of r in
           sel_rpl (r_cs d) \<noteq> 0 \<longrightarrow> system_call h c (ds, s) = Some (d, ds_after d (ucast (rg_ds r)) v, v))) \<and>
     (\<forall>v K. h (esp0 (tss s) - 64) u = Some v \<and> keeps W K u v \<and> K \<inter> span (esp0 (tss s) - 68) 68 = {} \<longrightarrow>
        system_call h c (ds, s) = Some (c, ds_after c ds v, v))"
proof -
  define p where "p = esp0 (tss s) - 64"
  have p: "esp0 (tss s) - 68 = p - 4" "esp0 (tss s) - 28 = p + 36" by (simp_all add: p_def)
  have r: "span (p - 4) 68 \<subseteq> W" using assms(3) by (simp add: p)
  have f: "span p 64 \<subseteq> span (p - 4) 68" using span_sub [of 4 64 68 "p - 4"] by simp
  obtain d u where u: "system_call h c (ds, s) =
       do { v \<leftarrow> h p u; ebx \<leftarrow> vload32 p v; d \<leftarrow> popa (d\<lparr>r_ebx := ebx, r_esp := p + 4\<rparr>) v;
             d \<leftarrow> iret (d\<lparr>r_esp := r_esp d + 8, r_eflags := r_eflags d OR 0x200\<rparr>) v;
             Some (d, ds_after d (ucast ebx) v, v) }"
     "edits W (span (p - 4) 68) s u" "words_at (vmem u) (p - 4) (frame_of_call ds c p)"
    using call_enters [OF assms(1,2), of h ds] r unfolding p_def [symmetric] system_call_def by auto
  have returns: "system_call h c (ds, s) = Some (program_of r, ds_after (program_of r) (ucast (rg_ds r)) v, v)"
    if v: "h p u = Some v" "window W v" "r = registers_at (vmem v) p" "sel_rpl (r_cs (program_of r)) \<noteq> 0" for v r
  proof -
    have f': "span p 64 \<subseteq> W" using f r by blast
    note fr = frame_resumes [OF v(2) f' _ v(4) [unfolded v(3)]]
    have "vload32 p v = Some (rg_ds r)" using fr(2) [of "d\<lparr>r_esp := p + 4\<rparr>"] v(3) by simp
    with v(3) show ?thesis using u(1) v(1) fr(1) [of "d\<lparr>r_ebx := rg_ds r, r_esp := p + 4\<rparr>"] by (auto simp: Let_def)
  qed
  have same: "registers_at (vmem v) p = shown ds c (p + 36)"
    if "keeps W K u v" "K \<inter> span (p - 4) 68 = {}" for v K
    using frame_shown(1) [OF words_at_keeps [OF that(1) r _ _ u(3)]] that(2) by (auto simp: frame_of_call_def)
  show ?thesis unfolding p p_def [symmetric]
  proof (intro exI [of _ u] conjI allI impI)
    show "registers_at (vmem u) p = shown ds c (p + 36)" by (rule frame_shown(1) [OF u(3)])
    fix v K assume v: "h p u = Some v \<and> keeps W K u v \<and> K \<inter> span (p - 4) 68 = {}"
    then have "registers_at (vmem v) p = shown ds c (p + 36)" using same by blast
    from returns [OF _ _ this [symmetric]] v assms(2) show "system_call h c (ds, s) = Some (c, ds_after c ds v, v)"
      by (auto simp: program_shown shown_ds keeps_window)
  qed (use u(2) returns in \<open>auto simp: Let_def\<close>)
qed

theorem system_call_frame_witness:
  "\<exists>(s :: timer) t. system_call (\<lambda>p. vstore32 (p + 32) 7) (newborn 0x105000 0x1000834) (0x23, s) =
     Some ((newborn 0x105000 0x1000834)\<lparr>r_eax := 7\<rparr>, 0x23, t)"
proof -
  obtain s :: timer where s: "window heap_page s" "gdt_entries s = flat_tables" "tss s = zero_tss\<lparr>ss0 := 0x10, esp0 := 0x1001000\<rparr>"
    using spawned by blast
  let ?c = "newborn 0x105000 0x1000834" and ?h = "\<lambda>p. vstore32 (p + 32) 7"
  have o: "sel_rpl (r_cs ?c) \<noteq> 0" "span (esp0 (tss s) - 68) 68 \<subseteq> heap_page" "span 0x1000FC0 64 \<subseteq> heap_page"
    using heap_page_sub [of 4028 68] heap_page_sub [of 4032 64] by (simp_all add: s(3) newborn_ring3)
  obtain u where u: "registers_at (vmem u) 0x1000FC0 = shown 0x23 ?c 0x1000FE4" "edits heap_page (span 0x1000FBC 68) s u"
    "\<forall>v. ?h 0x1000FC0 u = Some v \<and> window heap_page v \<longrightarrow> (let r = registers_at (vmem v) 0x1000FC0; d = program_of r in
       sel_rpl (r_cs d) \<noteq> 0 \<longrightarrow> system_call ?h ?c (0x23, s) = Some (d, ds_after d (ucast (rg_ds r)) v, v))"
    using system_call_frame [OF s(1) o(1,2), of "0x23" ?h] by (auto simp: s(3))
  define v where "v = put32 0x1000FE0 7 u"
  have w: "window heap_page u" by (rule edits_window [OF u(2)])
  note pt = registers_put(1) [OF w o(3), where x = 7, simplified] registers_put(2) [OF w o(3), simplified]
  have v: "?h 0x1000FC0 u = Some v" "window heap_page v"
    using vm.laws(2,3) [of heap_page u "0x1000FE0" 7] w pt(2) by (simp_all add: v_def)
  have r: "registers_at (vmem v) 0x1000FC0 = (shown 0x23 ?c 0x1000FE4)\<lparr>rg_eax := 7\<rparr>" using pt(1) u(1) by (simp add: v_def)
  have "program_of ((shown 0x23 ?c 0x1000FE4)\<lparr>rg_eax := 7\<rparr>) = ?c\<lparr>r_eax := 7\<rparr>"
    using program_shown [of "0x23" ?c "0x1000FE4"] by (simp add: program_of_def shown_def)
  moreover have "ucast (rg_ds ((shown 0x23 ?c 0x1000FE4)\<lparr>rg_eax := 7\<rparr>)) = (0x23 :: u16)"
    using shown_ds [of "0x23" ?c "0x1000FE4"] by simp
  moreover have "gdt_entries v = flat_tables" using edits_gdt [OF u(2)] s(2) by (simp add: v_def put32_def)
  then have "ds_after (?c\<lparr>r_eax := 7\<rparr>) 0x23 v = 0x23" by (intro ds_flat flat_selectors(2))
  ultimately show ?thesis using u(3) v r o(1)
    by - (rule exI [of _ s], rule exI [of _ v], simp add: Let_def)
qed

text \<open>A page fault is never returned from: \<open>isr14\<close> calls \<open>page_fault_handler\<close>, which stops the machine.\<close>

lemma isr14_halts: "isr14 cr2 c s = Some r \<Longrightarrow> \<exists>d t. r = Halts (d, t)"
  by (auto simp: isr14_def page_fault_handler_def Let_def split: bind_splits)

text \<open>
  \<open>jump_to_usermode\<close> leaves ring 0 for the entry point, with the given stack, interrupts on and a data
  segment that ring 3 may use; it reads its two arguments and writes the 24 bytes below its return
  address, and its last three instructions are never reached.
\<close>

lemma jump_to_usermode_enters:
  fixes s :: "'a task_scheme"
  assumes w: "window W s" and r: "span (r_esp c - 24) 36 \<subseteq> W"
    and g: "4 < length (gdt_entries s)" "seg_dpl (gdt_entries s ! 4) = 3"
  shows "\<exists>t. jump_to_usermode c s = Some (c\<lparr>r_ebp := r_esp c - 4, r_ebx := load32 (vmem s) (r_esp c + 4),
       r_ecx := load32 (vmem s) (r_esp c + 8), r_eax := (r_eax c AND NOT 0xFFFF) OR 0x23, r_eip := load32 (vmem s) (r_esp c + 4),
       r_cs := 0x1B, r_eflags := 0x202, r_esp := load32 (vmem s) (r_esp c + 8), r_ss := 0x23\<rparr>, 0x23, t) \<and>
     edits W (span (r_esp c - 24) 24) s t"
proof -
  let ?e = "r_esp c" and ?entry = "load32 (vmem s) (r_esp c + 4)" and ?usp = "load32 (vmem s) (r_esp c + 8)"
  let ?vs = "[0x23, ?usp, 0x202, 0x1B, ?entry]"
  have sub: "span (?e - 24 + of_nat k) n \<subseteq> span (?e - 24) 36" if "k + n \<le> 36" for k n
    using span_sub [OF that, of "?e - 24"] .
  have W: "span (?e - 24 + of_nat k) n \<subseteq> W" if "k + n \<le> 36" for k n using sub [OF that] r by blast
  have low: "span (?e - 4) 4 \<subseteq> span (?e - 24) 24" "span (?e - 24) 20 \<subseteq> span (?e - 24) 24"
    using span_sub [of 20 4 24 "?e - 24"] span_sub [of 0 20 24 "?e - 24"] by simp_all
  have W1: "span (?e - of_nat 4) 4 \<subseteq> W" "span (?e - 4 - of_nat 20) 20 \<subseteq> W" using W [of 20 4] W [of 0 20] by simp_all
  obtain u where u: "pushes [r_ebp c] ?e s = Some (?e - 4, u)" "edits W (span (?e - 4) 4) s u"
    using pushes_words [OF w W1(1), of "[r_ebp c]"] by auto
  note wu = edits_window [OF u(2)]
  have arg: "vload32 (?e + of_nat k) u = Some (load32 (vmem s) (?e + of_nat k))" if "k = 4 \<or> k = 8" for k
  proof -
    have o: "owns W (?e + of_nat k)" using W [of "k + 24" 4] that by (auto simp: owns_def)
    have "sep 4 (?e + of_nat k) 4 (?e - 4)" using that by (auto simp: sep_def)
    from sep_span [OF this] have "span (?e + of_nat k) 4 \<inter> span (?e - 4) 4 = {}" by simp
    from edits_load [OF u(2) o this] show ?thesis using vm.laws(1) [of W u] wu o by simp
  qed
  obtain t where t: "pushes ?vs (?e - 4) u = Some (?e - 24, t)" "edits W (span (?e - 24) 20) u t"
    "words_at (vmem t) (?e - 24) (rev ?vs)"
    using pushes_words [OF wu W1(2), of ?vs] by auto
  have ld: "vload32 (?e - 24 + of_nat (4 * i)) t = Some (rev ?vs ! i)" if i: "i < 5" for i
  proof -
    have "owns W (?e - 24 + of_nat (4 * i))" using W [of "4 * i" 4] i by (auto simp: owns_def)
    then show ?thesis using vm.laws(1) [of W t] edits_window [OF t(2)] words_load [OF t(3)] i by simp
  qed
  have "edits W (span (?e - 24) 24) s t" by (rule edits_trans [OF edits_mono [OF u(2) low(1)] edits_mono [OF t(2) low(2)]])
  moreover have "ds_after d 0x23 t = 0x23" if "r_cs d = 0x1B" for d
    using g edits_gdt [OF u(2)] edits_gdt [OF t(2)] that by (simp add: ds_after_def sel_index_def sel_rpl_def drop_bit_eq_div)
  ultimately show ?thesis
    using u(1) t(1) arg [of 4] arg [of 8] ld [of 0] ld [of 1] ld [of 2] ld [of 3] ld [of 4]
    by (intro exI [of _ t]) (simp add: jump_to_usermode_def push_all_def iret_def Let_def sel_rpl_def add.commute [of 4] add.commute [of 8] del: pushes.simps)
qed

end
