(* ===== verification/Shell.thy ===== *)
theory Shell
  imports Spawn
begin

text \<open>
  The command interpreter (\<open>shell.c\<close>). A line is the array of bytes it is typed into; a
  \<open>char*\<close> into the line is the index of the byte it points to, and the string it denotes is what
  \<open>drop\<close> leaves of the line. The line is cut into words in place, by overwriting blanks with
  zero bytes. As for literals, the end of a list stands for a terminator; the lines that the
  keyboard handler passes always hold one.
\<close>

section \<open>The code\<close>

record shell = timer +
  current_args :: "nat list"

definition MAX_ARGS :: nat where "MAX_ARGS = 16"

definition tab :: u8 where "tab = 0x09"

definition blank_char :: "u8 \<Rightarrow> bool" where
  "blank_char c \<longleftrightarrow> c = space \<or> c = tab \<or> c = newline"

text \<open>The \<open>while\<close> loop of \<open>parse_args\<close>; it yields the count, the line and the argument array.\<close>

function parse_loop :: "u8 list \<Rightarrow> nat \<Rightarrow> bool \<Rightarrow> nat \<Rightarrow> nat list \<Rightarrow> nat \<times> u8 list \<times> nat list" where
  "parse_loop input i in_word arg_count args_array =
     (if i < length input \<and> input ! i \<noteq> 0 then
        if input ! i = space \<or> input ! i = tab \<or> input ! i = newline
        then parse_loop (input[i := 0]) (i + 1) False arg_count args_array
        else if \<not> in_word then
          if arg_count < MAX_ARGS
          then parse_loop input (i + 1) True (arg_count + 1) (args_array[arg_count := i])
          else parse_loop input (i + 1) in_word arg_count args_array
        else parse_loop input (i + 1) in_word arg_count args_array
      else (arg_count, input, args_array))"
  by pat_completeness auto
termination by (relation "measure (\<lambda>(input, i, _). length input - i)") auto

declare parse_loop.simps [simp del]

definition parse_args :: "u8 list \<Rightarrow> nat list \<Rightarrow> nat \<times> u8 list \<times> nat list" where
  "parse_args input args_array = parse_loop input 0 False 0 args_array"

text \<open>The byte that a pointer points to, and \<open>strcmp\<close>: \<open>char\<close> is signed, the result is an \<open>int\<close>.\<close>

definition char_at :: "u8 list \<Rightarrow> u8" where
  "char_at str = (case str of [] \<Rightarrow> 0 | c # _ \<Rightarrow> c)"

lemma char_at_simps [simp]: "char_at [] = 0" "char_at (c # str) = c"
  by (simp_all add: char_at_def)

function strcmp :: "u8 list \<Rightarrow> u8 list \<Rightarrow> int" where
  "strcmp str1 str2 =
     (if char_at str1 = char_at str2
      then if char_at str1 = 0 then 0 else strcmp (tl str1) (tl str2)
      else sint (char_at str1) - sint (char_at str2))"
  by pat_completeness auto
termination
  by (relation "measure (\<lambda>(str1, _). length str1)") (auto simp: char_at_def split: list.splits)

declare strcmp.simps [simp del]

text \<open>The loop of \<open>textohex\<close>: digits until the terminator or the first other character.\<close>

fun hex_loop :: "u8 list \<Rightarrow> u32 \<Rightarrow> u32" where
  "hex_loop [] result = result"
| "hex_loop (c # str) result =
     (if c = 0 then result
      else if 0x30 <=s c \<and> c <=s 0x39
        then hex_loop str (push_bit 4 result OR scast (c - 0x30))
      else if 0x41 <=s c \<and> c <=s 0x46
        then hex_loop str (push_bit 4 result OR scast (c - 0x41 + 10))
      else if 0x61 <=s c \<and> c <=s 0x66
        then hex_loop str (push_bit 4 result OR scast (c - 0x61 + 10))
      else result)"

definition textohex :: "u8 list \<Rightarrow> u32" where
  "textohex str =
     (let i = (if char_at str = 0x30 \<and> (char_at (tl str) = 0x78 \<or> char_at (tl str) = 0x58)
               then 2 else 0)
      in hex_loop (drop i str) 0)"

text \<open>
  \<open>execute_command\<close> returns the line as it leaves it. A \<open>peek\<close> at an address that is not mapped
  does not return: the result is \<open>None\<close>.
\<close>

definition execute_command :: "u8 list \<Rightarrow> 'a shell_scheme \<Rightarrow> (u8 list \<times> 'a shell_scheme) option" where
  "execute_command input s =
     (let (num_args, input, args) = parse_args input (current_args s);
          s = s\<lparr>current_args := args\<rparr>;
          arg = (\<lambda>i. drop (current_args s ! i) input)
      in if num_args = 0 then Some (input, s)
         else let command = arg 0
         in if strcmp command (lit ''clear'') = 0 then Some (input, vga_clear_screen s)
         else if strcmp command (lit ''help'') = 0
           then Some (input, vga_print
             (lit ''NG-OS v1.0\<newline>Available commands:\<newline>clear\<newline>help\<newline>echo\<newline>peek\<newline>'') s)
         else if strcmp command (lit ''clear'') = 0 then Some (input, s)
         else if strcmp command (lit ''echo'') = 0
           then Some (input, fold (\<lambda>i s. vga_print (lit '' '') (vga_print (arg i) s)) [1..<num_args] s)
         else if strcmp command (lit ''peek'') = 0 then
           if num_args < 2 then Some (input, vga_print (lit ''Usage: peek <hex_address>\<newline>'') s)
           else do {
             let target_address = textohex (arg 1);
             memory_contents \<leftarrow> vload32 target_address s;
             let s = vga_print (lit ''Data at '') s;
             let s = vga_print (arg 1) s;
             let s = vga_print (lit '': '') s;
             let s = vga_hex_print memory_contents s;
             let s = vga_print (lit ''\<newline>'') s;
             Some (input, s)
           }
         else Some (input, vga_print command (vga_print (lit ''Command not found: '') s)))"

section \<open>Words\<close>

text \<open>The words of a line: the longest runs of characters that are not blank.\<close>

function tokens :: "u8 list \<Rightarrow> u8 list list" where
  "tokens [] = []"
| "tokens (c # cs) =
     (if blank_char c then tokens cs
      else (c # takeWhile (\<lambda>c. \<not> blank_char c) cs) # tokens (dropWhile (\<lambda>c. \<not> blank_char c) cs))"
  by pat_completeness auto
termination by (relation "measure length") (auto simp: le_imp_less_Suc length_dropWhile_le)

text \<open>Where the words begin, for a scan that may start inside a word.\<close>

fun starts :: "bool \<Rightarrow> nat \<Rightarrow> u8 list \<Rightarrow> nat list" where
  "starts w i [] = []"
| "starts w i (c # cs) =
     (if blank_char c then starts False (Suc i) cs
      else if w then starts True (Suc i) cs else i # starts True (Suc i) cs)"

definition cut :: "u8 list \<Rightarrow> u8 list" where
  "cut input = map (\<lambda>c. if blank_char c then 0 else c) (cstr input) @ drop (length (cstr input)) input"

lemma cut_simps [simp]:
  "cut [] = []"
  "cut (c # cs) = (if c = 0 then c # cs else (if blank_char c then 0 else c) # cut cs)"
  by (simp_all add: cut_def)

lemma length_cut [simp]: "length (cut input) = length input"
  by (induction input) auto

lemma parse_loop_run:
  "n \<le> 16 \<Longrightarrow> length args = 16 \<Longrightarrow> ss = take (16 - n) (starts w (length pre) (cstr rest)) \<Longrightarrow>
     parse_loop (pre @ rest) (length pre) w n args =
       (n + length ss, pre @ cut rest, take n args @ ss @ drop (n + length ss) args)"
proof (induction rest arbitrary: pre w n args ss)
  case Nil
  then show ?case by (simp add: parse_loop.simps [of pre "length pre"])
next
  case (Cons c rest)
  have step: "pre @ d # rest = (pre @ [d]) @ rest" "Suc (length pre) = length (pre @ [d])" for d by simp_all
  note go = parse_loop.simps [of "pre @ c # rest" "length pre"]
  show ?case
  proof (cases "c = 0 \<or> blank_char c")
    case True
    then consider "c = 0" | "c \<noteq> 0" "blank_char c" by blast
    then show ?thesis
    proof cases
      case 1
      have "parse_loop (pre @ c # rest) (length pre) w n args = (n, pre @ c # rest, args)"
        by (subst parse_loop.simps) (simp add: 1)
      then show ?thesis using Cons.prems 1 by simp
    next
      case 2
      then show ?thesis
        using Cons.prems Cons.IH [of n args ss False "pre @ [0]"]
        by (auto simp: go blank_char_def list_update_append)
    qed
  next
    case c: False
    show ?thesis
    proof (cases "\<not> w \<and> n < 16")
      case True
      define us where "us = take (16 - Suc n) (starts True (length (pre @ [c])) (cstr rest))"
      have ss: "ss = length pre # us"
        using Cons.prems(3) c True by (simp add: us_def take_Cons' Suc_diff_Suc)
      have "take (Suc n) (args[n := length pre]) = take n args @ [length pre]"
        using True Cons.prems(2) by (simp add: take_Suc_conv_app_nth)
      then show ?thesis
        using Cons.prems(1,2) c True Cons.IH [OF _ _ us_def, of "args[n := length pre]"]
        by (auto simp: go blank_char_def MAX_ARGS_def ss)
    next
      case False
      let ?ss = "take (16 - n) (starts w (length (pre @ [c])) (cstr rest))"
      have "ss = ?ss" using Cons.prems(1,3) c False by auto
      then show ?thesis
        using Cons.prems c False Cons.IH [of n args ?ss w "pre @ [c]"]
        by (auto simp: go blank_char_def MAX_ARGS_def)
    qed
  qed
qed

lemma parse_args_run:
  assumes "length args = 16"
  shows "parse_args input args = (length (take 16 (starts False 0 (cstr input))), cut input,
     take 16 (starts False 0 (cstr input)) @ drop (length (take 16 (starts False 0 (cstr input)))) args)"
  using parse_loop_run [of 0 args _ False "[]" input] assms by (simp add: parse_args_def)

text \<open>Each word begins where the scan says.\<close>

lemma starts_shift: "starts w (i + j) cs = map (\<lambda>k. k + j) (starts w i cs)"
  by (induction w i cs rule: starts.induct) auto

lemma starts_in_word:
  "starts True i cs = map (\<lambda>k. k + length (takeWhile (\<lambda>c. \<not> blank_char c) cs))
     (starts False i (dropWhile (\<lambda>c. \<not> blank_char c) cs))"
proof (induction cs arbitrary: i)
  case Nil
  then show ?case by simp
next
  case (Cons c cs)
  show ?case
  proof (cases "blank_char c")
    case True
    then show ?thesis by simp
  next
    case False
    then show ?thesis using Cons.IH [of "Suc i"] starts_shift [of False i 1]
      by (simp add: o_def)
  qed
qed

lemma tokens_starts:
  "tokens cs = map (\<lambda>k. takeWhile (\<lambda>c. \<not> blank_char c) (drop k cs)) (starts False 0 cs)"
proof (induction cs rule: tokens.induct)
  case 1
  then show ?case by simp
next
  case (2 c cs)
  show ?case
  proof (cases "blank_char c")
    case True
    then show ?thesis using 2(1) starts_shift [of False 0 1 cs] by (simp add: o_def)
  next
    case False
    let ?t = "takeWhile (\<lambda>c. \<not> blank_char c) cs"
    have "drop (k + length ?t) cs = drop k (dropWhile (\<lambda>c. \<not> blank_char c) cs)" for k
      by (simp add: dropWhile_eq_drop add.commute)
    then show ?thesis using False 2(2) starts_shift [of True 0 1 cs] starts_in_word [of 0 cs]
      by (simp add: o_def)
  qed
qed

lemma starts_bound: "k \<in> set (starts w i cs) \<Longrightarrow> i \<le> k \<and> k < i + length cs"
  by (induction w i cs rule: starts.induct) (auto split: if_splits)

lemma cstr_cut:
  "k < length (cstr input) \<Longrightarrow> cstr (drop k (cut input)) =
     takeWhile (\<lambda>c. \<not> blank_char c) (drop k (cstr input))"
proof (induction input arbitrary: k)
  case Nil
  then show ?case by simp
next
  case (Cons c cs)
  have "cstr (cut cs) = takeWhile (\<lambda>c. \<not> blank_char c) (cstr cs)"
    by (induction cs) auto
  with Cons show ?case by (cases k) (auto split: if_splits)
qed

lemma length_cstr: "length (cstr s) \<le> length s"
  by (simp add: cstr_def length_takeWhile_le)

text \<open>What the argument array holds after a call.\<close>

lemma parse_args_words:
  assumes a: "length args = 16" and r: "parse_args input args = (n, line, arr)"
  shows "n = min 16 (length (tokens (cstr input)))" "line = cut input"
    "k < n \<Longrightarrow> arr ! k < length input \<and> cstr (drop (arr ! k) line) = tokens (cstr input) ! k"
    "n \<le> k \<Longrightarrow> arr ! k = args ! k" "length arr = 16"
proof -
  let ?ss = "starts False 0 (cstr input)"
  have n: "n = length (take 16 ?ss)" and l: "line = cut input"
    and arr: "arr = take 16 ?ss @ drop (length (take 16 ?ss)) args"
    using r parse_args_run [OF a, of input] by auto
  show "n = min 16 (length (tokens (cstr input)))" by (simp add: n tokens_starts min.commute)
  show "line = cut input" by (rule l)
  show "length arr = 16" using a by (simp add: arr)
  show "arr ! k = args ! k" if "n \<le> k"
    using that a n by (auto simp: arr nth_append)
  show "arr ! k < length input \<and> cstr (drop (arr ! k) line) = tokens (cstr input) ! k" if "k < n"
  proof -
    have k: "arr ! k = ?ss ! k" "k < length ?ss" using that n by (auto simp: arr nth_append)
    then have "?ss ! k < length (cstr input)" using starts_bound [of "?ss ! k" False 0 "cstr input"] by simp
    then show ?thesis using k cstr_cut [of "?ss ! k" input] length_cstr [of input]
      by (simp add: l tokens_starts)
  qed
qed

section \<open>String comparison\<close>

lemma strcmp_eq_0: "strcmp s t = 0 \<longleftrightarrow> cstr s = cstr t"
proof (induction s t rule: strcmp.induct)
  case (1 s t)
  have "sint x - sint y \<noteq> 0" if "x \<noteq> y" for x y :: u8
    using that signed_word_eqI [of x y] by auto
  note this [of _ 0, simplified] this [of 0, simplified] this
  with 1 show ?case unfolding strcmp.simps [of s t]
    by (cases s; cases t) auto
qed
text \<open>Otherwise the sign gives the order of the strings, terminators included, by signed characters.\<close>

definition char_less :: "(u8 \<times> u8) set" where
  "char_less = {(x, y). sint x < sint y}"

lemma strcmp_sign: "strcmp s t < 0 \<longleftrightarrow> (cstr s @ [0], cstr t @ [0]) \<in> lexord char_less"
proof (induction s t rule: strcmp.induct)
  case (1 s t)
  then show ?case unfolding strcmp.simps [of s t]
    by (cases s; cases t) (auto simp: char_less_def)
qed

section \<open>Commands as functions of the words\<close>

lemma print_nil [simp]: "vga_print [] s = s"
  by (simp add: vga_print_def)

lemma print_append: "0 \<notin> set a \<Longrightarrow> vga_print b (vga_print a s) = vga_print (a @ b) s"
  by (simp add: vga_print_def print_color_append)

lemma print_cstr: "vga_print (cstr a) s = vga_print a s"
proof -
  have "vga_print_color (cstr a) k s = vga_print_color a k s" for k
    by (induction a k s rule: vga_print_color.induct) auto
  then show ?thesis by (simp add: vga_print_def)
qed

lemma lit_nonzero [simp]: "0 \<notin> set (lit a) \<longleftrightarrow> CHR 0x00 \<notin> set a"
proof -
  have "(of_char c :: u8) = 0 \<longleftrightarrow> c = CHR 0x00" for c
  proof -
    have n: "(of_char c :: nat) < 256" "(of_char c :: u8) = of_nat (of_char c)"
      by (simp, simp add: of_nat_of_char)
    then have "(of_char c :: u8) = 0 \<longleftrightarrow> (of_char c :: nat) = 0"
      using mod_less [OF n(1)] by (simp only: word_of_nat_eq_0_iff dvd_eq_mod_eq_0) simp
    also have "\<dots> \<longleftrightarrow> (of_char c :: nat) = of_char (CHR 0x00)" by simp
    finally show ?thesis by (simp only: of_char_eq_iff)
  qed
  then show ?thesis unfolding lit_def set_map image_iff by metis
qed

text \<open>The command with the words \<open>ws\<close>, the first of them its name.\<close>

definition run_words :: "u8 list list \<Rightarrow> 'a shell_scheme \<Rightarrow> 'a shell_scheme option" where
  "run_words ws s = (case ws of [] \<Rightarrow> Some s | cmd # args \<Rightarrow>
     if cmd = lit ''clear'' then Some (vga_clear_screen s)
     else if cmd = lit ''help'' then Some (vga_print
       (lit ''NG-OS v1.0\<newline>Available commands:\<newline>clear\<newline>help\<newline>echo\<newline>peek\<newline>'') s)
     else if cmd = lit ''echo'' then Some (vga_print (concat (map (\<lambda>w. w @ lit '' '') args)) s)
     else if cmd = lit ''peek'' then
       case args of [] \<Rightarrow> Some (vga_print (lit ''Usage: peek <hex_address>\<newline>'') s)
       | a # _ \<Rightarrow> map_option (\<lambda>v. vga_print (lit ''Data at '' @ a @ lit '': '' @ cstr (hex_str v) @
                    lit ''\<newline>'') s) (vload32 (textohex a) s)
     else Some (vga_print (lit ''Command not found: '' @ cmd) s))"

lemma tokens_nonzero: "w \<in> set (tokens cs) \<Longrightarrow> set w \<subseteq> set cs"
proof (induction cs rule: tokens.induct)
  case 1
  then show ?case by simp
next
  case (2 c cs)
  then show ?case by (auto split: if_splits dest: set_takeWhileD set_dropWhileD)
qed

lemma tokens_ne: "[] \<notin> set (tokens cs)"
  by (induction cs rule: tokens.induct) auto

lemma hex_loop_cstr: "hex_loop (cstr str) r = hex_loop str r"
  by (induction str r rule: hex_loop.induct) auto

lemma textohex_cstr: "textohex (cstr str) = textohex str"
proof -
  let ?p = "\<lambda>str. char_at str = 0x30 \<and> (char_at (tl str) = 0x78 \<or> char_at (tl str) = 0x58)"
  have "?p (cstr str) \<longleftrightarrow> ?p str"
    by (cases str; cases "tl str") (simp_all del: One_nat_def)
  moreover have "drop 2 (cstr str) = cstr (drop 2 str)" if p: "?p str"
  proof -
    obtain c d r where "str = c # d # r" using p by (cases str; cases "tl str") auto
    with p show ?thesis by auto
  qed
  ultimately show ?thesis by (simp add: textohex_def hex_loop_cstr)
qed

lemma cstr_lit [simp]: "CHR 0x00 \<notin> set a \<Longrightarrow> cstr (lit a) = lit a"
  by (simp add: cstr_id)

lemma print_words:
  "(\<And>i. i \<in> set is \<Longrightarrow> 0 \<notin> set (w i) \<and> cstr (f i) = w i) \<Longrightarrow>
     fold (\<lambda>i s. vga_print (lit '' '') (vga_print (f i) s)) is s =
       vga_print (concat (map (\<lambda>i. w i @ lit '' '') is)) s"
proof (induction "is" arbitrary: s)
  case Nil
  then show ?case by (simp add: vga_print_def)
next
  case (Cons i "is")
  from Cons.prems [of i] have w: "0 \<notin> set (w i)" "cstr (f i) = w i" by auto
  have "vga_print (f i) s = vga_print (w i) s" using print_cstr [of "f i" s] w by simp
  then have "fold (\<lambda>i s. vga_print (lit '' '') (vga_print (f i) s)) (i # is) s =
      vga_print (concat (map (\<lambda>i. w i @ lit '' '') is)) (vga_print (lit '' '') (vga_print (w i) s))"
    using Cons by simp
  also have "\<dots> = vga_print (concat (map (\<lambda>i. w i @ lit '' '') (i # is))) s"
    using w(1) by (simp add: print_append)
  finally show ?case .
qed

lemma map_tl_nth: "n = length ws \<Longrightarrow> map (\<lambda>i. f (ws ! i)) [1..<n] = map f (tl ws)"
  by (rule nth_equalityI) (auto simp: nth_tl)

text \<open>What \<open>parse_args\<close> leaves for \<open>execute_command\<close>: each stored position is the start of a word.\<close>

lemma stored_words:
  assumes a: "length (current_args s) = 16"
    and r: "parse_args input (current_args s) = (n, line, arr)"
    and ws: "ws = take 16 (tokens (cstr input))"
  shows "n = length ws" "k < length ws \<Longrightarrow> cstr (drop (arr ! k) line) = ws ! k" "k < length ws \<Longrightarrow> 0 \<notin> set (ws ! k)"
proof -
  note p = parse_args_words [OF a r]
  show n: "n = length ws" using p(1) by (simp add: ws)
  show "cstr (drop (arr ! k) line) = ws ! k" if "k < length ws" using p(3) [of k] n that by (simp add: ws)
  show "0 \<notin> set (ws ! k)" if "k < length ws"
  proof -
    have "ws ! k \<in> set (tokens (cstr input))" using that by (auto simp: ws intro: in_set_takeD nth_mem)
    from tokens_nonzero [OF this] show ?thesis using cstr_nonzero [of 0 input] by auto
  qed
qed

lemma echo_words:
  assumes w: "\<And>k. k < length ws \<Longrightarrow> cstr (f k) = ws ! k \<and> 0 \<notin> set (ws ! k)"
  shows "fold (\<lambda>i s. vga_print (lit '' '') (vga_print (f i) s)) [1..<length ws] t =
    vga_print (concat (map (\<lambda>w. w @ lit '' '') (tl ws))) t"
proof -
  have "fold (\<lambda>i s. vga_print (lit '' '') (vga_print (f i) s)) [1..<length ws] t =
      vga_print (concat (map (\<lambda>i. ws ! i @ lit '' '') [1..<length ws])) t"
    by (rule print_words) (use w in auto)
  also have "map (\<lambda>i. ws ! i @ lit '' '') [1..<length ws] = map (\<lambda>w. w @ lit '' '') (tl ws)"
    by (rule map_tl_nth) simp
  finally show ?thesis .
qed

lemma execute_command_words:
  assumes a: "length (current_args s) = 16"
    and r: "parse_args input (current_args s) = (n, line, arr)"
    and ws: "ws = take 16 (tokens (cstr input))"
  shows "execute_command input s = map_option (Pair line) (run_words ws (s\<lparr>current_args := arr\<rparr>))"
proof -
  note w = stored_words [OF a r ws]
  note n = w(1)
  show ?thesis
  proof (cases ws)
    case Nil
    then show ?thesis using n by (simp add: execute_command_def run_words_def r)
  next
    case (Cons cmd args)
    have cmd: "cstr (drop (arr ! 0) line) = cmd" "0 \<notin> set cmd" using w(2,3) [of 0] Cons by simp_all
    have cmp: "strcmp (drop (arr ! 0) line) (lit t) = 0 \<longleftrightarrow> cmd = lit t" if "CHR 0x00 \<notin> set t" for t
      using that by (simp add: strcmp_eq_0 cmd)
    have unknown: "vga_print (drop (arr ! 0) line) t = vga_print cmd t" for t
      using print_cstr [of "drop (arr ! 0) line" t] cmd by simp
    have echo: "fold (\<lambda>i s. vga_print (lit '' '') (vga_print (drop (arr ! i) line) s)) [1..<n] t =
        vga_print (concat (map (\<lambda>w. w @ lit '' '') args)) t" for t
      using echo_words [of ws "\<lambda>i. drop (arr ! i) line" t] w Cons by simp
    have one: "vga_print (drop (arr ! 1) line) t = vga_print (hd args) t"
      "textohex (drop (arr ! 1) line) = textohex (hd args)" "0 \<notin> set (hd args)" if "args \<noteq> []" for t
      using w(2,3) [of 1] that Cons print_cstr [of "drop (arr ! 1) line" t]
        textohex_cstr [of "drop (arr ! 1) line"] by (simp_all add: hd_conv_nth)
    have hex: "vga_hex_print v t = vga_print (cstr (hex_str v)) t" for v t
      by (simp add: vga_hex_print_def print_cstr)
    have "0 \<notin> set (cstr x)" for x using cstr_nonzero [of 0 x] by auto
    then have nz: "0 \<notin> set (cstr x)" "0 \<notin> set (hd args)" if "args \<noteq> []" for x using one(3) that by auto
    have len: "n \<noteq> 0" "n < 2 \<longleftrightarrow> args = []" using n Cons by (auto simp: less_Suc_eq)
    note ws = Cons
    show ?thesis
    proof (cases args)
      case Nil
      then show ?thesis
        using len by (simp add: execute_command_def run_words_def r cmp unknown echo print_append Cons
            Let_def del: One_nat_def)
    next
      case (Cons a as)
      with nz have "0 \<notin> set a" by simp
      with len Cons show ?thesis
        by (simp add: ws one nz execute_command_def run_words_def r cmp unknown echo
            Let_def hex map_option_case split: option.split del: One_nat_def flip: print_append)
    qed
  qed
qed

section \<open>Hexadecimal numerals\<close>

definition hex_digit :: "u8 \<Rightarrow> nat option" where
  "hex_digit c = (let n = unat c in
     if 48 \<le> n \<and> n \<le> 57 then Some (n - 48)
     else if 65 \<le> n \<and> n \<le> 70 then Some (n - 55)
     else if 97 \<le> n \<and> n \<le> 102 then Some (n - 87) else None)"

text \<open>The value of the longest prefix of hexadecimal digits, after the value \<open>v\<close> of the digits before.\<close>

fun hex_value :: "nat \<Rightarrow> u8 list \<Rightarrow> nat" where
  "hex_value v [] = v"
| "hex_value v (c # str) = (case hex_digit c of None \<Rightarrow> v | Some d \<Rightarrow> hex_value (16 * v + d) str)"

definition strip_0x :: "u8 list \<Rightarrow> u8 list" where
  "strip_0x str = (if take 2 str = lit ''0x'' \<or> take 2 str = lit ''0X'' then drop 2 str else str)"

lemma shift_or_digit: "unat d < 16 \<Longrightarrow> push_bit 4 r OR d = 16 * r + (d :: u32)"
proof -
  assume d: "unat d < 16"
  have "\<not> bit d n" if "4 \<le> n" for n
  proof -
    have "(2 :: nat) ^ 4 \<le> 2 ^ n" using that by (intro power_increasing) auto
    then have "unat d < 2 ^ n" using d by simp
    then have "\<not> bit (unat d) n" by (simp add: bit_iff_odd)
    then show ?thesis by (simp add: bit_unsigned_iff)
  qed
  then have "push_bit 4 r AND d = 0"
    by (intro bit_word_eqI) (auto simp: bit_simps)
  then have "push_bit 4 r OR d = push_bit 4 r + d" by (rule disjunctive_add_eq_or [symmetric])
  then show ?thesis by (simp add: push_bit_eq_mult)
qed

lemma sint_u8: "sint (c :: u8) = (if unat c < 128 then int (unat c) else int (unat c) - 256)"
proof -
  define m where "m = unat c"
  have c: "uint c = int m" "m < 256" using unsigned_less [of c] by (simp_all add: m_def)
  have "bit (int m) 7 \<longleftrightarrow> 128 \<le> m"
  proof (cases "m < 128")
    case True
    then have "int m div 128 = 0" by linarith
    with True show ?thesis by (simp only: bit_iff_odd) simp
  next
    case False
    then have "int m div 128 = 1" using c by linarith
    with False show ?thesis by (simp only: bit_iff_odd) simp
  qed
  moreover have "take_bit (Suc 7) (int m) = int m"
    by (rule take_bit_int_eq_self) (use c in simp_all)
  ultimately have "signed_take_bit 7 (int m) = int m - 2 ^ Suc 7 * of_bool (128 \<le> m)"
    by (simp only: signed_take_bit_eq_take_bit_minus)
  moreover have "sint c = signed_take_bit 7 (int m)" by (simp only: sint_uint c) simp
  ultimately show ?thesis by (cases "m < 128") (simp_all add: m_def)
qed

lemma sint_small:
  assumes "k < 128"
  shows "sint (of_nat k :: u8) = int k"
proof -
  have "unat (of_nat k :: u8) = k" using assms by (simp only: unat_of_nat) simp
  then show ?thesis using assms by (simp only: sint_u8 if_True)
qed

lemma sle_range:
  assumes "a \<le> b" "b < 128"
  shows "of_nat a <=s (c :: u8) \<and> c <=s of_nat b \<longleftrightarrow> a \<le> unat c \<and> unat c \<le> b"
proof -
  have "a < 128" using assms by simp
  moreover have "unat c < 256" using unsigned_less [of c] by simp
  ultimately show ?thesis using assms
    unfolding word_sle_eq sint_small [OF \<open>a < 128\<close>] sint_small [OF assms(2)] sint_u8 [of c]
    by (cases "unat c < 128") (simp_all only: if_True if_False, arith+)
qed

lemma hex_loop_step:
  "hex_loop (c # str) (of_nat v) =
     (case hex_digit c of None \<Rightarrow> of_nat v | Some d \<Rightarrow> hex_loop str (of_nat (16 * v + d)))"
proof -
  let ?n = "unat c"
  have r: "0x30 <=s c \<and> c <=s 0x39 \<longleftrightarrow> 48 \<le> ?n \<and> ?n \<le> 57"
    "0x41 <=s c \<and> c <=s 0x46 \<longleftrightarrow> 65 \<le> ?n \<and> ?n \<le> 70"
    "0x61 <=s c \<and> c <=s 0x66 \<longleftrightarrow> 97 \<le> ?n \<and> ?n \<le> 102"
    using sle_range [of 48 57 c] sle_range [of 65 70 c] sle_range [of 97 102 c] by simp_all
  have z: "c = 0 \<longleftrightarrow> ?n = 0" by (simp add: unat_eq_0)
  have val: "push_bit 4 (of_nat v :: u32) OR scast x = of_nat (16 * v + k)"
    if "x = of_nat k" "k < 16" for x :: u8 and k
  proof -
    have "scast x = (of_nat k :: u32)" using that sint_small [of k] by (simp add: scast_eq)
    moreover have "unat (of_nat k :: u32) < 16" using that(2) by (simp add: unat_of_nat)
    ultimately show ?thesis using shift_or_digit [of "of_nat k" "of_nat v"] by simp
  qed
  have sub: "c - of_nat b + of_nat e = of_nat (?n - b + e)" if "b \<le> ?n" for b e
    using that by (simp add: of_nat_diff)
  consider "48 \<le> ?n" "?n \<le> 57" | "65 \<le> ?n" "?n \<le> 70" | "97 \<le> ?n" "?n \<le> 102" | "hex_digit c = None"
    unfolding hex_digit_def Let_def by (metis (full_types))
  then show ?thesis
  proof cases
    case 1
    then show ?thesis unfolding hex_loop.simps r z using val [OF sub [of 48 0]] by (simp add: hex_digit_def)
  next
    case 2
    then show ?thesis unfolding hex_loop.simps r z using val [OF sub [of 65 10]] by (simp add: hex_digit_def)
  next
    case 3
    then show ?thesis unfolding hex_loop.simps r z using val [OF sub [of 97 10]] by (simp add: hex_digit_def)
  next
    case 4
    then show ?thesis unfolding hex_loop.simps r z by (auto simp: hex_digit_def Let_def split: if_splits)
  qed
qed
lemma hex_loop_value: "hex_loop str (of_nat v) = of_nat (hex_value v str)"
proof (induction str arbitrary: v)
  case Nil
  then show ?case by simp
next
  case (Cons c str)
  then show ?case by (simp only: hex_loop_step hex_value.simps) (simp split: option.split)
qed

lemma textohex_value: "textohex str = of_nat (hex_value 0 (strip_0x str))"
proof -
  have l: "(of_char CHR ''0'' :: u8) = 0x30" "(of_char CHR ''x'' :: u8) = 0x78"
    "(of_char CHR ''X'' :: u8) = 0x58" by simp_all
  have "textohex str = hex_loop (strip_0x str) 0"
    by (cases str; cases "tl str") (auto simp: textohex_def strip_0x_def lit_def l take_Cons')
  then show ?thesis using hex_loop_value [of _ 0] by simp
qed

text \<open>The digits that \<open>vga_hex_print\<close> makes are read back.\<close>

lemma hex_digit_hex_digits: "i < 16 \<Longrightarrow> hex_digit (hex_digits ! i) = Some i"
proof -
  assume "i < 16"
  then have "i \<in> set [0, 1, 2, 3, 4, 5, 6, 7, 8, 9, 10, 11, 12, 13, 14, 15]" by (simp, arith)
  then show ?thesis by (auto simp: hex_digits_simps hex_digit_def)
qed

lemma nibble_at: "unat (drop_bit (4 * k) n AND 0x0F :: u32) = unat n div 16 ^ k mod 16"
proof -
  have "(drop_bit (4 * k) n AND 0x0F :: u32) = take_bit 4 (drop_bit (4 * k) n)"
    by (simp add: take_bit_eq_mask mask_numeral)
  then have "unat (drop_bit (4 * k) n AND 0x0F) = take_bit 4 (drop_bit (4 * k) (unat n))"
    using take_bit_nat_eq_self [OF unat_less_32 [of n]]
    by (simp only: unsigned_take_bit_eq unsigned_drop_bit_eq) simp
  then show ?thesis by (simp add: take_bit_eq_mod drop_bit_eq_div power_mult)
qed

lemma hex_value_digits:
  "hex_value (unat n div 16 ^ k) (map (hex_digit_at n) (rev [0..<k]) @ str) = hex_value (unat n) str"
proof (induction k)
  case 0
  then show ?case by simp
next
  case (Suc k)
  have "16 * (unat n div 16 ^ Suc k) + unat n div 16 ^ k mod 16 = unat n div 16 ^ k"
    by (simp add: div_mult2_eq mult.commute [of 16 "_ ^ _"])
  moreover have "hex_digit (hex_digit_at n k) = Some (unat n div 16 ^ k mod 16)"
    by (simp add: hex_digit_at_def hex_digit_hex_digits nibble_at)
  ultimately show ?case using Suc.IH by simp
qed

section \<open>What a command leaves alone\<close>

lemma run_words_frame: "run_words ws s = Some t \<Longrightarrow> same_but_screen s t"
  by (auto simp: run_words_def same_but_screen_def split: list.splits if_splits)

lemma execute_command_frame:
  assumes "length (current_args s) = 16" "execute_command input s = Some (line, t)"
  shows "line = cut input" "length (current_args t) = 16" "mem t = mem s" "out_log t = out_log s"
    "vga_limit t = vga_limit s" "shell.more t = shell.more s" "cr0 t = cr0 s" "cr3 t = cr3 s"
proof -
  obtain n l arr where r: "parse_args input (current_args s) = (n, l, arr)" by (rule prod_cases3)
  define u where "u = s\<lparr>current_args := arr\<rparr>"
  have e: "line = l" "run_words (take 16 (tokens (cstr input))) u = Some t"
    using execute_command_words [OF assms(1) r refl] assms(2) unfolding u_def [symmetric]
    by (cases "run_words (take 16 (tokens (cstr input))) u"; simp)+
  show "line = cut input" using e(1) parse_args_words(2) [OF assms(1) r] by simp
  have f: "mem t = mem u" "out_log t = out_log u" "vga_limit t = vga_limit u" "vga.more t = vga.more u"
    using run_words_frame [OF e(2)] by (simp_all add: same_but_screen_def)
  then show "mem t = mem s" "out_log t = out_log s" "vga_limit t = vga_limit s" by (simp_all add: u_def)
  have "current_args t = arr" "shell.more t = shell.more s" "cr0 t = cr0 s" "cr3 t = cr3 s"
    using f(4) by (cases t; cases s; simp add: u_def)+
  then show "length (current_args t) = 16" "shell.more t = shell.more s" "cr0 t = cr0 s" "cr3 t = cr3 s"
    using parse_args_words(5) [OF assms(1) r] by simp_all
qed

text \<open>A kernel whose globals are all zero, paging off.\<close>

definition idle :: shell where
  "idle = timer.extend blank \<lparr>current_args = replicate 16 0\<rparr>"

lemma idle_simps [simp]: "current_args idle = replicate 16 0" "vga_index idle = 0"
  "vga_limit idle = 0" "cr0 idle = 0x11" "mem idle = (\<lambda>_. 0)" "out_log idle = []"
  by (simp_all add: idle_def blank_def timer.extend_def)

section \<open>Properties\<close>

text \<open>C18: \<open>parse_args\<close> splits a line into its words. The count is the number of words, at most
  16; each argument pointer is in the line and points to a string equal to the word at its place;
  the slots of the array from the count on are untouched, and the line has only its blanks before
  the terminator changed.\<close>

theorem parse_args_splits:
  assumes "length args = 16" "parse_args input args = (n, line, arr)"
  shows "n = min 16 (length (tokens (cstr input))) \<and>
    (\<forall>k < n. arr ! k < length line \<and> cstr (drop (arr ! k) line) = tokens (cstr input) ! k) \<and>
    length arr = 16 \<and> (\<forall>k. n \<le> k \<longrightarrow> arr ! k = args ! k) \<and>
    length line = length input \<and>
    (\<forall>k < length input. line ! k = (if k < length (cstr input) \<and> blank_char (input ! k) then 0 else input ! k))"
proof -
  have "cut input ! k = (if k < length (cstr input) \<and> blank_char (input ! k) then 0 else input ! k)"
    if "k < length input" for k using that
  proof (induction input arbitrary: k)
    case Nil
    then show ?case by simp
  next
    case (Cons c input)
    then show ?case by (cases k) auto
  qed
  then show ?thesis using parse_args_words [OF assms] by simp
qed

theorem parse_args_splits_witness:
  "\<exists>n line arr. parse_args (lit ''echo  hi'' @ [0]) (replicate 16 0) = (n, line, arr) \<and>
     cstr (drop (arr ! 1) line) = lit ''hi''"
proof -
  obtain n line arr where r: "parse_args (lit ''echo  hi'' @ [0]) (replicate 16 0) = (n, line, arr)"
    by (rule prod_cases3)
  have t: "tokens (lit ''echo  hi'') = [lit ''echo'', lit ''hi'']"
    by (simp add: lit_def blank_char_def ctrl_defs tab_def)
  from parse_args_splits [OF _ r] have n: "n = min 16 (length (tokens (lit ''echo  hi'')))"
    "\<forall>k < n. cstr (drop (arr ! k) line) = tokens (lit ''echo  hi'') ! k" by simp_all
  from n(2) have "cstr (drop (arr ! 1) line) = lit ''hi''" unfolding n(1) t by simp
  with r show ?thesis by blast
qed

text \<open>C17: A command is determined by the words of its line: on every line \<open>execute_command\<close> acts as
  the command interpreter on words does for the first sixteen of them (clearing, printing the help
  text, echoing the arguments, showing the word of memory at a hexadecimal address, reporting a
  missing argument or an unknown command), returns exactly when that does, and leaves
  the line cut into words.\<close>

theorem execute_command_runs_words:
  assumes "length (current_args s) = 16"
  shows "execute_command input s = map_option (Pair (cut input))
    (run_words (take 16 (tokens (cstr input)))
       (s\<lparr>current_args := snd (snd (parse_args input (current_args s)))\<rparr>))"
proof -
  obtain n line arr where r: "parse_args input (current_args s) = (n, line, arr)"
    by (rule prod_cases3)
  show ?thesis
    using execute_command_words [OF assms r refl] parse_args_words(2) [OF assms r] r by simp
qed

theorem execute_command_runs_words_witness:
  "\<exists>t. execute_command (lit ''peek 0xB8000'' @ [0]) idle = Some (cut (lit ''peek 0xB8000'' @ [0]), t)"
proof -
  have t: "tokens (lit ''peek 0xB8000'') = [lit ''peek'', lit ''0xB8000'']"
    by (simp add: lit_def blank_char_def ctrl_defs tab_def)
  have "vload32 a (idle\<lparr>current_args := z\<rparr>) = Some 0" for a z
    by (simp add: vload32_def mapped_def translate_def load32_def vmem_def)
  moreover have "cstr (lit ''peek 0xB8000'' @ [0]) = lit ''peek 0xB8000''" by simp
  ultimately show ?thesis using execute_command_runs_words [of idle "lit ''peek 0xB8000'' @ [0]"]
    by (simp add: t run_words_def)
qed

text \<open>C35: \<open>strcmp\<close> is zero exactly on equal strings and negative exactly when the first string comes
  first in the order of signed characters, terminators included; it reads no byte past the
  terminators.\<close>

theorem strcmp_correct:
  "(strcmp s t = 0 \<longleftrightarrow> cstr s = cstr t) \<and>
     (strcmp s t < 0 \<longleftrightarrow> (cstr s @ [0], cstr t @ [0]) \<in> lexord char_less) \<and>
     strcmp (cstr s @ 0 # x) (cstr t @ 0 # y) = strcmp s t"
proof -
  have "strcmp (cstr s @ 0 # x) (cstr t @ 0 # y) = strcmp s t"
  proof (induction s t rule: strcmp.induct)
    case (1 s t)
    then show ?case unfolding strcmp.simps [of s t] strcmp.simps [of "cstr s @ 0 # x" "cstr t @ 0 # y"]
      by (cases s; cases t) auto
  qed
  then show ?thesis by (simp add: strcmp_eq_0 strcmp_sign)
qed

text \<open>C34: \<open>textohex\<close> reads, after an optional \<open>0x\<close> or \<open>0X\<close>, the longest run of hexadecimal digits
  of either case, modulo \<open>2 ^ 32\<close>; in particular it reads back every number that
  \<open>vga_hex_print\<close> shows.\<close>

theorem textohex_inverts_hex_print:
  "textohex str = of_nat (hex_value 0 (strip_0x str)) \<and> textohex (hex_str n) = n"
proof -
  have "hex_str n = lit ''0x'' @ map (hex_digit_at n) (rev [0..<8]) @ [0]"
    by (simp add: hex_str_digits upt_rec eval_nat_numeral)
  moreover have "length (lit ''0x'') = 2" by (simp add: lit_def)
  ultimately have "strip_0x (hex_str n) = map (hex_digit_at n) (rev [0..<8]) @ [0]"
    by (simp add: strip_0x_def)
  moreover have "unat n div 16 ^ 8 = 0" using unat_less_32 [of n] by simp
  ultimately have "hex_value 0 (strip_0x (hex_str n)) = hex_value (unat n) [0]"
    using hex_value_digits [of n 8 "[0]"] by simp
  then show ?thesis by (simp add: textohex_value hex_digit_def)
qed

end
