(* ===== verification/Keyboard.thy ===== *)
theory Keyboard
  imports Shell
begin

text \<open>
  The keyboard driver and its line editor (\<open>keyboard.c\<close>). What the controller answers on its
  status port 0x64 and its data port 0x60 is the argument \<open>dev\<close>. \<open>buffer_idx\<close> is an
  \<open>int\<close> that the code decrements only above 0; it is a natural number here. The result is
  \<open>None\<close> when the command of the line does not return.
\<close>

section \<open>The code\<close>

record keyboard = shell +
  shell_buffer :: "u8 list"
  buffer_idx :: nat

definition kbd_us :: "u8 list" where
  "kbd_us = [0, 27] @ lit ''1234567890-='' @ [backspace] @
     [tab] @ lit ''qwertyuiop[]'' @ [newline] @
     [0] @ lit ''asdfghjkl;'' @ [39, 96, 0, 92] @
     lit ''zxcvbnm,./'' @ [0, 42, 0, 32] @ replicate 70 0"

lemma kbd_us_keys:
  assumes "k < 58"
  shows "kbd_us ! k = [0x00, 0x1B, 0x31, 0x32, 0x33, 0x34, 0x35, 0x36, 0x37, 0x38, 0x39, 0x30, 0x2D, 0x3D, 0x08,
     0x09, 0x71, 0x77, 0x65, 0x72, 0x74, 0x79, 0x75, 0x69, 0x6F, 0x70, 0x5B, 0x5D, 0x0A,
     0x00, 0x61, 0x73, 0x64, 0x66, 0x67, 0x68, 0x6A, 0x6B, 0x6C, 0x3B, 0x27, 0x60, 0x00, 0x5C,
     0x7A, 0x78, 0x63, 0x76, 0x62, 0x6E, 0x6D, 0x2C, 0x2E, 0x2F, 0x00, 0x2A, 0x00, 0x20] ! k" (is "_ = ?keys ! k")
proof -
  have "kbd_us = ?keys @ replicate 70 0"
    by (simp add: kbd_us_def ctrl_defs tab_def lit_def del: replicate.simps)
  then have "kbd_us ! k = (if k < length ?keys then ?keys ! k else replicate 70 0 ! (k - length ?keys))"
    unfolding nth_append [symmetric] by (rule arg_cong)
  then show ?thesis using assms by simp
qed

definition key_pressed :: "u8 \<Rightarrow> 'a keyboard_scheme \<Rightarrow> 'a keyboard_scheme option" where
  "key_pressed c s =
     (if c = newline then do {
        let s = s\<lparr>shell_buffer := (shell_buffer s)[buffer_idx s := 0]\<rparr>;
        let s = vga_print (lit ''\<newline>'') s;
        (line, s) \<leftarrow> execute_command (shell_buffer s) s;
        let s = s\<lparr>shell_buffer := line\<rparr>;
        let s = s\<lparr>buffer_idx := 0\<rparr>;
        let s = vga_print_color (lit ''\<newline>root@ng-os:~ '') 0x03 s;
        Some (vga_lock_cursor s)
      }
      else if c = backspace then
        if buffer_idx s > 0
        then let s = s\<lparr>buffer_idx := buffer_idx s - 1\<rparr> in Some (vga_print [backspace, 0] s)
        else Some s
      else if c \<noteq> 0 then
        if buffer_idx s < 255
        then let s = s\<lparr>shell_buffer := (shell_buffer s)[buffer_idx s := c]\<rparr>;
                 s = s\<lparr>buffer_idx := buffer_idx s + 1\<rparr>
             in Some (vga_print [c, 0] s)
        else Some s
      else Some s)"

definition keyboard_handler_main :: "(u16 \<Rightarrow> u8) \<Rightarrow> 'a keyboard_scheme \<Rightarrow> 'a keyboard_scheme option" where
  "keyboard_handler_main dev s = do {
     let keyboard_status = inb dev 0x64;
     s \<leftarrow> (if keyboard_status AND 0x01 \<noteq> 0
          then let keystroke_hold = inb dev 0x60
               in if keystroke_hold < 128 then key_pressed (kbd_us ! unat keystroke_hold) s else Some s
          else Some s);
     Some (outb 0x20 0x20 s)
   }"

section \<open>The line editor\<close>

text \<open>The line typed so far, and what a character does to it. Enter hands it over.\<close>

definition pending :: "'a keyboard_scheme \<Rightarrow> u8 list" where
  "pending s = take (buffer_idx s) (shell_buffer s)"

definition edit :: "u8 \<Rightarrow> u8 list \<Rightarrow> u8 list" where
  "edit c line = (if c = newline then [] else if c = backspace then butlast line
     else if c \<noteq> 0 \<and> length line < 255 then line @ [c] else line)"

text \<open>The character of an interrupt: none without data and for key releases.\<close>

definition key_char :: "(u16 \<Rightarrow> u8) \<Rightarrow> u8" where
  "key_char dev = (if bit (dev 0x64) 0 \<and> dev 0x60 < 128 then kbd_us ! unat (dev 0x60) else 0)"

definition kbd_ok :: "'a keyboard_scheme \<Rightarrow> bool" where
  "kbd_ok s \<longleftrightarrow> length (shell_buffer s) = 256 \<and> buffer_idx s \<le> 255 \<and> 0 \<notin> set (pending s) \<and>
     length (current_args s) = 16"

lemma handler_key_pressed:
  "keyboard_handler_main dev s = map_option (outb 0x20 0x20) (key_pressed (key_char dev) s)"
proof -
  have "dev 0x64 AND 1 \<noteq> 0 \<longleftrightarrow> bit (dev 0x64) 0"
    by (simp add: and_one_eq bit_0 odd_iff_mod_2_eq_one)
  moreover have "key_pressed 0 s = Some s" by (simp add: key_pressed_def ctrl_defs)
  moreover have "(x \<bind> (\<lambda>s. Some (f s))) = map_option f x" for x and f :: "'a keyboard_scheme \<Rightarrow> 'a keyboard_scheme"
    by (cases x) simp_all
  ultimately show ?thesis by (simp add: keyboard_handler_main_def key_char_def inb_def Let_def)
qed

lemma keyboard_more:
  fixes s t :: "'a keyboard_scheme"
  assumes "shell.more t = shell.more s"
  shows "shell_buffer t = shell_buffer s" "buffer_idx t = buffer_idx s"
    "keyboard.more t = keyboard.more s"
  using assms by (cases t; cases s; simp)+

lemma kbd_vga_more:
  fixes s t :: "'a keyboard_scheme"
  assumes "vga.more t = vga.more s"
  shows "current_args t = current_args s" "shell_buffer t = shell_buffer s" "buffer_idx t = buffer_idx s"
    "keyboard.more t = keyboard.more s"
  using assms by (cases t; cases s; simp)+

lemma kbd_printing [simp]:
  fixes s :: "'a keyboard_scheme"
  shows "shell_buffer (vga_print_color str k s) = shell_buffer s"
    "buffer_idx (vga_print_color str k s) = buffer_idx s"
    "current_args (vga_print_color str k s) = current_args s"
    "shell_buffer (vga_print str s) = shell_buffer s"
    "buffer_idx (vga_print str s) = buffer_idx s"
    "current_args (vga_print str s) = current_args s"
    "shell_buffer (vga_lock_cursor s) = shell_buffer s"
    "buffer_idx (vga_lock_cursor s) = buffer_idx s"
    "current_args (vga_lock_cursor s) = current_args s"
    "shell_buffer (outb p v s) = shell_buffer s"
    "buffer_idx (outb p v s) = buffer_idx s"
    "current_args (outb p v s) = current_args s"
  by (rule kbd_vga_more, simp)+ (simp_all add: vga_lock_cursor_def outb_def)

lemma length_pending: "kbd_ok s \<Longrightarrow> length (pending s) = buffer_idx s"
  by (simp add: kbd_ok_def pending_def)
lemma kbd_outb [simp]: "pending (outb p v s) = pending s" "kbd_ok (outb p v s) = kbd_ok s"
  by (simp_all add: pending_def kbd_ok_def)

lemma terminated_line:
  assumes "kbd_ok s"
  shows "cstr ((shell_buffer s)[buffer_idx s := 0]) = pending s"
proof -
  have "(shell_buffer s)[buffer_idx s := 0] = pending s @ 0 # drop (Suc (buffer_idx s)) (shell_buffer s)"
    using assms by (simp add: kbd_ok_def pending_def upd_conv_take_nth_drop)
  then show ?thesis using assms by (simp add: kbd_ok_def)
qed

text \<open>The state in which the command of the line \<open>line\<close> runs, and what follows it.\<close>

definition entered :: "'a keyboard_scheme \<Rightarrow> 'a keyboard_scheme" where
  "entered s = (let line = (shell_buffer s)[buffer_idx s := 0]
     in (vga_print (lit ''\<newline>'') (s\<lparr>shell_buffer := line\<rparr>))
          \<lparr>current_args := snd (snd (parse_args line (current_args s)))\<rparr>)"

definition prompt :: "'a keyboard_scheme \<Rightarrow> 'a keyboard_scheme" where
  "prompt s = vga_lock_cursor (vga_print_color (lit ''\<newline>root@ng-os:~ '') 0x03 s)"

lemma enter_runs_words:
  assumes "kbd_ok s"
  shows "key_pressed newline s = map_option
    (\<lambda>t. prompt (t\<lparr>shell_buffer := cut ((shell_buffer s)[buffer_idx s := 0]), buffer_idx := 0\<rparr>))
    (run_words (take 16 (tokens (pending s))) (entered s))"
proof -
  let ?line = "(shell_buffer s)[buffer_idx s := 0]"
  let ?s = "vga_print (lit ''\<newline>'') (s\<lparr>shell_buffer := ?line\<rparr>)"
  obtain n l arr where r: "parse_args ?line (current_args s) = (n, l, arr)" by (rule prod_cases3)
  have a: "length (current_args ?s) = 16" using assms by (simp add: kbd_ok_def)
  have r': "parse_args ?line (current_args ?s) = (n, l, arr)" using r by simp
  have l: "l = cut ?line" using parse_args_words(2) [OF a r'] .
  have "execute_command ?line ?s = map_option (Pair (cut ?line))
      (run_words (take 16 (tokens (pending s))) (entered s))"
    using execute_command_words [OF a r' refl] terminated_line [OF assms] l r
    by (simp add: entered_def Let_def)
  then show ?thesis
    by (cases "run_words (take 16 (tokens (pending s))) (entered s)")
      (simp_all add: key_pressed_def prompt_def Let_def)
qed

lemma key_pressed_ignored:
  assumes "c \<noteq> newline" "c = backspace \<Longrightarrow> buffer_idx s = 0"
    "c \<noteq> backspace \<Longrightarrow> c \<noteq> 0 \<Longrightarrow> \<not> buffer_idx s < 255"
  shows "key_pressed c s = Some s"
  using assms by (simp add: key_pressed_def)

lemma key_pressed_step:
  assumes ok: "kbd_ok s" and k: "key_pressed c s = Some t"
  shows "kbd_ok t \<and> pending t = edit c (pending s) \<and> out_log t = out_log s \<and> mem t = mem s"
proof -
  have len: "length (pending s) = buffer_idx s" "length (shell_buffer s) = 256" "buffer_idx s \<le> 255"
    using ok by (auto simp: length_pending kbd_ok_def)
  consider "c = newline" | "c = backspace" "c \<noteq> newline" | "c \<noteq> newline" "c \<noteq> backspace" by blast
  then show ?thesis
  proof cases
    case 1
    then obtain u where u: "run_words (take 16 (tokens (pending s))) (entered s) = Some u"
      "t = prompt (u\<lparr>shell_buffer := cut ((shell_buffer s)[buffer_idx s := 0]), buffer_idx := 0\<rparr>)"
      using k enter_runs_words [OF ok] by auto
    have f: "mem u = mem s" "out_log u = out_log s" "vga.more u = vga.more (entered s)"
      using run_words_frame [OF u(1)] by (simp_all add: same_but_screen_def entered_def Let_def)
    have a: "length (current_args s) = 16" using ok by (simp add: kbd_ok_def)
    obtain n l arr where r: "parse_args ((shell_buffer s)[buffer_idx s := 0]) (current_args s) = (n, l, arr)"
      by (rule prod_cases3)
    have "current_args u = current_args (entered s)" using f(3) by (rule kbd_vga_more)
    then have "length (current_args u) = 16"
      using parse_args_words(5) [OF a r] by (simp add: entered_def r)
    then show ?thesis using 1 f len by (simp add: u(2) prompt_def kbd_ok_def pending_def edit_def)
  next
    case 2
    show ?thesis
    proof (cases "buffer_idx s > 0")
      case True
      have "take (buffer_idx s - 1) (shell_buffer s) = butlast (pending s)"
        using len by (simp add: pending_def butlast_take)
      moreover have "set (butlast (pending s)) \<subseteq> set (pending s)" by (auto dest: in_set_butlastD)
      ultimately show ?thesis using 2 k True ok len
        by (auto simp: key_pressed_def kbd_ok_def pending_def edit_def)
    next
      case False
      then show ?thesis using 2 k ok by (simp add: key_pressed_def edit_def pending_def)
    qed
  next
    case 3
    show ?thesis
    proof (cases "c \<noteq> 0 \<and> buffer_idx s < 255")
      case True
      then have "take (buffer_idx s + 1) ((shell_buffer s)[buffer_idx s := c]) = pending s @ [c]"
        using len by (simp add: pending_def take_Suc_conv_app_nth)
      then show ?thesis using 3 k True ok len
        by (auto simp: key_pressed_def kbd_ok_def pending_def edit_def)
    next
      case False
      then have "t = s" using 3 k key_pressed_ignored [of c s] by auto
      then show ?thesis using 3 False ok len by (auto simp: edit_def)
    qed
  qed
qed

lemma key_pressed_returns: "c \<noteq> newline \<Longrightarrow> key_pressed c s \<noteq> None"
  by (simp add: key_pressed_def Let_def)

section \<open>The echo on the screen\<close>

text \<open>The screen shows the pending line behind the place that backspace may not pass.\<close>

definition echoed :: "'a keyboard_scheme \<Rightarrow> bool" where
  "echoed s \<longleftrightarrow> unat (vga_index s) = unat (vga_limit s) + length (pending s) \<and>
     (\<forall>i < length (pending s). vga_buff s (vga_limit s + of_nat i) = cell default_color (pending s ! i))"

lemma echoed_outb: "echoed (s\<lparr>out_log := l\<rparr>) = echoed s"
  by (simp add: echoed_def pending_def)

lemma print_one: "c \<noteq> 0 \<Longrightarrow> vga_print [c, 0] s = scroll default_color (place c default_color s)"
  by (simp add: vga_print_def)

lemma echoed_key:
  assumes ok: "kbd_ok s" and e: "echoed s" and room: "unat (vga_limit s) + length (pending s) < 2000"
    and room': "unat (vga_limit s) + length (edit c (pending s)) < 2000" and c: "c \<noteq> newline" and k: "key_pressed c s = Some t"
  shows "echoed t \<and> vga_limit t = vga_limit s"
proof -
  have len: "length (pending s) = buffer_idx s" "length (shell_buffer s) = 256" "buffer_idx s \<le> 255"
    using ok by (auto simp: length_pending kbd_ok_def)
  have p: "pending t = edit c (pending s)" using key_pressed_step [OF ok k] by simp
  have adr: "unat (vga_limit s + of_nat i) = unat (vga_limit s) + i" if "unat (vga_limit s) + i < 2000" for i
    using that by (simp add: unat_word_ariths unat_of_nat)
  have idx: "vga_index s = vga_limit s + of_nat (length (pending s))"
    using e adr [OF room] unfolding echoed_def word_unat_eq_iff by simp
  consider "c = backspace" "pending s \<noteq> []" | "c \<noteq> backspace" "c \<noteq> 0" "buffer_idx s < 255" | "t = s" "pending t = pending s"
  proof -
    assume *: "c = backspace \<Longrightarrow> pending s \<noteq> [] \<Longrightarrow> thesis"
      "c \<noteq> backspace \<Longrightarrow> c \<noteq> 0 \<Longrightarrow> buffer_idx s < 255 \<Longrightarrow> thesis" "t = s \<Longrightarrow> pending t = pending s \<Longrightarrow> thesis"
    have "t = s" if "\<not> (c = backspace \<and> pending s \<noteq> [])" "\<not> (c \<noteq> backspace \<and> c \<noteq> 0 \<and> buffer_idx s < 255)"
      using k c len that key_pressed_ignored [of c s] by fastforce
    with * show thesis by blast
  qed
  then show ?thesis
  proof cases
    case 1
    define n where "n = length (pending s) - 1"
    have n: "length (pending s) = Suc n" "Suc n \<le> 255" using 1(2) len by (cases "pending s"; simp add: n_def)+
    have gt: "vga_index s > vga_limit s" using n e by (simp add: echoed_def word_less_nat_alt)
    have i1: "vga_index s - 1 = vga_limit s + of_nat n" using idx n by simp
    have "\<not> 2000 \<le> vga_index s - 1" using adr [of n] room n unfolding i1 word_le_nat_alt by simp
    then have t: "vga_index t = vga_index s - 1" "vga_limit t = vga_limit s"
      "vga_buff t = (vga_buff s)(vga_index s - 1 := cell default_color space)"
      using k 1 n len gt by (auto simp: key_pressed_def print_one place_def scroll_def ctrl_defs)
    have ne: "vga_limit s + of_nat i \<noteq> vga_limit s + of_nat n" if "i < n" for i
      using adr [of i] adr [of n] that n room by auto
    have "unat (vga_limit s + of_nat n) = unat (vga_limit s) + n" using adr [of n] room n by simp
    then show ?thesis
      using e p 1 c n i1 ne by (auto simp: echoed_def t edit_def nth_butlast)
  next
    case 2
    define n where "n = length (pending s)"
    have n: "n \<le> 254" using 2 len by (simp add: n_def)
    have ed: "edit c (pending s) = pending s @ [c]" using 2 c len by (simp add: edit_def)
    then have top: "unat (vga_limit s) + Suc n < 2000" using room' by (simp add: n_def)
    have i1: "unat (vga_index s + 1) = unat (vga_limit s) + Suc n"
      using adr [OF top] unfolding idx n_def [symmetric] by (simp add: add_ac)
    then have "\<not> 2000 \<le> vga_index s + 1" using top by (simp add: word_le_nat_alt)
    then have t: "vga_index t = vga_index s + 1" "vga_limit t = vga_limit s"
      "vga_buff t = (vga_buff s)(vga_index s := cell default_color c)"
      using k 2 c by (auto simp: key_pressed_def print_one place_def scroll_def)
    have ne: "vga_limit s + of_nat i \<noteq> vga_limit s + of_nat n" if "i < n" for i
      using adr [of i] adr [of n] that top by auto
    have "pending t = pending s @ [c]" using p ed by simp
    then show ?thesis
      using e ne i1 by (auto simp: echoed_def t nth_append idx less_Suc_eq simp flip: n_def)
  next
    case 3
    then show ?thesis using e by simp
  qed
qed

section \<open>Typing\<close>

text \<open>One interrupt for the scan code \<open>k\<close>, and a run of them.\<close>

definition key_port :: "u8 \<Rightarrow> u16 \<Rightarrow> u8" where
  "key_port k p = (if p = 0x64 then 1 else k)"

primrec type_keys :: "u8 list \<Rightarrow> 'a keyboard_scheme \<Rightarrow> 'a keyboard_scheme option" where
  "type_keys [] s = Some s"
| "type_keys (k # ks) s = do { s \<leftarrow> keyboard_handler_main (key_port k) s; type_keys ks s }"

lemma key_char_port: "key_char (key_port k) = (if k < 128 then kbd_us ! unat k else 0)"
  by (simp add: key_char_def key_port_def)

lemma handler_step:
  assumes ok: "kbd_ok s" and k: "keyboard_handler_main dev s = Some t"
  shows "kbd_ok t" "pending t = edit (key_char dev) (pending s)"
    "out_log t = out_log s @ [(0x20, 0x20)]" "mem t = mem s"
proof -
  obtain u where u: "key_pressed (key_char dev) s = Some u" "t = outb 0x20 0x20 u"
    using k by (auto simp: handler_key_pressed)
  from key_pressed_step [OF ok u(1)]
  show "kbd_ok t" "pending t = edit (key_char dev) (pending s)"
    "out_log t = out_log s @ [(0x20, 0x20)]" "mem t = mem s"
    by (simp_all add: u(2))
qed

lemma type_keys_edit:
  assumes "kbd_ok s" "\<forall>k \<in> set ks. key_char (key_port k) \<noteq> newline"
  shows "\<exists>t. type_keys ks s = Some t \<and> kbd_ok t \<and> mem t = mem s \<and>
    pending t = foldl (\<lambda>l k. edit (key_char (key_port k)) l) (pending s) ks"
  using assms
proof (induction ks arbitrary: s)
  case Nil
  then show ?case by simp
next
  case (Cons k ks)
  have "keyboard_handler_main (key_port k) s \<noteq> None"
    using Cons.prems key_pressed_returns [of "key_char (key_port k)" s] by (simp add: handler_key_pressed)
  then obtain u where u: "keyboard_handler_main (key_port k) s = Some u" by auto
  note h = handler_step [OF Cons.prems(1) u]
  from Cons.IH [OF h(1)] Cons.prems(2) h(2,4) show ?case by (simp add: u)
qed

definition typist :: keyboard where
  "typist = shell.extend idle \<lparr>shell_buffer = replicate 256 0, buffer_idx = 0\<rparr>"

lemma typist_facts: "kbd_ok typist" "pending typist = []" "echoed typist" "vga_limit typist = 0"
  "cr0 typist = 0x11"
  by (simp_all add: typist_def kbd_ok_def pending_def echoed_def shell.extend_def)

section \<open>Properties\<close>

text \<open>C19: A keyboard interrupt is one step of a line editor: the line is edited by the character of
  the key (letters are appended up to 255 of them, backspace removes the last, Enter takes the
  whole line, releases and unmapped keys change nothing), the 256-byte buffer is never overrun,
  RAM is untouched, and exactly one end-of-interrupt is sent. Without Enter the handler
  always returns.\<close>

theorem keyboard_edits_line:
  assumes "kbd_ok s"
  shows "(\<forall>t. keyboard_handler_main dev s = Some t \<longrightarrow>
       kbd_ok t \<and> pending t = edit (key_char dev) (pending s) \<and> mem t = mem s \<and>
       out_log t = out_log s @ [(0x20, 0x20)]) \<and>
    (key_char dev \<noteq> newline \<longrightarrow> keyboard_handler_main dev s \<noteq> None)"
proof (intro conjI allI impI)
  fix t assume t: "keyboard_handler_main dev s = Some t"
  note h = handler_step [OF assms t]
  show "kbd_ok t" "pending t = edit (key_char dev) (pending s)" "mem t = mem s"
    "out_log t = out_log s @ [(0x20, 0x20)]" using h by simp_all
next
  assume "key_char dev \<noteq> newline"
  from key_pressed_returns [OF this, of s] show "keyboard_handler_main dev s \<noteq> None"
    by (simp add: handler_key_pressed)
qed

theorem keyboard_edits_line_witness:
  "\<exists>t. keyboard_handler_main (key_port 0x1E) typist = Some t \<and> pending t = lit ''a''"
proof -
  have c: "key_char (key_port 0x1E) = 0x61"
    by (simp add: key_char_port kbd_us_keys newline_def)
  note k = keyboard_edits_line [OF typist_facts(1), of "key_port 0x1E"]
  obtain t where t: "keyboard_handler_main (key_port 0x1E) typist = Some t"
    using k [THEN conjunct2] by (auto simp: c newline_def)
  with k [THEN conjunct1] have "pending t = edit (key_char (key_port 0x1E)) (pending typist)" by blast
  with t show ?thesis by (simp add: c edit_def typist_facts ctrl_defs lit_def)
qed

text \<open>C20: Typing a line and pressing Enter runs the command of its words: after any keys without
  Enter the pending line is what the line editor makes of them, and Enter runs the command
  interpreter on its first sixteen words, empties the line, prints the prompt and moves the
  place that backspace may not pass behind it.\<close>

theorem typed_line_runs:
  assumes "kbd_ok s" "pending s = []" "\<forall>k \<in> set ks. key_char (key_port k) \<noteq> newline"
    "line = foldl (\<lambda>l k. edit (key_char (key_port k)) l) [] ks"
  shows "\<exists>u. type_keys ks s = Some u \<and> pending u = line \<and>
    keyboard_handler_main (key_port 0x1C) u =
      map_option (\<lambda>t. outb 0x20 0x20 (prompt
          (t\<lparr>shell_buffer := cut ((shell_buffer u)[buffer_idx u := 0]), buffer_idx := 0\<rparr>)))
        (run_words (take 16 (tokens line)) (entered u)) \<and>
    (\<forall>t. keyboard_handler_main (key_port 0x1C) u = Some t \<longrightarrow>
       kbd_ok t \<and> pending t = [] \<and> vga_limit t = vga_index t)"
proof -
  obtain u where u: "type_keys ks s = Some u" "kbd_ok u" "pending u = line"
    using type_keys_edit [OF assms(1,3)] assms(2,4) by auto
  have c: "key_char (key_port 0x1C) = newline"
    by (simp add: key_char_port kbd_us_keys newline_def)
  have h: "keyboard_handler_main (key_port 0x1C) u = map_option (\<lambda>t. outb 0x20 0x20 (prompt
          (t\<lparr>shell_buffer := cut ((shell_buffer u)[buffer_idx u := 0]), buffer_idx := 0\<rparr>)))
        (run_words (take 16 (tokens line)) (entered u))"
    using enter_runs_words [OF u(2)] u(3)
    by (simp add: handler_key_pressed c option.map_comp comp_def)
  moreover have "kbd_ok t \<and> pending t = [] \<and> vga_limit t = vga_index t"
    if "keyboard_handler_main (key_port 0x1C) u = Some t" for t
    using handler_step [OF u(2) that] c that h by (auto simp: edit_def prompt_def outb_def)
  ultimately show ?thesis using u by blast
qed

theorem typed_line_runs_witness:
  "\<exists>u t. type_keys [0x23, 0x12, 0x26, 0x19, 0x0F, 0x0E] typist = Some u \<and> pending u = lit ''help'' \<and>
     keyboard_handler_main (key_port 0x1C) u = Some t"
proof -
  have c: "key_char (key_port 0x23) = 0x68" "key_char (key_port 0x12) = 0x65"
    "key_char (key_port 0x26) = 0x6C" "key_char (key_port 0x19) = 0x70"
    "key_char (key_port 0x0F) = 0x09" "key_char (key_port 0x0E) = 0x08"
    by (simp_all add: key_char_port kbd_us_keys newline_def)
  have l: "lit ''help'' = foldl (\<lambda>l k. edit (key_char (key_port k)) l) [] [0x23, 0x12, 0x26, 0x19, 0x0F, 0x0E]"
    by (simp add: c edit_def ctrl_defs lit_def)
  have w: "tokens (lit ''help'') = [lit ''help'']"
    by (simp add: lit_def blank_char_def ctrl_defs tab_def)
  show ?thesis
    using typed_line_runs [OF typist_facts(1,2) _ l] by (auto simp: c w run_words_def ctrl_defs)
qed

text \<open>C36: The screen keeps up with the line editor: as long as the line, before and after the key, ends before the
  last cell of the screen, every key (Enter apart) leaves the screen showing exactly the pending line
  behind the locked place, with the cursor at its end.\<close>

theorem echo_in_sync:
  assumes "kbd_ok s" "echoed s" "unat (vga_limit s) + length (pending s) < 2000"
    "unat (vga_limit s) + length (edit (key_char dev) (pending s)) < 2000" "key_char dev \<noteq> newline"
  shows "\<exists>t. keyboard_handler_main dev s = Some t \<and> echoed t \<and> vga_limit t = vga_limit s"
proof -
  obtain t where t: "key_pressed (key_char dev) s = Some t"
    using key_pressed_returns [OF assms(5), of s] by auto
  from echoed_key [OF assms t] show ?thesis
    by (simp add: handler_key_pressed t echoed_outb outb_def)
qed

theorem echo_in_sync_witness:
  "\<exists>t. keyboard_handler_main (key_port 0x1E) (typist\<lparr>vga_index := 1990, vga_limit := 1990\<rparr>) = Some t \<and> echoed t"
proof -
  let ?s = "typist\<lparr>vga_index := 1990, vga_limit := 1990\<rparr>"
  have p: "pending ?s = []" using typist_facts(2) by (simp add: pending_def)
  moreover have "kbd_ok ?s" using typist_facts(1,2) by (simp add: kbd_ok_def pending_def)
  ultimately have s: "kbd_ok ?s" "pending ?s = []" "echoed ?s" by (simp_all only: echoed_def p) simp_all
  have c: "key_char (key_port 0x1E) \<noteq> newline"
    by (simp add: key_char_port kbd_us_keys newline_def)
  have "length (edit k []) \<le> 1" for k by (simp add: edit_def)
  from this [of "key_char (key_port 0x1E)"]
  have "unat (vga_limit ?s) + length (edit (key_char (key_port 0x1E)) (pending ?s)) < 2000" by (simp add: s(2))
  moreover have "unat (vga_limit ?s) + length (pending ?s) < 2000" by (simp add: s(2))
  ultimately show ?thesis using echo_in_sync [OF s(1,3) _ _ c] by blast
qed

text \<open>Scrolling breaks the echo: the locked place is not moved up with the text, so when the
  cursor stands at or before it (a line typed past the last row of the screen) backspace takes the
  last character of the pending line and leaves the screen as it is.\<close>

theorem backspace_after_scroll:
  assumes "kbd_ok s" "pending s \<noteq> []" "vga_index s \<le> vga_limit s" "vga_index s < 2000"
    "key_char dev = backspace"
  shows "\<exists>t. keyboard_handler_main dev s = Some t \<and> pending t = butlast (pending s) \<and>
    vga_buff t = vga_buff s \<and> vga_index t = vga_index s"
proof -
  have "0 < buffer_idx s" using assms(2) by (auto simp: pending_def)
  then have t: "key_pressed backspace s = Some (s\<lparr>buffer_idx := buffer_idx s - 1\<rparr>)"
    using assms(3,4) by (simp add: key_pressed_def print_one place_def scroll_def ctrl_defs Let_def)
  have "pending (s\<lparr>buffer_idx := buffer_idx s - 1\<rparr>) = edit backspace (pending s)"
    using key_pressed_step [OF assms(1) t] by simp
  moreover have "backspace \<noteq> newline" by (simp add: ctrl_defs)
  ultimately show ?thesis
    by (simp add: handler_key_pressed assms(5) t edit_def) (simp add: outb_def)
qed

text \<open>The last row is full up to its last cell, and behind the prompt stand 65 letters.\<close>

definition full_row :: keyboard where
  "full_row = typist\<lparr>shell_buffer := replicate 65 0x61 @ replicate 191 0, buffer_idx := 65,
     vga_index := 1999, vga_limit := 1934\<rparr>"

theorem backspace_after_scroll_witness:
  "\<exists>u t. keyboard_handler_main (key_port 0x1E) full_row = Some u \<and>
     keyboard_handler_main (key_port 0x0E) u = Some t \<and> pending t = butlast (pending u) \<and>
     vga_buff t = vga_buff u"
proof -
  have ok: "kbd_ok full_row" using typist_facts(1) by (simp add: full_row_def kbd_ok_def pending_def)
  have c: "key_char (key_port 0x1E) = 0x61" "key_char (key_port 0x0E) = backspace"
    by (simp_all add: key_char_port kbd_us_keys backspace_def)
  define u where "u = outb 0x20 0x20 (vga_print [0x61, 0]
    (full_row\<lparr>shell_buffer := (shell_buffer full_row)[65 := 0x61], buffer_idx := 66\<rparr>))"
  have u: "keyboard_handler_main (key_port 0x1E) full_row = Some u"
    by (simp add: handler_key_pressed c key_pressed_def ctrl_defs u_def full_row_def Let_def)
  have p: "pending u = edit 0x61 (pending full_row)" using handler_step(2) [OF ok u] c by simp
  have "vga_index u = 1920" "vga_limit u = 1934"
    by (simp_all add: u_def outb_def print_one scroll_def place_def ctrl_defs full_row_def)
  moreover have "length (pending full_row) = 65" by (simp add: full_row_def pending_def)
  then have "pending u \<noteq> []" by (simp add: p edit_def ctrl_defs)
  ultimately show ?thesis
    using backspace_after_scroll [OF handler_step(1) [OF ok u], of "key_port 0x0E"] c u by auto
qed

end
