(* ===== verification/Kernel.thy ===== *)
theory Kernel
  imports Keyboard
begin

text \<open>
  The start of the system (\<open>kernel.c\<close>): \<open>kernel_main\<close> with everything it calls, up to the loop
  around \<open>hlt\<close> of \<open>kernel_shell\<close>. What the boot loader, the linker and the assembly files give the
  kernel is collected in a record \<open>platform\<close>: the addresses of its tables, of its end and of its
  interrupt stubs, and what the interrupt controllers answer. The result is \<open>None\<close> when the start
  does not come to its end (a page fault, a loop that never ends), \<open>Returns s\<close> when
  \<open>kernel_main\<close> returns, and \<open>Halts s\<close> when it reaches a loop around \<open>hlt\<close> in state \<open>s\<close>.
\<close>

section \<open>The code\<close>

record platform =
  kernel_end :: u32
  gdt_address :: u32
  tss_address :: u32
  tss_stack_top :: u32
  idt_address :: u32
  handlers :: stubs
  devices :: "u16 \<Rightarrow> u8"

text \<open>\<open>interrupts\<close> is the interrupt flag of the processor, which \<open>sti\<close> sets.\<close>

record kernel = keyboard +
  interrupts :: bool

definition MULTIBOOT_NUMBER_CHECK :: u32 where
  "MULTIBOOT_NUMBER_CHECK = 0x2BADB002"

definition kernel_shell :: "'a kernel_scheme \<Rightarrow> 'a kernel_scheme outcome" where
  "kernel_shell s = Halts (vga_lock_cursor (vga_print_color (lit ''root@ng-os:~ '') 0x03 s))"

text \<open>\<open>kernel_directory->entries[i] |= 7\<close> for the slots of a list. Paging is on: the directory is
  read and written through its virtual address.\<close>

fun open_entries :: "nat list \<Rightarrow> 'a paging_scheme \<Rightarrow> 'a paging_scheme option" where
  "open_entries [] s = Some s"
| "open_entries (i # is) s = do {
     e \<leftarrow> vload32 (kernel_directory s + 4 * of_nat i) s;
     s \<leftarrow> vstore32 (kernel_directory s + 4 * of_nat i) (e OR 7) s;
     open_entries is s
   }"

definition total_ram_size :: "memory \<Rightarrow> u32 \<Rightarrow> u32" where
  "total_ram_size m mb_info = (mb_mem_lower m mb_info + mb_mem_upper m mb_info) * 1024"

definition kernel_main :: "platform \<Rightarrow> u32 \<Rightarrow> u32 \<Rightarrow> 'a kernel_scheme \<Rightarrow> 'a kernel_scheme outcome option" where
  "kernel_main pf grub_magic_number mb_info s =
     (let s = vga_clear_screen s
      in if grub_magic_number \<noteq> MULTIBOOT_NUMBER_CHECK
         then Some (Returns (vga_print (lit ''FATAL ERROR: Invalid Multiboot Magic Number.\<newline>'') s))
         else do {
           let s = gdt_init (gdt_address pf) (tss_address pf) (tss_stack_top pf) s;
           let s = klog_ok (lit ''GDT Loaded Successfully!\<newline>'') s;
           let s = tss_flush s;
           let s = idt_init (devices pf) (idt_address pf) (handlers pf) s;
           let s = klog_ok (lit ''IDT Initialized. Hardware interrupts active.\<newline>'') s;
           s \<leftarrow> pit_init 18 s;
           let s = pmm_init (kernel_end pf) (total_ram_size (mem s) mb_info) s;
           let s = klog_ok (lit ''PMM Initialized.\<newline>'') s;
           s \<leftarrow> parse_memory_map mb_info s;
           let s = pmm_lock_memory 0x0 s;
           (case paging_init s of
              Halts s \<Rightarrow> Some (Halts s)
            | Returns s \<Rightarrow> do {
                let s = klog_ok (lit ''Paging Initialized.\<newline>'') s;
                s \<leftarrow> heap_init s;
                let s = klog_ok (lit ''Heap Initialized.\<newline>'') s;
                s \<leftarrow> task_init s;
                let s = klog_ok (lit ''Task Initialized.\<newline>'') s;
                let s = os_greeting (lit ''NG-OS :)'') s;
                s \<leftarrow> open_entries [0..<1024] s;
                let s = s\<lparr>cr3 := cr3 s\<rparr>;
                let s = klog_ok (lit ''Multitasking Engine Engaged. Waiting for first tick...'') s;
                let s = s\<lparr>interrupts := True\<rparr>;
                let s = vga_clear_screen s;
                Some (kernel_shell s)
              })
         })"

section \<open>Before the memory map\<close>

text \<open>The state of a C program at its start, as far as the kernel relies on it.\<close>

definition cold :: "'a kernel_scheme \<Rightarrow> bool" where
  "cold s \<longleftrightarrow> length (gdt_entries s) = 6 \<and> length (idt_table s) = 256 \<and> length (current_args s) = 16 \<and>
     length (shell_buffer s) = 256 \<and> buffer_idx s = 0"

definition tables_loaded :: "platform \<Rightarrow> 'a kernel_scheme \<Rightarrow> 'a kernel_scheme" where
  "tables_loaded pf s = klog_ok (lit ''IDT Initialized. Hardware interrupts active.\<newline>'')
     (idt_init (devices pf) (idt_address pf) (handlers pf)
        (tss_flush (klog_ok (lit ''GDT Loaded Successfully!\<newline>'')
           (gdt_init (gdt_address pf) (tss_address pf) (tss_stack_top pf) (vga_clear_screen s)))))"

definition timer_programmed :: "'a kernel_scheme \<Rightarrow> 'a kernel_scheme" where
  "timer_programmed s = outb 0x40 0x02 (outb 0x40 0xEF (outb 0x43 0x36 s))"

definition frames_locked :: "platform \<Rightarrow> u32 \<Rightarrow> 'a kernel_scheme \<Rightarrow> 'a kernel_scheme" where
  "frames_locked pf mb s = klog_ok (lit ''PMM Initialized.\<newline>'')
     (pmm_init (kernel_end pf) (total_ram_size (mem s) mb) s)"

definition heap_and_task :: "'a kernel_scheme \<Rightarrow> 'a kernel_scheme option" where
  "heap_and_task s = do {
     s \<leftarrow> heap_init (klog_ok (lit ''Paging Initialized.\<newline>'') s);
     task_init (klog_ok (lit ''Heap Initialized.\<newline>'') s)
   }"

definition opened_up :: "'a kernel_scheme \<Rightarrow> 'a kernel_scheme outcome option" where
  "opened_up s = do {
     s \<leftarrow> open_entries [0..<1024] (os_greeting (lit ''NG-OS :)'') (klog_ok (lit ''Task Initialized.\<newline>'') s));
     let s = klog_ok (lit ''Multitasking Engine Engaged. Waiting for first tick...'') s;
     Some (kernel_shell (vga_clear_screen (s\<lparr>interrupts := True\<rparr>)))
   }"

text \<open>The state behind \<open>task_init\<close>, where \<open>kernel.c\<close> has its two calls of \<open>create_task\<close>, in a comment.\<close>

definition first_task :: "platform \<Rightarrow> u32 \<Rightarrow> 'a kernel_scheme \<Rightarrow> 'a kernel_scheme option" where
  "first_task pf mb s = do {
     s \<leftarrow> parse_memory_map mb (frames_locked pf mb (timer_programmed (tables_loaded pf s)));
     case paging_init (pmm_lock_memory 0 s) of Halts s \<Rightarrow> None | Returns s \<Rightarrow> heap_and_task s
   }"

lemma pit_18: "pit_init 18 s = Some (outb 0x40 0x02 (outb 0x40 0xEF (outb 0x43 0x36 s)))"
  by (simp add: pit_init_def Let_def drop_bit_eq_div)

lemma kernel_main_eq:
  "kernel_main pf MULTIBOOT_NUMBER_CHECK mb s = do {
     s \<leftarrow> parse_memory_map mb (frames_locked pf mb (timer_programmed (tables_loaded pf s)));
     case paging_init (pmm_lock_memory 0 s) of Halts s \<Rightarrow> Some (Halts s)
     | Returns s \<Rightarrow> Option.bind (heap_and_task s) opened_up
   }"
proof -
  have c: "s\<lparr>cr3 := cr3 s\<rparr> = s" for s :: "'a kernel_scheme" by simp
  show ?thesis
    unfolding kernel_main_def tables_loaded_def timer_programmed_def frames_locked_def heap_and_task_def
      opened_up_def pit_18 Option.bind_assoc Let_def c by simp
qed

lemma kernel_main_first_task:
  "first_task pf mb s = Some x \<Longrightarrow> kernel_main pf MULTIBOOT_NUMBER_CHECK mb s = opened_up x"
proof -
  assume f: "first_task pf mb s = Some x"
  then obtain u where u: "parse_memory_map mb (frames_locked pf mb (timer_programmed (tables_loaded pf s))) = Some u"
    by (auto simp: first_task_def bind_eq_Some_conv)
  with f show ?thesis by (cases "paging_init (pmm_lock_memory 0 u)") (simp_all add: first_task_def kernel_main_eq)
qed

lemma bad_magic:
  "magic \<noteq> MULTIBOOT_NUMBER_CHECK \<Longrightarrow> kernel_main pf magic mb s =
     Some (Returns (vga_print (lit ''FATAL ERROR: Invalid Multiboot Magic Number.\<newline>'') (vga_clear_screen s)))"
  by (simp add: kernel_main_def)
text \<open>What survives the printing and the tables: the fields above those of \<open>idt.c\<close>.\<close>

lemma vga_more_fields:
  fixes s t :: "'a idt_scheme"
  assumes "vga.more t = vga.more s"
  shows "idt.more t = idt.more s" "gdt_entries t = gdt_entries s" "idt_table t = idt_table s"
    "gdtr t = gdtr s" "idtr t = idtr s" "tss t = tss s" "task_register t = task_register s" "cr0 t = cr0 s"
  using assms by (cases t; cases s; simp)+

lemma pmm_more_fields:
  fixes s t :: "'a idt_scheme"
  assumes "pmm.more t = pmm.more s"
  shows "idt.more t = idt.more s" "gdt_entries t = gdt_entries s" "idt_table t = idt_table s"
    "gdtr t = gdtr s" "idtr t = idtr s" "tss t = tss s" "task_register t = task_register s" "cr0 t = cr0 s"
  using assms by (cases t; cases s; simp)+

lemma gdt_init_frame:
  assumes "length (gdt_entries s) = 6"
  shows "mem (gdt_init ga ta st s) = mem s" "cr0 (gdt_init ga ta st s) = cr0 s" "gdt.more (gdt_init ga ta st s) = gdt.more s"
  by (simp_all add: gdt_init_eq [OF assms])

lemma outb_idt [simp]:
  fixes s :: "'a idt_scheme"
  shows "idt.more (outb p v s) = idt.more s" "idt_table (outb p v s) = idt_table s" "gdt_entries (outb p v s) = gdt_entries s"
    "cr0 (outb p v s) = cr0 s"
  by (simp_all add: outb_def)

lemma idt_init_frame:
  assumes "length (idt_table s) = 256"
  shows "mem (idt_init dev a st s) = mem s" "cr0 (idt_init dev a st s) = cr0 s" "idt.more (idt_init dev a st s) = idt.more s"
    "gdt_entries (idt_init dev a st s) = gdt_entries s"
  using assms by (simp_all add: idt_init_def Let_def clear_gates_eq idt_set_gate_eq pic_remap_def)

lemma tables_loaded_facts:
  assumes c: "cold s"
  shows "mem (tables_loaded pf s) = mem s" "idt.more (tables_loaded pf s) = idt.more s"
    "gdt_entries (tables_loaded pf s) = gdt_entries (gdt_init (gdt_address pf) (tss_address pf) (tss_stack_top pf) s)"
    "idt_table (tables_loaded pf s) = idt_table (idt_init (devices pf) (idt_address pf) (handlers pf) s)"
    "cr0 (tables_loaded pf s) = cr0 s"
proof -
  let ?g = "gdt_init (gdt_address pf) (tss_address pf) (tss_stack_top pf)"
  define c0 where "c0 = vga_clear_screen s"
  have c0: "mem c0 = mem s" "vga.more c0 = vga.more s" by (simp_all add: c0_def vga_clear_screen_def)
  note c0m = vga_more_fields [OF c0(2)]
  have l: "length (gdt_entries c0) = 6" "length (idt_table c0) = 256" using c c0m by (simp_all add: cold_def)
  define g where "g = klog_ok (lit ''GDT Loaded Successfully!\<newline>'') (?g c0)"
  have "gdt.more (?g c0) = gdt.more c0" by (rule gdt_init_frame [OF l(1)])
  then have gm: "idt.more (?g c0) = idt.more c0" "idt_table (?g c0) = idt_table c0"
    by (cases "?g c0"; cases c0; simp)+
  have "vga.more g = vga.more (?g c0)" by (simp add: g_def)
  note g = vga_more_fields [OF this]
  have g': "mem g = mem s" "idt.more g = idt.more s" "idt_table g = idt_table s" "gdt_entries g = gdt_entries (?g s)" "cr0 g = cr0 s"
    using g gm c0 c0m gdt_init_frame [OF l(1)] l(1) c by (simp_all add: g_def gdt_init_eq cold_def)
  have t: "mem (tss_flush g) = mem g" "idt.more (tss_flush g) = idt.more g" "idt_table (tss_flush g) = idt_table g"
    "gdt_entries (tss_flush g) = gdt_entries g" "cr0 (tss_flush g) = cr0 g"
    by (simp_all add: tss_flush_def)
  define i where "i = idt_init (devices pf) (idt_address pf) (handlers pf) (tss_flush g)"
  have li: "length (idt_table (tss_flush g)) = 256" using g'(3) t c by (simp add: cold_def)
  have "vga.more (tables_loaded pf s) = vga.more i" by (simp add: tables_loaded_def i_def g_def c0_def)
  note e = vga_more_fields [OF this]
  have "mem (tables_loaded pf s) = mem i" by (simp add: tables_loaded_def i_def g_def c0_def)
  then show "mem (tables_loaded pf s) = mem s" using idt_init_frame [OF li] t g' by (simp add: i_def)
  show "idt.more (tables_loaded pf s) = idt.more s" "gdt_entries (tables_loaded pf s) = gdt_entries (?g s)"
    "cr0 (tables_loaded pf s) = cr0 s"
    using e idt_init_frame [OF li] t g' by (simp_all add: i_def)
  show "idt_table (tables_loaded pf s) = idt_table (idt_init (devices pf) (idt_address pf) (handlers pf) s)"
    using e li c by (simp add: i_def idt_init_table cold_def)
qed
section \<open>The memory map\<close>

lemma fill32_outside:
  assumes "4 * n \<le> k" "k \<le> 2 ^ 32" "unat (a - p) \<ge> k"
  shows "fill32 p n f m a = m a"
  using assms
proof (induction n)
  case 0
  then show ?case by (simp add: fill32_def)
next
  case (Suc n)
  have "unat (a - (p + of_nat (4 * n))) = unat (a - p) - 4 * n"
  proof -
    have "unat (of_nat (4 * n) :: u32) = 4 * n" using Suc.prems unat_less_32 [of "a - p"]
      by (simp add: unat_of_nat del: of_nat_mult)
    moreover have "a - (p + of_nat (4 * n)) = (a - p) - of_nat (4 * n)" by simp
    ultimately show ?thesis using Suc.prems by (simp only: unat_sub_if_size) (simp add: word_size)
  qed
  then have "4 \<le> unat (a - entry p n)" using Suc.prems by simp
  from store32_byte [OF this] show ?case using Suc by (simp add: fill32_def)
qed

text \<open>The allocator right after \<open>pmm_init\<close>, and the blocks that the map and the lock of block 0 leave free.\<close>

definition locked_start :: "platform \<Rightarrow> u32 \<Rightarrow> 'a kernel_scheme \<Rightarrow> 'a kernel_scheme" where
  "locked_start pf mb s = pmm_init (kernel_end pf) (total_ram_size (mem s) mb) s"

definition usable :: "platform \<Rightarrow> u32 \<Rightarrow> mmap_entry list \<Rightarrow> 'a kernel_scheme \<Rightarrow> nat set" where
  "usable pf mb es s = available es \<inter> {..<managed (locked_start pf mb s)} - {0}"

text \<open>
  \<open>sound_map\<close>: the memory map is well formed and not overwritten by the bitmap behind the kernel, the
  bitmap is in the first 4 MB, where its addresses stay valid when paging is on, and the lowest
  four usable blocks are clear of it. The start succeeds when four usable blocks are in the first
  4 MB: for the directory, the table of the first 4 MB, the heap page and its table.
\<close>

definition sound_map :: "platform \<Rightarrow> u32 \<Rightarrow> mmap_entry list \<Rightarrow> 'a kernel_scheme \<Rightarrow> bool" where
  "sound_map pf mb es s \<longleftrightarrow>
     mb_flags (mem s) mb AND push_bit 6 1 \<noteq> 0 \<and>
     map_at (mem s) (mb_mmap_addr (mem s) mb) (mb_mmap_addr (mem s) mb + mb_mmap_length (mem s) mb) es \<and>
     (span mb 52 \<union> map_bytes (mb_mmap_addr (mem s) mb) es) \<inter> bitmap_span (locked_start pf mb s) = {} \<and>
     no_overflow es \<and> (\<forall>a \<in> bitmap_span (locked_start pf mb s). unat a < 0x400000) \<and>
     (\<forall>b \<in> usable pf mb es s. card {c \<in> usable pf mb es s. c < b} < 4 \<longrightarrow>
        span (of_nat b * BLOCK_SIZE) 4096 \<inter> bitmap_span (locked_start pf mb s) = {})"

definition low_usable :: "platform \<Rightarrow> u32 \<Rightarrow> mmap_entry list \<Rightarrow> 'a kernel_scheme \<Rightarrow> nat set" where
  "low_usable pf mb es s = {b \<in> usable pf mb es s. b < 1024}"

definition bootable :: "platform \<Rightarrow> u32 \<Rightarrow> mmap_entry list \<Rightarrow> 'a kernel_scheme \<Rightarrow> bool" where
  "bootable pf mb es s \<longleftrightarrow> sound_map pf mb es s \<and> 4 \<le> card (low_usable pf mb es s)"

lemma init_agree: "agree (- bitmap_span (pmm_init e r s)) (mem s) (mem (pmm_init e r s))"
proof -
  have d: "unat (r div BLOCK_SIZE div 32) = unat (r div BLOCK_SIZE) div 32" by (simp add: unat_div)
  have b: "unat (r div BLOCK_SIZE) < 2 ^ 20" using block_of_bound [of r] by (simp add: unat_block)
  have "mem (pmm_init e r s) a = mem s a" if "a \<notin> bitmap_span (pmm_init e r s)" for a
  proof -
    have "4 * ((unat (r div BLOCK_SIZE) + 31) div 32) \<le> unat (a - e)"
      using that by (simp add: bitmap_span_def)
    then show ?thesis
      using fill32_outside [of "unat (r div BLOCK_SIZE) div 32" "4 * ((unat (r div BLOCK_SIZE) + 31) div 32)" a e] b
      by (simp add: pmm_init_def Let_def d)
  qed
  then show ?thesis by (simp add: agree_def)
qed

lemma init_free: "free_blocks (pmm_init e r s) = {}"
  using init_in_use [of _ e r s] by (auto simp: free_blocks_def)

lemma lock_fields:
  "pmm.more (pmm_lock_memory a s) = pmm.more s" "pmm_bitmap (pmm_lock_memory a s) = pmm_bitmap s"
  "bitmap_span (pmm_lock_memory a s) = bitmap_span s"
  by (simp_all add: lock_memory_eq bitmap_span_def set_bitmap_word_def)

lemma lock_agree:
  assumes "block_of a < unat (total_blocks s)"
  shows "agree (- bitmap_span s) (mem s) (mem (pmm_lock_memory a s))"
proof -
  have "mem (pmm_lock_memory a s) x = mem s x" if "x \<notin> bitmap_span s" for x
  proof -
    have "block_of a div 32 < (unat (total_blocks s) + 31) div 32"
      using assms by (simp add: less_eq_div_iff_mult_less_eq Suc_le_eq [symmetric])
    then have "4 * (block_of a div 32 + 1) \<le> unat (x - pmm_bitmap s)"
      using that by (simp add: bitmap_span_def)
    from set_word_mem [OF this] show ?thesis by (simp add: lock_memory_eq)
  qed
  then show ?thesis by (simp add: agree_def)
qed

lemma memory_mapped:
  fixes s :: "'a kernel_scheme"
  assumes c: "cold s" and b: "sound_map pf mb es s" and ne: "usable pf mb es s \<noteq> {}"
  defines "p \<equiv> locked_start pf mb s"
  shows "\<exists>t. parse_memory_map mb (frames_locked pf mb (timer_programmed (tables_loaded pf s))) = Some t \<and>
     pmm_ok (pmm_lock_memory 0 t) \<and> free_blocks (pmm_lock_memory 0 t) = usable pf mb es s \<and>
     bitmap_span (pmm_lock_memory 0 t) = bitmap_span p \<and>
     idt.more (pmm_lock_memory 0 t) = idt.more s \<and>
     gdt_entries (pmm_lock_memory 0 t) = gdt_entries (tables_loaded pf s) \<and>
     idt_table (pmm_lock_memory 0 t) = idt_table (tables_loaded pf s) \<and> cr0 (pmm_lock_memory 0 t) = cr0 s \<and>
     agree (- bitmap_span p) (mem s) (mem (pmm_lock_memory 0 t))"
proof -
  define l where "l = timer_programmed (tables_loaded pf s)"
  have l: "mem l = mem s" "idt.more l = idt.more s" "gdt_entries l = gdt_entries (tables_loaded pf s)"
    "idt_table l = idt_table (tables_loaded pf s)" "cr0 l = cr0 s"
    using tables_loaded_facts [OF c, of pf] by (simp_all add: l_def timer_programmed_def)
  define q where "q = pmm_init (kernel_end pf) (total_ram_size (mem s) mb) l"
  have pq: "mem q = mem p" "total_blocks q = total_blocks p" "pmm_bitmap q = pmm_bitmap p"
    using l(1) by (simp_all add: q_def p_def locked_start_def) (simp add: pmm_init_def Let_def)
  define f where "f = frames_locked pf mb l"
  have "same_pmm q f" unfolding f_def frames_locked_def q_def l(1) by (rule frp.ok [OF same_pmm_refl])
  note sq = same_pmm_blocks [OF this] same_pmm_span [OF this]
  have sp: "bitmap_span f = bitmap_span p" "bitmap_span q = bitmap_span p" "managed f = managed p"
    using pq sq by (simp_all add: bitmap_span_def managed_def)
  have ag: "agree (- bitmap_span p) (mem s) (mem f)"
    using init_agree [of "kernel_end pf" "total_ram_size (mem s) mb" s] sq pq by (simp add: p_def locked_start_def)
  have B: "(span mb 52 \<union> map_bytes (mb_mmap_addr (mem s) mb) es) \<inter> bitmap_span p = {}"
    using b by (simp add: sound_map_def p_def)
  have agm: "agree (span mb 52) (mem s) (mem f)" using agree_mono [OF ag] B by blast
  note ld = load32_agree [OF agm]
  have mbf: "mb_flags (mem f) mb = mb_flags (mem s) mb" "mb_mmap_addr (mem f) mb = mb_mmap_addr (mem s) mb"
    "mb_mmap_length (mem f) mb = mb_mmap_length (mem s) mb"
    using ld [of 0] ld [of 44] ld [of 48] by (simp_all add: mb_flags_def mb_mmap_addr_def mb_mmap_length_def)
  have mp: "map_at (mem f) (mb_mmap_addr (mem s) mb) (mb_mmap_addr (mem s) mb + mb_mmap_length (mem s) mb) es"
    by (rule map_at_agree [OF _ agree_mono [OF ag]]) (use b B in \<open>auto simp: sound_map_def\<close>)
  have fl: "mb_flags (mem s) mb AND push_bit 6 1 \<noteq> 0" and no: "no_overflow es" using b by (simp_all add: sound_map_def)
  have ok: "pmm_ok f" using sq by (simp add: q_def)
  obtain t where t: "parse_memory_map mb f = Some t" "released (available es) f t"
    using parse_memory_map_releases [of f mb es] fl mp B no ok by (auto simp: mbf sp)
  have ft: "free_blocks t = available es \<inter> {..<managed p}"
    using t(2) sq sp by (simp add: released_def q_def init_free)
  let ?u = "pmm_lock_memory 0 t"
  have okt: "pmm_ok t" using released_ok [OF t(2)] ok by simp
  have fu: "free_blocks ?u = usable pf mb es s" using free_blocks_lock [OF okt, of 0] ft by (simp add: usable_def p_def)
  have st: "bitmap_span t = bitmap_span p" using t(2) sp by (simp add: released_def bitmap_span_def)
  have m: "pmm.more ?u = pmm.more l" using t(2) sq by (simp add: released_def lock_fields q_def)
  have "0 < managed p" using ne by (auto simp: usable_def p_def)
  then have "0 < unat (total_blocks t)" using t(2) sp by (auto simp: released_def managed_def)
  then have "agree (- bitmap_span p) (mem t) (mem ?u)" using lock_agree [of 0 t] st by simp
  moreover have "agree (- bitmap_span p) (mem f) (mem t)" using t(2) sp by (simp add: released_def)
  ultimately have "agree (- bitmap_span p) (mem s) (mem ?u)" using ag agree_trans by blast
  then show ?thesis
    using t(1) okt fu st pmm_more_fields [OF m] l by (simp add: f_def l_def lock_fields)
qed
section \<open>Paging, heap and the first task\<close>

lemma vstore_more: "vstore32 a v s = Some t \<Longrightarrow> paging.more t = paging.more s"
  by (auto simp: vstore32_def split: if_splits)

lemma vga_more_paging:
  fixes s t :: "'a paging_scheme"
  shows "vga.more t = vga.more s \<Longrightarrow> paging.more t = paging.more s"
  by (cases t; cases s; simp)

lemma alloc_paging_more: "paging.more (snd (pmm_alloc_block s)) = paging.more s"
proof -
  have "pmm.more (snd (pmm_alloc_block s)) = pmm.more s" by simp
  then show ?thesis by (cases "snd (pmm_alloc_block s)"; cases s; simp)
qed

lemma vfill32_more: "vfill32 p n f s = Some t \<Longrightarrow> paging.more t = paging.more s"
  by (induction n arbitrary: t) (auto simp: bind_eq_Some_conv dest: vstore_more)

lemma map_page_more: "map_page va pa s = Some t \<Longrightarrow> paging.more t = paging.more s"
  by (auto simp: map_page_def Let_def case_prod_beta bind_eq_Some_conv alloc_paging_more
      dest!: vstore_more vfill32_more split: if_splits)

lemma console_paging_more [simp]:
  fixes s :: "'a paging_scheme"
  shows "paging.more (klog_ok m s) = paging.more s" "paging.more (vga_print m s) = paging.more s"
    "paging.more (os_greeting m s) = paging.more s"
  by (rule vga_more_paging; simp)+

lemma paging_init_more: "paging_init s = Returns t \<Longrightarrow> paging.more t = paging.more s"
  unfolding paging_init_def Let_def case_prod_beta
  by (auto simp: alloc_paging_more split: if_splits)

lemma heap_init_more:
  fixes s :: "'a heap_scheme"
  assumes "heap_init s = Some t"
  shows "heap.more t = heap.more s"
proof -
  have h: "heap.more y = heap.more x" if "paging.more y = paging.more x" for x y :: "'a heap_scheme"
    using that by (cases x; cases y; simp)
  obtain u a b where mp: "map_page 0x1000000 (fst (pmm_alloc_block s)) (snd (pmm_alloc_block s)) = Some u"
    and ab: "vstore32 0x1000000 4084 (u\<lparr>heap_first := 0x1000000\<rparr>) = Some a"
    "vstore32 (heap_first a + 4) 1 a = Some b" "vstore32 (heap_first b + 8) 0 b = Some t"
    using assms by (auto simp: heap_init_def Let_def case_prod_beta split: bind_splits)
  have u: "heap.more u = heap.more s" by (rule h) (simp add: map_page_more [OF mp] alloc_paging_more)
  show ?thesis using h [OF vstore_more [OF ab(1)]] h [OF vstore_more [OF ab(2)]] h [OF vstore_more [OF ab(3)]] u
    by simp
qed

lemma task_init_more:
  fixes s :: "'a task_scheme"
  assumes h: "heap_holds [] s" and t: "task_init s = Some t"
  shows "task.more t = task.more s" "gdt_entries t = gdt_entries s" "idt_table t = idt_table s" "cr3 t = cr3 s"
    "bitmap_span t = bitmap_span s"
proof -
  define kept where "kept x = (task.more x, gdt_entries x, idt_table x, cr3 x, bitmap_span x)" for x :: "'a task_scheme"
  have m: "kept y = kept x" if "heap.more y = heap.more x" "cr3 y = cr3 x" "pmm_bitmap y = pmm_bitmap x"
    "total_blocks y = total_blocks x" for x y :: "'a task_scheme"
    using that by (cases x; cases y; simp add: kept_def bitmap_span_def)
  have v: "kept y = kept x" if "vstore32 a w x = Some y" for x y :: "'a task_scheme" and a w
  proof (rule m)
    have p: "paging.more y = paging.more x" using vstore_more [OF that] .
    then show "heap.more y = heap.more x" by (cases x; cases y; simp)
    show "cr3 y = cr3 x" "pmm_bitmap y = pmm_bitmap x" "total_blocks y = total_blocks x"
      using that by (auto simp: vstore32_def split: if_splits)
  qed
  have l: "kept (klog_ok c x) = kept x" for x :: "'a task_scheme" and c
  proof (rule m)
    have "vga.more (klog_ok c x) = vga.more x" by simp
    then show "heap.more (klog_ok c x) = heap.more x" "cr3 (klog_ok c x) = cr3 x" "pmm_bitmap (klog_ok c x) = pmm_bitmap x"
      "total_blocks (klog_ok c x) = total_blocks x"
      by (cases "klog_ok c x"; cases x; simp)+
  qed
  have "extent [] + 12 + 16 + 12 \<le> 4096" by simp
  from kmalloc_laid [OF h this] obtain k where
    k: "kmalloc sizeof_task_t s = Some (0x100000C, k)" "edits heap_page (headers (laid 0x1000000 ([] @ [16]) @ [rest_chunk ([] @ [16])])) s k"
    by (auto simp: sizeof_task_t_def)
  have "k = s\<lparr>mem := mem k\<rparr>" using k(2) unfolding edits_def by blast
  then have "pmm_bitmap k = pmm_bitmap (s\<lparr>mem := mem k\<rparr>)" "total_blocks k = total_blocks (s\<lparr>mem := mem k\<rparr>)" by (rule arg_cong)+
  then have K: "kept k = kept s" using edits_fields [OF k(2)] by (intro m) simp_all
  obtain a b c d where st: "vstore32 0x100000C (next_pid k) k = Some a"
    "vstore32 0x1000010 0 (a\<lparr>next_pid := next_pid a + 1\<rparr>) = Some b"
    "vstore32 0x1000014 (kernel_directory b) b = Some c"
    "vstore32 0x1000018 0x100000C (c\<lparr>tss := (tss c)\<lparr>ss0 := 0x10\<rparr>\<rparr>) = Some d"
    "t = klog_ok (lit ''Task Management Initialized'') (d\<lparr>current_task := 0x100000C, ready_queue := 0x100000C\<rparr>)"
    using t k(1) by (auto simp: task_init_def Let_def split: bind_splits)
  have upd: "kept (a\<lparr>next_pid := n\<rparr>) = kept a" "kept (c\<lparr>tss := x\<rparr>) = kept c" "kept (d\<lparr>current_task := p, ready_queue := p\<rparr>) = kept d"
    for n x p by (simp_all add: kept_def bitmap_span_def)
  have "kept t = kept s"
    using K v [OF st(1)] v [OF st(2)] v [OF st(3)] v [OF st(4)] l st(5) upd by simp
  then show "task.more t = task.more s" "gdt_entries t = gdt_entries s" "idt_table t = idt_table s" "cr3 t = cr3 s"
    "bitmap_span t = bitmap_span s" by (simp_all add: kept_def)
qed
lemma low_apart_free:
  "free_blocks t = free_blocks s \<Longrightarrow> bitmap_span t = bitmap_span s \<Longrightarrow> low_apart n t = low_apart n s"
  by (simp add: low_apart_def)

lemma low_apart_mono: "low_apart n s \<Longrightarrow> m \<le> n \<Longrightarrow> low_apart m s"
  unfolding low_apart_def by fastforce

lemma low_apart_alloc2:
  assumes "low_apart (Suc (Suc n)) s" "pmm_ok s"
    "free_blocks t = free_blocks s - {Min (free_blocks s), Min (free_blocks s - {Min (free_blocks s)})}"
    "bitmap_span t = bitmap_span s" "free_blocks s \<noteq> {}"
  shows "low_apart n t"
proof -
  let ?u = "snd (pmm_alloc_block s)"
  have u: "free_blocks ?u = free_blocks s - {Min (free_blocks s)}" using free_blocks_alloc [OF assms(2,5)] .
  have "low_apart (Suc n) ?u" by (rule low_apart_alloc [OF assms(1) u]) simp
  moreover have "free_blocks t = free_blocks ?u - {Min (free_blocks ?u)}" unfolding u assms(3) by blast
  ultimately show ?thesis by (rule low_apart_alloc) (simp add: assms(4))
qed

text \<open>Whatever touches the screen only leaves the system as it is.\<close>

lemma console_view:
  fixes s t :: "'a kernel_scheme"
  assumes m: "mem t = mem s" and v: "vga.more t = vga.more s"
  shows "paging_ok t = paging_ok s" "free_blocks t = free_blocks s"
    "bitmap_span t = bitmap_span s" "translate t = translate s"
    "kernel_directory t = kernel_directory s" "cr3 t = cr3 s" "cr0 t = cr0 s"
    "window W t = window W s" "vmem t = vmem s" "heap_first t = heap_first s"
    "gdt_entries t = gdt_entries s" "idt_table t = idt_table s" "task.more t = task.more s"
    "next_pid t = next_pid s" "heap_holds ns t = heap_holds ns s" "phys t = phys s"
    "current_task t = current_task s" "ring_of W t q = ring_of W s q" "t_id t p = t_id s p"
    "kernel.more t = kernel.more s" "interrupts t = interrupts s" "current_args t = current_args s"
    "shell_buffer t = shell_buffer s" "buffer_idx t = buffer_idx s"
proof -
  have "pmm.more t = pmm.more s" "total_blocks t = total_blocks s" "used_blocks t = used_blocks s"
    "pmm_bitmap t = pmm_bitmap s" using v by (cases t; cases s; simp)+
  with m have sp: "same_pmm s t" by (simp add: same_pmm_def)
  show "paging_ok t = paging_ok s" "free_blocks t = free_blocks s"
    "bitmap_span t = bitmap_span s" "translate t = translate s"
    and kd: "kernel_directory t = kernel_directory s" and "cr3 t = cr3 s" "cr0 t = cr0 s"
    and w: "window W t = window W s" and vm: "vmem t = vmem s" and "heap_first t = heap_first s"
    and "next_pid t = next_pid s" "heap_holds ns t = heap_holds ns s" "phys t = phys s"
    and ct: "current_task t = current_task s" for W
    using same_pmm_paging [OF sp] same_pmm_blocks [OF sp] same_pmm_span [OF sp] same_pmm_task [OF sp]
    by (simp_all add: heap_holds_def)
  show "gdt_entries t = gdt_entries s" "idt_table t = idt_table s" "task.more t = task.more s"
    "kernel.more t = kernel.more s" "interrupts t = interrupts s" "current_args t = current_args s"
    "shell_buffer t = shell_buffer s" "buffer_idx t = buffer_idx s"
    using v by (cases t; cases s; simp)+
  show "ring_of W t q = ring_of W s q" by (rule ring_cong [OF vm w ct kd])
  show "t_id t p = t_id s p" by (simp add: t_id_def vm)
qed

lemma klog_console: "mem (klog_ok m s) = mem s" "vga.more (klog_ok m s) = vga.more s"
  by simp_all

lemmas klog_view = console_view [OF klog_console]

text \<open>The lowest blocks that are left when a few are taken.\<close>

lemma low_min:
  assumes "finite F" "finite A" "card A < card {b \<in> F. b < L}"
  shows "F - A \<noteq> {}" "Min (F - A) < (L :: nat)"
proof -
  have "\<not> {b \<in> F. b < L} \<subseteq> A" using assms card_mono [of A "{b \<in> F. b < L}"] by auto
  then obtain b where b: "b \<in> F - A" "b < L" by blast
  then show "F - A \<noteq> {}" by blast
  have "Min (F - A) \<le> b" using b(1) assms(1) by (intro Min_le) auto
  then show "Min (F - A) < L" using b(2) by simp
qed

text \<open>The \<open>n\<close> lowest blocks of a set.\<close>

primrec lowest :: "nat \<Rightarrow> nat set \<Rightarrow> nat set" where
  "lowest 0 F = {}"
| "lowest (Suc n) F = insert (Min F) (lowest n (F - {Min F}))"

lemma lowest_4:
  "G = F - {Min F, Min (F - {Min F})} \<Longrightarrow> lowest 4 F = {Min F, Min (F - {Min F}), Min G, Min (G - {Min G})}"
  by (simp add: numeral_eq_Suc Diff_insert2 [symmetric] insert_commute)

lemma card_2_le: "card {a, b} \<le> 2" and card_3_le: "card {a, b, c} \<le> 3"
  by (simp_all add: card_insert_if)

lemma low_card: "finite F \<Longrightarrow> card {b \<in> F. b < L} \<le> card F"
  by (rule card_mono) auto

lemma lowfar: "unat a < 0x400000 \<Longrightarrow> a \<notin> heap_page"
  by (auto simp: span_def unat_word_ariths unat_of_nat)

lemma paging_started:
  fixes u :: "'a kernel_scheme"
  assumes ok: "pmm_ok u" and c: "2 \<le> card (free_blocks u)" and la: "low_apart 2 u" and m: "Min (free_blocks u) < 1024"
  defines "F \<equiv> free_blocks u"
  shows "\<exists>v. paging_init u = Returns v \<and> paging_ok v \<and> bit (cr0 v) 31 \<and> cr3 v = kernel_directory v \<and>
     kernel_directory v = of_nat (Min F) * BLOCK_SIZE \<and> free_blocks v = F - {Min F, Min (F - {Min F})} \<and>
     bitmap_span v = bitmap_span u \<and> (\<forall>a. translate v a = (if unat a < 0x400000 then Some a else None)) \<and>
     self_mapped v (span (kernel_directory v) 4096) \<and>
     (\<forall>i < 1024. present (pde (mem v) (kernel_directory v) i) \<longleftrightarrow> i = 0) \<and>
     (\<forall>i < 1024. 0 < i \<longrightarrow> pde (mem v) (kernel_directory v) i = 2) \<and>
     frames (mem v) (kernel_directory v) = {of_nat (Min F) * BLOCK_SIZE, of_nat (Min (F - {Min F})) * BLOCK_SIZE} \<and>
     paging.more v = paging.more u"
proof -
  obtain v where v: "paging_init u = Returns v" "paging_ok v"
    "\<forall>va. walk (mem v) (cr3 v) va = (if unat va < 0x400000 then Some va else None)"
    "\<forall>i < 1024. present (pde (mem v) (cr3 v) i) \<longleftrightarrow> i = 0"
    "\<forall>i < 1024. 0 < i \<longrightarrow> pde (mem v) (cr3 v) i = 2"
    "cr3 v = kernel_directory v" "bit (cr0 v) 31"
    "kernel_directory v = of_nat (Min F) * BLOCK_SIZE" "free_blocks v = F - {Min F, Min (F - {Min F})}"
    "bitmap_span v = bitmap_span u"
    "frames (mem v) (cr3 v) = {of_nat (Min F) * BLOCK_SIZE, of_nat (Min (F - {Min F})) * BLOCK_SIZE}"
    using paging_init_returns [OF ok c la] unfolding F_def [symmetric] by (elim exE conjE) (rule that)
  have tr: "translate v a = (if unat a < 0x400000 then Some a else None)" for a
    using v(3,6,7) by (simp add: translate_def)
  then have low: "translate v a = Some a" if "unat a < 0x400000" for a using that by simp
  have "self_mapped v (span (kernel_directory v) 4096)"
    unfolding v(8) using m by (intro low_block_self low) (simp_all add: F_def)
  with v tr paging_init_more [OF v(1)] show ?thesis by (intro exI [of _ v] conjI) simp_all
qed

text \<open>The four lowest blocks of a set with four blocks in the first four megabytes.\<close>

lemma four_low:
  fixes F :: "nat set"
  assumes fin: "finite F" and c: "4 \<le> card {b \<in> F. b < 1024}"
  defines "G \<equiv> F - {Min F, Min (F - {Min F})}"
  shows "F \<noteq> {}" "Min F < 1024" "Min (F - {Min F}) < 1024" "G \<noteq> {}" "Min G < 1024" "G - {Min G} \<noteq> {}" "Min (G - {Min G}) < 1024"
    "4 \<le> card F" "2 \<le> card G"
proof -
  have lows: "card A \<le> 3 \<Longrightarrow> finite A \<Longrightarrow> F - A \<noteq> {} \<and> Min (F - A) < 1024" for A
    using low_min [OF fin, of A 1024] c by simp
  have "G - {Min G} = F - {Min F, Min (F - {Min F}), Min G}" by (auto simp: G_def)
  then show "F \<noteq> {}" "Min F < 1024" "Min (F - {Min F}) < 1024" "G \<noteq> {}" "Min G < 1024" "G - {Min G} \<noteq> {}" "Min (G - {Min G}) < 1024"
    using lows [of "{}"] lows [of "{Min F}"] lows [of "{Min F, Min (F - {Min F})}"]
      lows [of "{Min F, Min (F - {Min F}), Min G}"] card_2_le [of "Min F"] card_3_le [of "Min F"]
    by (simp_all add: G_def [symmetric] le_trans [OF card_2_le])
  show c4: "4 \<le> card F" using low_card [OF fin, of 1024] c by simp
  have "card F - card {Min F, Min (F - {Min F})} \<le> card G" unfolding G_def by (rule diff_card_le_card_Diff) simp
  then show "2 \<le> card G" using c4 card_2_le [of "Min F" "Min (F - {Min F})"] by linarith
qed

lemma low_block: "b < 1024 \<Longrightarrow> i < 4096 \<Longrightarrow> unat (of_nat (4096 * b + i) :: u32) = 4096 * b + i"
  by (simp add: unat_of_nat del: of_nat_add of_nat_mult)

lemma low_block_frame: "b < 1024 \<Longrightarrow> unat (of_nat b * BLOCK_SIZE) + 4096 \<le> 0x400000 \<and> block_of (of_nat b * BLOCK_SIZE) = b"
  using block_address(1) [of b] by simp

text \<open>The blocks that directory, tables and heap page take are the four lowest, all in the first 4 MB.\<close>

lemma heap_in_low:
  fixes F :: "nat set"
  assumes fin: "finite F" and c: "4 \<le> card {b \<in> F. b < 1024}" and z: "0 \<notin> F"
  defines "G \<equiv> F - {Min F, Min (F - {Min F})}"
  assumes tr: "\<forall>i < 4096. translate w (0x1000000 + of_nat i) = Some (of_nat (4096 * Min G + i))"
    and a: "a \<in> heap_page"
  shows "4096 \<le> unat (phys w a) \<and> unat (phys w a) < 0x400000 \<and> block_of (phys w a) \<in> lowest 4 F"
proof -
  note L = four_low [OF fin c, folded G_def]
  obtain i where i: "i < 4096" "a = 0x1000000 + of_nat i" using a by (auto simp: span_def)
  have "Min G \<in> G" using L(4) fin by (intro Min_in) (simp_all add: G_def)
  then have "Min G \<noteq> 0" using z by (auto simp: G_def intro: ccontr)
  moreover have "unat (phys w a) = 4096 * Min G + i"
    using tr i low_block [OF L(5) i(1)] by (simp add: phys_def)
  ultimately show ?thesis using i(1) L(5) by (simp add: lowest_4 [OF meta_eq_to_obj_eq [OF G_def]])
qed

lemma tables_in_low:
  fixes F :: "nat set"
  assumes fin: "finite F" and c: "4 \<le> card {b \<in> F. b < 1024}"
  defines "G \<equiv> F - {Min F, Min (F - {Min F})}"
  assumes f: "f \<in> {of_nat (Min F) * BLOCK_SIZE, of_nat (Min (F - {Min F})) * BLOCK_SIZE, of_nat (Min (G - {Min G})) * BLOCK_SIZE}"
  shows "unat f + 4096 \<le> 0x400000 \<and> block_of f \<in> lowest 4 F"
proof -
  note L = four_low [OF fin c, folded G_def]
  then show ?thesis using f low_block_frame by (auto simp: lowest_4 [OF meta_eq_to_obj_eq [OF G_def]])
qed

lemma heap_started:
  fixes u :: "'a kernel_scheme"
  assumes ok: "pmm_ok u" and c: "4 \<le> card {b \<in> free_blocks u. b < 1024}" and la: "low_apart 4 u" and z: "0 \<notin> free_blocks u"
  shows "\<exists>v w. paging_init u = Returns v \<and>
     heap_init (klog_ok (lit ''Paging Initialized.\<newline>'') v) = Some w \<and> fresh_heap w \<and> paging_ok w \<and>
     bit (cr0 w) 31 \<and> cr3 w = kernel_directory w \<and> sees_tables 0x1000000 w \<and>
     kernel_directory w = of_nat (Min (free_blocks u)) * BLOCK_SIZE \<and>
     (\<forall>a. unat a < 0x400000 \<longrightarrow> translate w a = Some a) \<and>
     (\<forall>a. translate w a \<noteq> None \<longrightarrow> unat a < 0x400000 \<or> a \<in> heap_page) \<and>
     (\<forall>a \<in> heap_page. 4096 \<le> unat (phys w a) \<and> unat (phys w a) < 0x400000) \<and>
     (\<forall>f \<in> frames (mem w) (kernel_directory w). unat f + 4096 \<le> 0x400000) \<and>
     (\<forall>i < 1024. i \<noteq> 0 \<longrightarrow> i \<noteq> 4 \<longrightarrow> pde (mem w) (kernel_directory w) i = 2) \<and>
     heap.more w = heap.more u \<and> bitmap_span w = bitmap_span u \<and>
     (\<forall>f \<in> frames (mem w) (kernel_directory w). block_of f \<in> lowest 4 (free_blocks u)) \<and>
     (\<forall>a \<in> heap_page. block_of (phys w a) \<in> lowest 4 (free_blocks u))"
proof -
  define F where "F = free_blocks u"
  define G where "G = F - {Min F, Min (F - {Min F})}"
  have fin: "finite F" by (simp add: F_def)
  note L = four_low [OF fin c [folded F_def], folded G_def]
  have la2: "low_apart 2 u" by (rule low_apart_mono [OF la]) simp
  have c2: "2 \<le> card (free_blocks u)" using L(8) by (simp add: F_def)
  obtain v where v: "paging_init u = Returns v" "paging_ok v" "bit (cr0 v) 31" "cr3 v = kernel_directory v"
    "kernel_directory v = of_nat (Min F) * BLOCK_SIZE" "free_blocks v = G" "bitmap_span v = bitmap_span u"
    "\<forall>a. translate v a = (if unat a < 0x400000 then Some a else None)" "self_mapped v (span (kernel_directory v) 4096)"
    "\<forall>i < 1024. present (pde (mem v) (kernel_directory v) i) \<longleftrightarrow> i = 0"
    "\<forall>i < 1024. 0 < i \<longrightarrow> pde (mem v) (kernel_directory v) i = 2"
    "frames (mem v) (kernel_directory v) = {of_nat (Min F) * BLOCK_SIZE, of_nat (Min (F - {Min F})) * BLOCK_SIZE}"
    "paging.more v = paging.more u"
    using paging_started [OF ok c2 la2 L(2) [unfolded F_def]] unfolding F_def [symmetric] G_def [symmetric]
    by (elim exE conjE) (rule that)
  define v1 where "v1 = klog_ok (lit ''Paging Initialized.\<newline>'') v"
  note k1 = klog_view [where m = "lit ''Paging Initialized.\<newline>''" and s = v, folded v1_def]
  have m1: "mem v1 = mem v" by (simp add: v1_def)
  have "low_apart 2 v"
    by (rule low_apart_alloc2 [OF _ ok]) (use la v(6,7) L(1) in \<open>simp_all add: F_def G_def numeral_eq_Suc\<close>)
  moreover have "self_mapped v (span (of_nat (Min (G - {Min G})) * BLOCK_SIZE) 4096)"
    using v(8) L(7) by (intro low_block_self) simp_all
  ultimately have "heap_room v" using v(6,9) L(9) by (simp add: heap_room_def)
  then have room: "heap_room v1" using low_apart_free [of v1 v 2] k1 by (simp add: heap_room_def self_mapped_def)
  have a1: "paging_ok v1" "bit (cr0 v1) 31" "cr3 v1 = kernel_directory v1" "\<not> present (pde (mem v1) (kernel_directory v1) 4)"
    using v k1 m1 by simp_all
  obtain w where w: "heap_init v1 = Some w" "fresh_heap w"
    "\<forall>i < 4096. translate w (0x1000000 + of_nat i) = Some (of_nat (4096 * Min G + i))"
    "\<forall>x. x \<notin> heap_page \<longrightarrow> translate w x = translate v1 x" "paging_ok w"
    "kernel_directory w = kernel_directory v" "cr0 w = cr0 v" "cr3 w = cr3 v"
    "\<forall>i < 1024. i \<noteq> 4 \<longrightarrow> pde (mem w) (kernel_directory v) i = pde (mem v) (kernel_directory v) i"
    "sees_tables 0x1000000 w" "frames (mem w) (kernel_directory w) =
       insert (of_nat (Min (G - {Min G})) * BLOCK_SIZE) (frames (mem v) (kernel_directory v))"
    "bitmap_span w = bitmap_span v1"
    using heap_init_fresh [OF a1 room] unfolding k1(2,5-7) v(6) m1 by (elim exE conjE) (rule that)
  have ph: "4096 \<le> unat (phys w a) \<and> unat (phys w a) < 0x400000 \<and> block_of (phys w a) \<in> lowest 4 F" if "a \<in> heap_page" for a
    by (rule heap_in_low [OF fin c [folded F_def] z [folded F_def], folded G_def]) (use w(3) that in simp_all)
  have fr: "unat f + 4096 \<le> 0x400000 \<and> block_of f \<in> lowest 4 F" if "f \<in> frames (mem w) (kernel_directory w)" for f
    by (rule tables_in_low [OF fin c [folded F_def], folded G_def]) (use that w(11) v(12) in auto)
  have "paging.more v1 = paging.more u" using v(13) by (simp add: v1_def)
  then have hm: "heap.more v1 = heap.more u" by (cases v1; cases u; simp)
  show ?thesis
  proof (intro exI conjI)
    show "heap_init (klog_ok (lit ''Paging Initialized.\<newline>'') v) = Some w" using w(1) by (simp add: v1_def)
    show "\<forall>a. unat a < 0x400000 \<longrightarrow> translate w a = Some a" using w(4) k1(4) v(8) lowfar by simp
    show "\<forall>a. translate w a \<noteq> None \<longrightarrow> unat a < 0x400000 \<or> a \<in> heap_page"
      using w(4) k1(4) v(8) by (metis option.distinct(1))
    show "heap.more w = heap.more u" using heap_init_more [OF w(1)] hm by simp
    show "bitmap_span w = bitmap_span u" using w(12) v(7) k1 by simp
  qed (use v w ph fr in \<open>simp_all add: F_def\<close>)
qed

lemma kernel_built:
  fixes u :: "'a kernel_scheme"
  assumes ok: "pmm_ok u" and c: "4 \<le> card {b \<in> free_blocks u. b < 1024}" and la: "low_apart 4 u" and z: "0 \<notin> free_blocks u"
  shows "\<exists>v w x. paging_init u = Returns v \<and>
     heap_init (klog_ok (lit ''Paging Initialized.\<newline>'') v) = Some w \<and>
     task_init (klog_ok (lit ''Heap Initialized.\<newline>'') w) = Some x \<and>
     ring_of heap_page x [(0x100000C, 0)] \<and> heap_holds [16] x \<and> paging_ok x \<and> bit (cr0 x) 31 \<and>
     t_id x 0x100000C = next_pid u \<and> cr3 x = kernel_directory x \<and> sees_tables 0x1000000 x \<and>
     kernel_directory x = of_nat (Min (free_blocks u)) * BLOCK_SIZE \<and>
     (\<forall>a. unat a < 0x400000 \<longrightarrow> translate x a = Some a) \<and>
     (\<forall>a. translate x a \<noteq> None \<longrightarrow> unat a < 0x400000 \<or> a \<in> heap_page) \<and>
     (\<forall>a \<in> heap_page. 4096 \<le> unat (phys x a) \<and> unat (phys x a) < 0x400000) \<and>
     (\<forall>f \<in> frames (mem x) (kernel_directory x). unat f + 4096 \<le> 0x400000) \<and>
     (\<forall>i < 1024. i \<noteq> 0 \<longrightarrow> i \<noteq> 4 \<longrightarrow> pde (mem x) (kernel_directory x) i = 2) \<and>
     task.more x = task.more u \<and> gdt_entries x = gdt_entries u \<and> idt_table x = idt_table u \<and>
     bitmap_span x = bitmap_span u \<and>
     (\<forall>f \<in> frames (mem x) (kernel_directory x). block_of f \<in> lowest 4 (free_blocks u)) \<and>
     (\<forall>a \<in> heap_page. block_of (phys x a) \<in> lowest 4 (free_blocks u))"
proof -
  obtain v w where v: "paging_init u = Returns v" "heap_init (klog_ok (lit ''Paging Initialized.\<newline>'') v) = Some w"
    and w: "fresh_heap w" "paging_ok w" "bit (cr0 w) 31" "cr3 w = kernel_directory w" "sees_tables 0x1000000 w"
    "kernel_directory w = of_nat (Min (free_blocks u)) * BLOCK_SIZE"
    "\<forall>a. unat a < 0x400000 \<longrightarrow> translate w a = Some a"
    "\<forall>a. translate w a \<noteq> None \<longrightarrow> unat a < 0x400000 \<or> a \<in> heap_page"
    "\<forall>a \<in> heap_page. 4096 \<le> unat (phys w a) \<and> unat (phys w a) < 0x400000"
    "\<forall>f \<in> frames (mem w) (kernel_directory w). unat f + 4096 \<le> 0x400000"
    "\<forall>i < 1024. i \<noteq> 0 \<longrightarrow> i \<noteq> 4 \<longrightarrow> pde (mem w) (kernel_directory w) i = 2" "heap.more w = heap.more u"
    "bitmap_span w = bitmap_span u" "\<forall>f \<in> frames (mem w) (kernel_directory w). block_of f \<in> lowest 4 (free_blocks u)"
    "\<forall>a \<in> heap_page. block_of (phys w a) \<in> lowest 4 (free_blocks u)"
    using heap_started [OF assms] by (elim exE conjE) (rule that)
  define w1 where "w1 = klog_ok (lit ''Heap Initialized.\<newline>'') w"
  note k2 = klog_view [where m = "lit ''Heap Initialized.\<newline>''" and s = w, folded w1_def]
  have m2: "mem w1 = mem w" by (simp add: w1_def)
  have h: "heap_holds [] w1" using w(1) k2 by (simp add: fresh_holds)
  have room: "extent [] + 40 \<le> 4096" by simp
  obtain x where x: "task_init w1 = Some x" "ring_of heap_page x [(0x100000C, 0)]" "t_id x 0x100000C = next_pid w1"
    "heap_holds [16] x" "translate x = translate w1" "cr0 x = cr0 w1" "kernel_directory x = kernel_directory w1"
    "paging_ok w1 \<longrightarrow> paging_ok x" "agree (- phys w1 ` heap_page) (mem w1) (mem x)"
    using task_init_ring [OF h room] by auto
  note tm = task_init_more [OF h x(1)]
  have win: "window heap_page w1" using h by (simp add: heap_holds_def)
  have "frame_bytes (frames (mem w1) (kernel_directory w1)) \<subseteq> - phys w1 ` heap_page"
    using win by (auto simp: window_def)
  note st = structure_agree [OF agree_mono [OF x(9) this]]
  have on1: "bit (cr0 w1) 31" using w(3) k2 by simp
  have "self_mapped w1 A = self_mapped w A" "next_apart w1 = next_apart w" for A
    using k2 by (simp_all add: self_mapped_def next_apart_def)
  then have "sees_tables 0x1000000 w1" using w(5) k2 m2 by (simp add: sees_tables_def Let_def)
  then have see: "sees_tables 0x1000000 x"
    using sees_tables_agree [OF win x(9,7) _ heap_slot_present [OF win on1]] x(5) by simp
  have up: "idt_table w = idt_table u" "gdt_entries w = gdt_entries u" "task.more w = task.more u" "next_pid w = next_pid u"
    using w(12) by (cases w; cases u; simp)+
  have ph: "phys x = phys w1" using x(5) by (simp add: phys_def fun_eq_iff)
  show ?thesis
  proof (intro exI conjI)
    show "paging_init u = Returns v" "heap_init (klog_ok (lit ''Paging Initialized.\<newline>'') v) = Some w" by (rule v)+
    show "task_init (klog_ok (lit ''Heap Initialized.\<newline>'') w) = Some x" using x(1) by (simp add: w1_def)
  qed (use x w k2 tm up see ph st m2 in \<open>simp_all\<close>)
qed
section \<open>Opening the directory\<close>

definition opened :: "u32 \<Rightarrow> nat \<Rightarrow> memory \<Rightarrow> memory" where
  "opened d k m = fold (\<lambda>i m. store32 m (entry d i) (load32 m (entry d i) OR 7)) [0..<k] m"

lemma opened_Suc: "opened d (Suc k) m = store32 (opened d k m) (entry d k) (pde (opened d k m) d k OR 7)"
  by (simp add: opened_def pde_def)

lemma opened_pde:
  "k \<le> 1024 \<Longrightarrow> i < 1024 \<Longrightarrow> pde (opened d k m) d i = (if i < k then pde m d i OR 7 else pde m d i)"
proof (induction k arbitrary: i)
  case 0
  then show ?case by (simp add: opened_def)
next
  case (Suc k)
  have "pde (opened d (Suc k) m) d i = (if i = k then pde (opened d k m) d k OR 7 else pde (opened d k m) d i)"
    unfolding opened_Suc using Suc.prems by (intro pde_write) simp_all
  then show ?case using Suc by auto
qed

lemma opened_agree: "k \<le> 1024 \<Longrightarrow> agree (- span d 4096) m (opened d k m)"
proof (induction k)
  case 0
  then show ?case by (simp add: opened_def)
next
  case (Suc k)
  have "span (entry d k) 4 \<inter> - span d 4096 = {}" using span_entry [of k d] Suc.prems by auto
  from store32_agree [OF this] have "agree (- span d 4096) (opened d k m) (opened d (Suc k) m)"
    by (simp add: opened_Suc)
  with Suc show ?case by (auto intro: agree_trans)
qed

text \<open>Slots that were present keep their frame, so what they translate stays.\<close>

lemma opened_walk:
  assumes al: "aligned d" and k: "k \<le> 1024" and p: "present (pde m d (dix a))" and f: "frame_of (pde m d (dix a)) \<noteq> d"
  shows "walk (opened d k m) d a = walk m d a"
proof -
  have e: "pde (opened d k m) d (dix a) = (if dix a < k then pde m d (dix a) OR 7 else pde m d (dix a))"
    using opened_pde [OF k index_bounds(1)] .
  then have fr: "frame_of (pde (opened d k m) d (dix a)) = frame_of (pde m d (dix a))" by (simp add: frame_of_or7)
  have "sep 4096 (frame_of (pde m d (dix a))) 4096 d" using frames_sep [OF aligned_frame_of al f] .
  from sep_span [OF this] have "span (frame_of (pde m d (dix a))) 4096 \<subseteq> - span d 4096" by auto
  then have "span (entry (frame_of (pde m d (dix a))) (tix a)) 4 \<subseteq> - span d 4096"
    using span_entry [OF index_bounds(2)] by blast
  from load32_agree_in [OF opened_agree [OF k] this]
  have "pte (opened d k m) d (dix a) (tix a) = pte m d (dix a) (tix a)" by (simp add: pte_def fr)
  moreover have "present (pde (opened d k m) d (dix a))" using e p by simp
  ultimately show ?thesis using p by (simp add: walk_entries)
qed

lemma open_entries_append: "open_entries (is @ js) s = Option.bind (open_entries is s) (open_entries js)"
  by (induction "is" s rule: open_entries.induct) (simp_all add: bind_eq_None_conv split: bind_split)

lemma walk_present: "walk m d a \<noteq> None \<Longrightarrow> present (pde m d (dix a))"
  by (auto simp: walk_entries split: if_splits)

lemma open_entries_run:
  fixes s :: "'a paging_scheme"
  assumes ok: "paging_ok s" and on: "bit (cr0 s) 31" "cr3 s = kernel_directory s"
    and low: "unat (kernel_directory s) + 4096 \<le> 0x400000"
    and id: "\<And>a. unat a < 0x400000 \<Longrightarrow> translate s a = Some a"
  shows "k \<le> 1024 \<Longrightarrow> open_entries [0..<k] s = Some (s\<lparr>mem := opened (kernel_directory s) k (mem s)\<rparr>)"
proof (induction k)
  case 0
  then show ?case by (simp add: opened_def)
next
  case (Suc k)
  let ?d = "kernel_directory s"
  define t where "t = s\<lparr>mem := opened ?d k (mem s)\<rparr>"
  have k: "k \<le> 1024" "k < 1024" using Suc.prems by simp_all
  have "translate t (entry ?d k + of_nat i) = Some (entry ?d k + of_nat i)" if i: "i < 4" for i
  proof -
    define a where "a = entry ?d k + of_nat i"
    have a: "a = ?d + of_nat (4 * k + i)" by (simp add: a_def)
    then have "unat a < 0x400000" using low i k(2)
      by (simp add: unat_word_ariths unat_of_nat del: of_nat_add of_nat_mult)
    then have w: "walk (mem s) ?d a = Some a" using id [of a] on by (simp add: translate_def)
    then have p: "present (pde (mem s) ?d (dix a))" using walk_present [of "mem s" ?d a] by simp
    then have "frame_of (pde (mem s) ?d (dix a)) \<noteq> ?d" "aligned ?d"
      using ok index_bounds(1) [of a] by (simp_all add: paging_ok_def tables_ok_def)
    from opened_walk [OF this(2) k(1) p this(1)] w on show ?thesis
      by (simp add: t_def translate_def a_def)
  qed
  note acc = identity_access [of t "entry ?d k", OF this]
  have "open_entries [k] t = Some (s\<lparr>mem := opened ?d (Suc k) (mem s)\<rparr>)"
    using acc by (simp add: t_def opened_Suc pde_def)
  then show ?case using Suc k by (simp add: open_entries_append t_def)
qed
text \<open>A state whose memory agrees on a window holds the same lists and rings in it.\<close>

lemma owned_load: "agree W m m' \<Longrightarrow> owns W a \<Longrightarrow> load32 m' a = load32 m a"
  unfolding owns_def by (rule load32_agree_in)

lemma segment_agree: "agree W m m' \<Longrightarrow> headers cs \<subseteq> W \<Longrightarrow> segment m p cs q \<Longrightarrow> segment m' p cs q"
proof (induction cs arbitrary: p)
  case (Cons c cs)
  then have "span p 12 \<subseteq> W" by auto
  from owns_header [OF this] Cons show ?case by (auto simp: owned_load [of W m m'])
qed simp

lemma heap_holds_agree:
  assumes "heap_holds ms s" "extent ms + 12 \<le> 4096" "agree heap_page (vmem s) (vmem t)" "window heap_page t"
    "heap_first t = heap_first s"
  shows "heap_holds ms t"
proof -
  have "headers (laid 0x1000000 ms @ [rest_chunk ms]) \<subseteq> heap_page"
    using headers_ok_holds [OF assms(2)] by (simp add: headers_ok_def)
  with assms segment_agree [OF assms(3)] show ?thesis by (simp add: heap_holds_def)
qed

lemma ring_agree:
  assumes r: "ring_of W s q" and a: "agree W (vmem s) (vmem t)" and w: "window W t"
    and f: "current_task t = current_task s" "kernel_directory t = kernel_directory s"
  shows "ring_of W t q"
proof -
  have "t_page_dire t p = t_page_dire s p" "t_next t p = t_next s p" "t_esp t p = t_esp s p" if "span p 16 \<subseteq> W" for p
    using owns_struct [OF that] by (simp_all add: t_page_dire_def t_next_def t_esp_def owned_load [OF a])
  then show ?thesis using ring_in(6) [OF r] by (intro ring_fields [OF r w f]) simp
qed

lemma pde_after_opening: "i < 1024 \<Longrightarrow> pde (opened d 1024 m) d i = pde m d i OR 7"
  by (simp add: opened_pde)

lemma frame_of_7: "frame_of 7 = 0"
  by (simp add: frame_of_def)

text \<open>After the opening the empty slots share the page at 0 as their table.\<close>

lemma opened_frames:
  assumes al: "aligned d" and empty: "\<forall>i < 1024. \<not> present (pde m d i) \<longrightarrow> pde m d i = 2"
  shows "frames (opened d 1024 m) d \<subseteq> insert 0 (frames m d)"
proof
  fix f assume "f \<in> frames (opened d 1024 m) d"
  then consider "f = d" | i where "i < 1024" "f = frame_of (pde m d i)"
    by (auto simp: frames_def pde_after_opening frame_of_or7)
  then show "f \<in> insert 0 (frames m d)"
  proof cases
    case 2
    have "frame_of 2 = 0" by (simp add: frame_of_def)
    then show ?thesis using 2 empty by (cases "present (pde m d i)") (auto simp: frames_def)
  qed (simp add: frames_def)
qed

lemma opened_empty_slot:
  assumes empty: "\<forall>i < 1024. \<not> present (pde m d i) \<longrightarrow> pde m d i = 2" and np: "\<not> present (pde m d (dix a))"
  defines "e \<equiv> load32 (opened d 1024 m) (4 * of_nat (tix a))"
  shows "walk (opened d 1024 m) d a = (if present e then Some (frame_of e OR (a AND 0xFFF)) else None)"
    "user_page (opened d 1024 m) d a = (present e \<and> bit e 2)"
proof -
  have "pde (opened d 1024 m) d (dix a) = 2 OR 7" using empty np index_bounds(1) [of a] by (simp add: pde_after_opening)
  then have p7: "pde (opened d 1024 m) d (dix a) = 7" by simp
  then have q: "pte (opened d 1024 m) d (dix a) (tix a) = e" by (simp add: pte_def frame_of_7 e_def)
  show "walk (opened d 1024 m) d a = (if present e then Some (frame_of e OR (a AND 0xFFF)) else None)"
    "user_page (opened d 1024 m) d a = (present e \<and> bit e 2)"
    using p7 q by (simp_all add: walk_entries user_page_entries)
qed

lemma opened_window:
  fixes s :: "'a paging_scheme"
  assumes ok: "paging_ok s" and on: "bit (cr0 s) 31" "cr3 s = kernel_directory s"
    and w: "window W s" and high: "\<forall>a \<in> W. 4096 \<le> unat (phys s a)"
    and empty: "\<forall>i < 1024. \<not> present (pde (mem s) (kernel_directory s) i) \<longrightarrow> pde (mem s) (kernel_directory s) i = 2"
  defines "t \<equiv> s\<lparr>mem := opened (kernel_directory s) 1024 (mem s)\<rparr>"
  shows "translate s a \<noteq> None \<Longrightarrow> translate t a = translate s a" and "window W t" and "agree W (vmem s) (vmem t)"
    and "\<not> present (pde (mem s) (kernel_directory s) (dix a)) \<Longrightarrow> translate t a =
      (let e = load32 (mem t) (4 * of_nat (tix a)) in if present e then Some (frame_of e OR (a AND 0xFFF)) else None)"
    and "\<not> present (pde (mem s) (kernel_directory s) (dix a)) \<Longrightarrow>
      user_page (mem t) (cr3 t) a = (let e = load32 (mem t) (4 * of_nat (tix a)) in present e \<and> bit e 2)"
    and "free_blocks t = free_blocks s"
proof -
  let ?d = "kernel_directory s" and ?m = "mem s"
  have tab: "tables_ok ?m ?d" using ok by (simp add: paging_ok_def)
  then have al: "aligned ?d" by (simp add: tables_ok_def)
  have mt: "mem t = opened ?d 1024 ?m" by (simp add: t_def)
  have tr: "translate t a = translate s a" if "translate s a \<noteq> None" for a
  proof -
    have p: "present (pde ?m ?d (dix a))" using that on walk_present [of ?m ?d a] by (simp add: translate_def)
    then have "frame_of (pde ?m ?d (dix a)) \<noteq> ?d" using tab index_bounds(1) [of a] by (simp add: tables_ok_def)
    from opened_walk [OF al _ p this, of 1024] show ?thesis using on by (simp add: t_def translate_def)
  qed
  show "translate s a \<noteq> None \<Longrightarrow> translate t a = translate s a" by (rule tr)
  have ph: "phys t a = phys s a" if "a \<in> W" for a using tr w that by (simp add: window_def phys_def)
  have fr: "frames (mem t) ?d \<subseteq> insert 0 (frames ?m ?d)" unfolding mt by (rule opened_frames [OF al empty])
  have ag: "agree (- span ?d 4096) ?m (mem t)" unfolding mt by (rule opened_agree) simp
  have d: "?d \<in> frames ?m ?d" by (simp add: frames_def)
  then have "span ?d 4096 \<inter> bitmap_span s = {}" using ok by (simp add: paging_ok_def)
  then have "agree (bitmap_span s) ?m (mem t)" by (intro agree_mono [OF ag]) blast
  then show fb: "free_blocks t = free_blocks s"
    using free_blocks_agree [of s "mem t"] ok by (simp add: paging_ok_def t_def)
  have zero: "x \<notin> span 0 4096" if "4096 \<le> unat x" for x using that by (simp add: span_iff)
  show "window W t"
    unfolding window_def
  proof (intro conjI ballI)
    have eq: "total_blocks t = total_blocks s" "pmm_bitmap t = pmm_bitmap s" by (simp_all add: t_def)
    show "pmm_ok t" using w eq by (simp add: window_def pmm_ok_def)
    show "cr3 t = kernel_directory t" using on by (simp add: t_def)
    show "inj_on (phys t) W" using w ph by (simp add: window_def inj_on_def)
    fix a assume a: "a \<in> W"
    then have wa: "translate s a \<noteq> None" "phys s a \<notin> frame_bytes (frames ?m ?d)" "phys s a \<notin> bitmap_span s"
      using w by (auto simp: window_def)
    show "translate t a \<noteq> None" using wa(1) tr by simp
    show "phys t a \<notin> frame_bytes (frames (mem t) (kernel_directory t))"
      using wa(2) ph [OF a] fr zero [of "phys s a"] high a by (auto simp: frame_bytes_def t_def)
    show "phys t a \<notin> bitmap_span t" using wa(3) ph [OF a] eq by (simp add: bitmap_span_def)
  qed
  show "agree W (vmem s) (vmem t)"
    unfolding agree_def
  proof
    fix a assume a: "a \<in> W"
    then have "translate s a \<noteq> None" "phys s a \<notin> span ?d 4096" using w d by (auto simp: window_def frame_bytes_def)
    then show "vmem t a = vmem s a" using tr [of a] ag by (auto simp: vmem_def phys_def agree_def)
  qed
  assume np: "\<not> present (pde ?m ?d (dix a))"
  note slot = opened_empty_slot [OF empty np]
  show "translate t a =
      (let e = load32 (mem t) (4 * of_nat (tix a)) in if present e then Some (frame_of e OR (a AND 0xFFF)) else None)"
    using on slot(1) by (simp add: translate_def t_def Let_def)
  show "user_page (mem t) (cr3 t) a = (let e = load32 (mem t) (4 * of_nat (tix a)) in present e \<and> bit e 2)"
    using on slot(2) by (simp add: t_def Let_def)
qed
section \<open>The started system\<close>

lemma shell_prompt:
  fixes s :: "'a kernel_scheme"
  assumes "vga_index s = 0"
  defines "t \<equiv> vga_lock_cursor (vga_print_color (lit ''root@ng-os:~ '') 0x03 s)"
  shows "vga_index t = 13" "vga_limit t = 13" "\<forall>i < 13. vga_buff t (of_nat i) = cell 0x03 (lit ''root@ng-os:~ '' ! i)"
proof -
  let ?t = "vga_print_color (lit ''root@ng-os:~ '') 0x03 s"
  have "\<forall>c \<in> set (lit ''root@ng-os:~ ''). plain c" by (simp add: lit_def plain_def ctrl_defs)
  moreover have l: "length (lit ''root@ng-os:~ '') = 13" by (simp add: lit_def)
  ultimately have p: "unat (vga_index ?t) = 13"
    "\<forall>i. vga_buff ?t i = (if unat i < 13 then cell 0x03 (lit ''root@ng-os:~ '' ! unat i) else vga_buff s i)"
    using print_plain [of "lit ''root@ng-os:~ ''" s "0x03"] assms(1) by simp_all
  have i: "vga_index ?t = 13" using p(1) by (simp add: word_unat_eq_iff)
  then show "vga_index t = 13" "vga_limit t = 13" by (simp_all add: t_def)
  show "\<forall>i < 13. vga_buff t (of_nat i) = cell 0x03 (lit ''root@ng-os:~ '' ! i)"
    using p(2) by (simp add: t_def unat_of_nat)
qed

lemma interrupts_view [simp]:
  fixes s :: "'a kernel_scheme"
  shows "translate (s\<lparr>interrupts := b\<rparr>) = translate s" "window W (s\<lparr>interrupts := b\<rparr>) = window W s"
    "vmem (s\<lparr>interrupts := b\<rparr>) = vmem s" "heap_holds ns (s\<lparr>interrupts := b\<rparr>) = heap_holds ns s"
    "ring_of W (s\<lparr>interrupts := b\<rparr>) q = ring_of W s q" "t_id (s\<lparr>interrupts := b\<rparr>) p = t_id s p"
    "free_blocks (s\<lparr>interrupts := b\<rparr>) = free_blocks s"
proof -
  show v: "translate (s\<lparr>interrupts := b\<rparr>) = translate s" "window W (s\<lparr>interrupts := b\<rparr>) = window W s"
    "vmem (s\<lparr>interrupts := b\<rparr>) = vmem s" "free_blocks (s\<lparr>interrupts := b\<rparr>) = free_blocks s" for W
    by (rule view_cong; simp)+
  show "heap_holds ns (s\<lparr>interrupts := b\<rparr>) = heap_holds ns s" by (simp add: heap_holds_def v)
  show "ring_of W (s\<lparr>interrupts := b\<rparr>) q = ring_of W s q" by (rule ring_cong) (simp_all add: v)
  show "t_id (s\<lparr>interrupts := b\<rparr>) p = t_id s p" by (simp add: t_id_def v)
qed

lemma first_task_started:
  fixes s :: "'a kernel_scheme"
  assumes c: "cold s" and b: "bootable pf mb es s"
  shows "\<exists>x. first_task pf mb s = Some x \<and>
     ring_of heap_page x [(0x100000C, 0)] \<and> heap_holds [16] x \<and> paging_ok x \<and> bit (cr0 x) 31 \<and>
     t_id x 0x100000C = next_pid s \<and> cr3 x = kernel_directory x \<and> sees_tables 0x1000000 x \<and>
     kernel_directory x = of_nat (Min (usable pf mb es s)) * BLOCK_SIZE \<and>
     (\<forall>a. unat a < 0x400000 \<longrightarrow> translate x a = Some a) \<and>
     (\<forall>a \<in> heap_page. 4096 \<le> unat (phys x a) \<and> unat (phys x a) < 0x400000) \<and>
     (\<forall>f \<in> frames (mem x) (kernel_directory x). unat f + 4096 \<le> 0x400000) \<and>
     (\<forall>i < 1024. i \<noteq> 0 \<longrightarrow> i \<noteq> 4 \<longrightarrow> pde (mem x) (kernel_directory x) i = 2) \<and>
     task.more x = task.more s \<and>
     gdt_entries x = gdt_entries (gdt_init (gdt_address pf) (tss_address pf) (tss_stack_top pf) s) \<and>
     idt_table x = idt_table (idt_init (devices pf) (idt_address pf) (handlers pf) s) \<and>
     bitmap_span x = bitmap_span (locked_start pf mb s) \<and>
     (\<forall>f \<in> frames (mem x) (kernel_directory x). block_of f \<in> lowest 4 (usable pf mb es s)) \<and>
     (\<forall>a \<in> heap_page. block_of (phys x a) \<in> lowest 4 (usable pf mb es s))"
proof -
  define F where "F = usable pf mb es s"
  have sm: "sound_map pf mb es s" and lu: "4 \<le> card {b \<in> F. b < 1024}"
    using b by (simp_all add: bootable_def low_usable_def F_def)
  have fF: "finite F" by (simp add: F_def usable_def)
  have une: "usable pf mb es s \<noteq> {}" using low_min(1) [OF fF, of "{}" 1024] lu by (simp add: F_def)
  obtain u0 where u0: "parse_memory_map mb (frames_locked pf mb (timer_programmed (tables_loaded pf s))) = Some u0"
    and u: "pmm_ok (pmm_lock_memory 0 u0)" "free_blocks (pmm_lock_memory 0 u0) = F"
    "bitmap_span (pmm_lock_memory 0 u0) = bitmap_span (locked_start pf mb s)"
    "idt.more (pmm_lock_memory 0 u0) = idt.more s"
    "gdt_entries (pmm_lock_memory 0 u0) = gdt_entries (tables_loaded pf s)"
    "idt_table (pmm_lock_memory 0 u0) = idt_table (tables_loaded pf s)"
    using memory_mapped [OF c sm une] unfolding F_def by blast
  define u where "u = pmm_lock_memory 0 u0"
  note u = u [folded u_def]
  have bF: "0 \<notin> F" by (simp add: F_def usable_def)
  have la: "low_apart 4 u" using sm u(2,3) by (simp add: low_apart_def sound_map_def F_def)
  have up: "task.more u = task.more s" "next_pid u = next_pid s" using u(4) by (cases u; cases s; simp)+
  obtain v w x where st: "paging_init u = Returns v" "heap_init (klog_ok (lit ''Paging Initialized.\<newline>'') v) = Some w"
    "task_init (klog_ok (lit ''Heap Initialized.\<newline>'') w) = Some x"
    and x: "ring_of heap_page x [(0x100000C, 0)]" "heap_holds [16] x" "paging_ok x" "bit (cr0 x) 31"
    "t_id x 0x100000C = next_pid u" "cr3 x = kernel_directory x" "sees_tables 0x1000000 x"
    "kernel_directory x = of_nat (Min (free_blocks u)) * BLOCK_SIZE"
    "\<forall>a. unat a < 0x400000 \<longrightarrow> translate x a = Some a"
    "\<forall>a \<in> heap_page. 4096 \<le> unat (phys x a) \<and> unat (phys x a) < 0x400000"
    "\<forall>f \<in> frames (mem x) (kernel_directory x). unat f + 4096 \<le> 0x400000"
    "\<forall>i < 1024. i \<noteq> 0 \<longrightarrow> i \<noteq> 4 \<longrightarrow> pde (mem x) (kernel_directory x) i = 2"
    "task.more x = task.more u" "gdt_entries x = gdt_entries u" "idt_table x = idt_table u" "bitmap_span x = bitmap_span u"
    "\<forall>f \<in> frames (mem x) (kernel_directory x). block_of f \<in> lowest 4 (free_blocks u)"
    "\<forall>a \<in> heap_page. block_of (phys x a) \<in> lowest 4 (free_blocks u)"
    using kernel_built [OF u(1) lu [folded u(2)] la bF [folded u(2)]] by (elim exE conjE) (rule that)
  have "first_task pf mb s = Some x"
    using u0 st by (simp add: first_task_def heap_and_task_def u_def [symmetric])
  moreover have "gdt_entries x = gdt_entries (gdt_init (gdt_address pf) (tss_address pf) (tss_stack_top pf) s)"
    "idt_table x = idt_table (idt_init (devices pf) (idt_address pf) (handlers pf) s)" "task.more x = task.more s"
    "t_id x 0x100000C = next_pid s" "kernel_directory x = of_nat (Min (usable pf mb es s)) * BLOCK_SIZE"
    using x(5,8,13-15) u(2,5,6) up tables_loaded_facts [OF c] by (simp_all add: F_def)
  moreover have "bitmap_span x = bitmap_span (locked_start pf mb s)"
    "\<forall>f \<in> frames (mem x) (kernel_directory x). block_of f \<in> lowest 4 (usable pf mb es s)"
    "\<forall>a \<in> heap_page. block_of (phys x a) \<in> lowest 4 (usable pf mb es s)"
    using x(16-18) u(2,3) by (simp_all add: F_def)
  ultimately show ?thesis using x(1-4,6,7,9-12) by (intro exI [of _ x] conjI)
qed

lemma directory_opened:
  fixes y :: "'a kernel_scheme"
  assumes ok: "paging_ok y" and on: "bit (cr0 y) 31" "cr3 y = kernel_directory y"
    and r: "ring_of heap_page y q" and h: "heap_holds [16] y" and low: "\<forall>a. unat a < 0x400000 \<longrightarrow> translate y a = Some a"
    and hi: "\<forall>a \<in> W. 4096 \<le> unat (phys y a)" and wW: "window W y" "heap_page \<subseteq> W"
    and e: "\<forall>i < 1024. i \<noteq> 0 \<longrightarrow> i \<noteq> 4 \<longrightarrow> pde (mem y) (kernel_directory y) i = 2"
    and kd: "unat (kernel_directory y) + 4096 \<le> 0x400000"
  defines "z \<equiv> y\<lparr>mem := opened (kernel_directory y) 1024 (mem y)\<rparr>"
  shows "open_entries [0..<1024] y = Some z" "ring_of heap_page z q" "heap_holds [16] z" "t_id z 0x100000C = t_id y 0x100000C"
    "\<forall>a. unat a < 0x400000 \<longrightarrow> translate z a = Some a"
    "\<forall>a. dix a \<noteq> 0 \<longrightarrow> dix a \<noteq> 4 \<longrightarrow>
        (let e = load32 (mem z) (4 * of_nat (tix a)) in
           translate z a = (if present e then Some (frame_of e OR (a AND 0xFFF)) else None) \<and>
           user_page (mem z) (cr3 z) a = (present e \<and> bit e 2))"
    "window W z"
proof -
  let ?d = "kernel_directory y"
  have w: "window heap_page y" using r by (simp add: ring_of_def)
  show "open_entries [0..<1024] y = Some z"
    using open_entries_run [OF ok on kd, of 1024] low by (simp add: z_def)
  have "translate y 0 \<noteq> None" using low by simp
  then have "walk (mem y) ?d 0 \<noteq> None" using on by (simp add: translate_def)
  from walk_present [OF this] have p0: "present (pde (mem y) ?d 0)" by (simp add: dix_def)
  have p4: "present (pde (mem y) ?d 4)" using heap_slot_present [OF w on(1)] by simp
  have empty: "\<forall>i < 1024. \<not> present (pde (mem y) ?d i) \<longrightarrow> pde (mem y) ?d i = 2" using e p0 p4 by metis
  have absent: "\<not> present (pde (mem y) ?d (dix a))" if "dix a \<noteq> 0" "dix a \<noteq> 4" for a
    using that e index_bounds(1) [of a] by simp
  have "\<forall>a \<in> heap_page. 4096 \<le> unat (phys y a)" using hi wW(2) by blast
  note o = opened_window [OF ok on w this empty, folded z_def]
  show "window W z" by (rule opened_window(2) [OF ok on wW(1) hi empty, folded z_def])
  show "ring_of heap_page z q" by (rule ring_agree [OF r o(3,2)]) (simp_all add: z_def)
  show "heap_holds [16] z" by (rule heap_holds_agree [OF h _ o(3,2)]) (simp_all add: z_def)
  have "owns heap_page 0x100000C" using heap_page_sub [of 12 4] by (simp add: owns_def)
  then show "t_id z 0x100000C = t_id y 0x100000C" using owned_load [OF o(3)] by (simp add: t_id_def)
  show "\<forall>a. unat a < 0x400000 \<longrightarrow> translate z a = Some a" using o(1) low by simp
  show "\<forall>a. dix a \<noteq> 0 \<longrightarrow> dix a \<noteq> 4 \<longrightarrow>
        (let e = load32 (mem z) (4 * of_nat (tix a)) in
           translate z a = (if present e then Some (frame_of e OR (a AND 0xFFF)) else None) \<and>
           user_page (mem z) (cr3 z) a = (present e \<and> bit e 2))"
    using o(4,5) absent by (simp add: Let_def)
qed

text \<open>The memory above the first page and below 4 MB that is neither taken at the start nor the bitmap.\<close>

definition spare :: "platform \<Rightarrow> u32 \<Rightarrow> mmap_entry list \<Rightarrow> 'a kernel_scheme \<Rightarrow> u32 set" where
  "spare pf mb es s = {a. 4096 \<le> unat a \<and> unat a < 0x400000 \<and> block_of a \<notin> lowest 4 (usable pf mb es s) \<and>
     a \<notin> bitmap_span (locked_start pf mb s)}"

lemma low_window:
  fixes x :: "'a paging_scheme"
  assumes ok: "paging_ok x" and w: "window heap_page x" and low: "\<forall>a. unat a < 0x400000 \<longrightarrow> translate x a = Some a"
    and fr: "\<forall>f \<in> frames (mem x) (kernel_directory x). block_of f \<in> B"
    and hp: "\<forall>a \<in> heap_page. block_of (phys x a) \<in> B"
    and S: "\<forall>a \<in> S. unat a < 0x400000 \<and> block_of a \<notin> B \<and> a \<notin> bitmap_span x"
  shows "window (heap_page \<union> S) x"
proof -
  have id: "translate x a = Some a" "phys x a = a" if "a \<in> S" for a using low S that by (simp_all add: phys_def)
  have "a \<notin> span f 4096" if "a \<in> S" "f \<in> frames (mem x) (kernel_directory x)" for a f
  proof
    assume "a \<in> span f 4096"
    then obtain i where i: "i < 4096" "a = f + of_nat i" by (auto simp: span_def)
    have "aligned f" using frames_aligned that(2) ok by (auto simp: paging_ok_def)
    then have "block_of a = block_of f" unfolding i(2) by (rule page_offset(4)) (rule i(1))
    then show False using fr S that by auto
  qed
  then have "a \<notin> frame_bytes (frames (mem x) (kernel_directory x))" if "a \<in> S" for a using that by (auto simp: frame_bytes_def)
  moreover have "inj_on (phys x) (heap_page \<union> S)"
  proof (rule inj_onI)
    fix a b assume "a \<in> heap_page \<union> S" "b \<in> heap_page \<union> S" "phys x a = phys x b"
    then show "a = b" using w id(2) hp S unfolding window_def inj_on_def by (metis UnE)
  qed
  ultimately show ?thesis using w id S by (auto simp: window_def)
qed

text \<open>The last steps of \<open>kernel_main\<close>: the message, \<open>sti\<close>, the cleared screen and the prompt.\<close>

lemma prompt_up:
  fixes z :: "'a kernel_scheme"
  defines "e \<equiv> (klog_ok (lit ''Multitasking Engine Engaged. Waiting for first tick...'') z)\<lparr>interrupts := True\<rparr>"
  defines "t \<equiv> vga_lock_cursor (vga_print_color (lit ''root@ng-os:~ '') 0x03 (vga_clear_screen e))"
  shows "mem t = mem z" "translate t = translate z" "cr3 t = cr3 z" "cr0 t = cr0 z" "kernel_directory t = kernel_directory z"
    "vga_index t = 13" "vga_limit t = 13" "interrupts t" "next_pid t = next_pid z"
    "gdt_entries t = gdt_entries z" "idt_table t = idt_table z"
    "current_args t = current_args z" "shell_buffer t = shell_buffer z" "buffer_idx t = buffer_idx z"
    "window W t = window W z" "ring_of W t q = ring_of W z q" "heap_holds ms t = heap_holds ms z" "t_id t a = t_id z a"
proof -
  have te: "mem t = mem e" "vga.more t = vga.more e" by (simp_all add: t_def)
  note vt = console_view [OF te]
  note ez = klog_view [where m = "lit ''Multitasking Engine Engaged. Waiting for first tick...''" and s = z]
  show "vga_index t = 13" "vga_limit t = 13" unfolding t_def by (rule shell_prompt; simp)+
  show "mem t = mem z" "translate t = translate z" "cr3 t = cr3 z" "cr0 t = cr0 z" "kernel_directory t = kernel_directory z"
    using te vt ez by (simp_all add: e_def)
  show "interrupts t" "gdt_entries t = gdt_entries z" "idt_table t = idt_table z" "next_pid t = next_pid z"
    "current_args t = current_args z" "shell_buffer t = shell_buffer z" "buffer_idx t = buffer_idx z"
    "window W t = window W z" "ring_of W t q = ring_of W z q" "heap_holds ms t = heap_holds ms z" "t_id t a = t_id z a"
    using vt ez by (simp_all add: e_def)
qed

lemma kernel_main_up:
  fixes s :: "'a kernel_scheme"
  assumes c: "cold s" and b: "bootable pf mb es s"
  shows "\<exists>t. kernel_main pf MULTIBOOT_NUMBER_CHECK mb s = Some (Halts t) \<and>
     interrupts t \<and> bit (cr0 t) 31 \<and> cr3 t = kernel_directory t \<and>
     kernel_directory t = of_nat (Min (usable pf mb es s)) * BLOCK_SIZE \<and>
     (\<forall>a. unat a < 0x400000 \<longrightarrow> translate t a = Some a) \<and>
     ring_of heap_page t [(0x100000C, 0)] \<and> t_id t 0x100000C = next_pid s \<and> heap_holds [16] t \<and>
     current_args t = current_args s \<and> shell_buffer t = shell_buffer s \<and> buffer_idx t = buffer_idx s \<and>
     vga_index t = 13 \<and> vga_limit t = 13 \<and>
     gdt_entries t = gdt_entries (gdt_init (gdt_address pf) (tss_address pf) (tss_stack_top pf) s) \<and>
     idt_table t = idt_table (idt_init (devices pf) (idt_address pf) (handlers pf) s) \<and>
     (\<forall>a. dix a \<noteq> 0 \<longrightarrow> dix a \<noteq> 4 \<longrightarrow>
        (let e = load32 (mem t) (4 * of_nat (tix a)) in
           translate t a = (if present e then Some (frame_of e OR (a AND 0xFFF)) else None) \<and>
           user_page (mem t) (cr3 t) a = (present e \<and> bit e 2))) \<and>
     window (heap_page \<union> spare pf mb es s) t"
proof -
  obtain x where x: "first_task pf mb s = Some x" "ring_of heap_page x [(0x100000C, 0)]" "heap_holds [16] x" "paging_ok x"
    "bit (cr0 x) 31" "t_id x 0x100000C = next_pid s" "cr3 x = kernel_directory x"
    "kernel_directory x = of_nat (Min (usable pf mb es s)) * BLOCK_SIZE"
    "\<forall>a. unat a < 0x400000 \<longrightarrow> translate x a = Some a"
    "\<forall>a \<in> heap_page. 4096 \<le> unat (phys x a) \<and> unat (phys x a) < 0x400000"
    "\<forall>f \<in> frames (mem x) (kernel_directory x). unat f + 4096 \<le> 0x400000"
    "\<forall>i < 1024. i \<noteq> 0 \<longrightarrow> i \<noteq> 4 \<longrightarrow> pde (mem x) (kernel_directory x) i = 2" "task.more x = task.more s"
    "gdt_entries x = gdt_entries (gdt_init (gdt_address pf) (tss_address pf) (tss_stack_top pf) s)"
    "idt_table x = idt_table (idt_init (devices pf) (idt_address pf) (handlers pf) s)"
    "bitmap_span x = bitmap_span (locked_start pf mb s)"
    "\<forall>f \<in> frames (mem x) (kernel_directory x). block_of f \<in> lowest 4 (usable pf mb es s)"
    "\<forall>a \<in> heap_page. block_of (phys x a) \<in> lowest 4 (usable pf mb es s)"
    using first_task_started [OF c b] by (elim exE conjE) (rule that)
  define y where "y = os_greeting (lit ''NG-OS :)'') (klog_ok (lit ''Task Initialized.\<newline>'') x)"
  have my: "mem y = mem x" and "vga.more y = vga.more x" by (simp_all add: y_def)
  note vy = console_view [OF this]
  let ?W = "heap_page \<union> spare pf mb es s"
  have wx: "window ?W x"
    using ring_in(2) [OF x(2)] x(16) by (intro low_window [OF x(4) _ x(9,17,18)]) (simp_all add: spare_def)
  then have wW: "window ?W y" using vy by simp
  have hW: "\<forall>a \<in> ?W. 4096 \<le> unat (phys y a)" using x(9,10) vy by (auto simp: spare_def phys_def)
  define z where "z = y\<lparr>mem := opened (kernel_directory y) 1024 (mem y)\<rparr>"
  have "kernel_directory y \<in> frames (mem x) (kernel_directory x)" using vy(5) by (simp add: frames_def)
  then have kd: "unat (kernel_directory y) + 4096 \<le> 0x400000" using x(11) by blast
  have o: "open_entries [0..<1024] y = Some z" "ring_of heap_page z [(0x100000C, 0)]" "heap_holds [16] z"
    "t_id z 0x100000C = t_id y 0x100000C" "\<forall>a. unat a < 0x400000 \<longrightarrow> translate z a = Some a"
    "\<forall>a. dix a \<noteq> 0 \<longrightarrow> dix a \<noteq> 4 \<longrightarrow>
        (let e = load32 (mem z) (4 * of_nat (tix a)) in
           translate z a = (if present e then Some (frame_of e OR (a AND 0xFFF)) else None) \<and>
           user_page (mem z) (cr3 z) a = (present e \<and> bit e 2))"
    and wz: "window ?W z"
    unfolding z_def by (rule directory_opened [OF _ _ _ _ _ _ hW wW _ _ kd]; use x my vy in simp)+
  define e where "e = (klog_ok (lit ''Multitasking Engine Engaged. Waiting for first tick...'') z)\<lparr>interrupts := True\<rparr>"
  define t where "t = vga_lock_cursor (vga_print_color (lit ''root@ng-os:~ '') 0x03 (vga_clear_screen e))"
  note up = prompt_up [where z = z, folded e_def, folded t_def]
  have run: "kernel_main pf MULTIBOOT_NUMBER_CHECK mb s = Some (Halts t)"
    using kernel_main_first_task [OF x(1)] o(1)
    by (simp add: opened_up_def y_def [symmetric] e_def t_def kernel_shell_def Let_def)
  have tz: "task.more z = task.more s" "gdt_entries z = gdt_entries x" "idt_table z = idt_table x"
    using x(13) vy by (simp_all add: z_def)
  have args: "current_args z = current_args s" "shell_buffer z = shell_buffer s" "buffer_idx z = buffer_idx s"
    using tz(1) by (cases z; cases s; simp)+
  have zf: "kernel_directory z = kernel_directory x" "cr3 z = cr3 x" "cr0 z = cr0 x" using vy by (simp_all add: z_def)
  have "kernel_main pf MULTIBOOT_NUMBER_CHECK mb s = Some (Halts t) \<and> vga_index t = 13 \<and> vga_limit t = 13 \<and> interrupts t"
    using run up by simp
  then show ?thesis using up wz o(2-6) x(5-8,14,15) vy(19) args tz zf by (intro exI [of _ t]) simp
qed

section \<open>Too little memory\<close>

lemma paging_init_halts_more: "paging_init s = Halts t \<Longrightarrow> paging.more t = paging.more s"
proof -
  have e: "paging.more (klog_err m s) = paging.more s" for m and s :: "'a paging_scheme"
    by (rule vga_more_paging) simp
  show "paging_init s = Halts t \<Longrightarrow> paging.more t = paging.more s"
    unfolding paging_init_def Let_def case_prod_beta
    by (auto simp: alloc_paging_more e split: if_splits)
qed

text \<open>Fewer than four low blocks: the fourth of the lowest blocks is high, if there is one.\<close>

lemma fourth_high:
  fixes F :: "nat set"
  assumes fin: "finite F" and c: "card {b \<in> F. b < L} < 4"
  defines "G \<equiv> F - {Min F, Min (F - {Min F})}"
  assumes g: "2 \<le> card G"
  shows "L \<le> Min (G - {Min G})" "Min (G - {Min G}) \<in> F"
proof -
  have finG: "finite G" using fin by (simp add: G_def)
  define m where "m = Min (G - {Min G})"
  have ne: "G \<noteq> {}" "G - {Min G} \<noteq> {}"
  proof -
    show n: "G \<noteq> {}" using g by auto
    have "Min G \<in> G" using n finG by simp
    then have "card (G - {Min G}) = card G - 1" by simp
    then show "G - {Min G} \<noteq> {}" using g by (metis card.empty diff_is_0_eq not_less_eq_eq numeral_2_eq_2 One_nat_def)
  qed
  have mG: "m \<in> G - {Min G}" unfolding m_def using ne finG by (intro Min_in) auto
  then show "Min (G - {Min G}) \<in> F" by (auto simp: m_def G_def)
  show "L \<le> Min (G - {Min G})"
  proof (rule ccontr)
    assume "\<not> L \<le> Min (G - {Min G})"
    then have lt: "m < L" by (simp add: m_def)
    have F1: "Min F \<in> F" using mG fin by (intro Min_in) (auto simp: G_def)
    have F2: "Min (F - {Min F}) \<in> F - {Min F}" using mG fin by (intro Min_in) (auto simp: G_def)
    have F3: "Min G \<in> G" using ne finG by simp
    have le: "Min F \<le> m" "Min (F - {Min F}) \<le> m" "Min G \<le> m"
      using mG fin finG by (auto simp: G_def intro: Min_le)
    have sub: "{Min F, Min (F - {Min F}), Min G, m} \<subseteq> {b \<in> F. b < L}"
      using F1 F2 F3 mG le lt by (auto simp: G_def)
    have "card {Min F, Min (F - {Min F}), Min G, m} = 4"
      using F2 F3 mG by (auto simp: G_def)
    then show False using card_mono [OF _ sub] fin c by simp
  qed
qed

lemma heap_start_faults:
  fixes u :: "'a kernel_scheme"
  assumes ok: "pmm_ok u" and c: "2 \<le> card (free_blocks u)" and la: "low_apart 2 u" and m: "Min (free_blocks u) < 1024"
    and few: "card {b \<in> free_blocks u. b < 1024} < 4"
  shows "\<exists>v. paging_init u = Returns v \<and> bit (cr0 v) 31 \<and> heap_init (klog_ok t v) = None \<and>
     (let (f, h) = pmm_alloc_block (klog_ok t v) in map_page 0x1000000 f h = None \<and> translate h (fst (pmm_alloc_block h)) = None)"
proof -
  define F where "F = free_blocks u"
  define G where "G = F - {Min F, Min (F - {Min F})}"
  obtain v where v: "paging_init u = Returns v" "paging_ok v" "bit (cr0 v) 31" "cr3 v = kernel_directory v"
    "free_blocks v = G" "\<forall>a. translate v a = (if unat a < 0x400000 then Some a else None)"
    "self_mapped v (span (kernel_directory v) 4096)"
    "\<forall>i < 1024. present (pde (mem v) (kernel_directory v) i) \<longleftrightarrow> i = 0"
    using paging_started [OF ok c la m] unfolding F_def [symmetric] G_def [symmetric] by (elim exE conjE) (rule that)
  define v1 where "v1 = klog_ok t v"
  note k1 = klog_view [where m = t and s = v, folded v1_def]
  have m1: "mem v1 = mem v" by (simp add: v1_def)
  have un: "if card G < 2 then translate v1 0xFFFFFFFF = None
      else translate v1 (of_nat (Min (G - {Min G})) * BLOCK_SIZE) = None"
  proof (cases "card G < 2")
    case False
    then have "1024 \<le> Min (G - {Min G})" "Min (G - {Min G}) \<in> F"
      using fourth_high [of F 1024, folded G_def] few by (simp_all add: F_def)
    moreover have "b < 2 ^ 20" if "b \<in> F" for b
      using managed_bound [of u] ok that by (auto simp: F_def free_blocks_def)
    ultimately show ?thesis using False v(6) k1(4) block_address(1) [of "Min (G - {Min G})"] by simp
  qed (simp add: v(6) k1(4))
  have fv: "free_blocks v1 = G" using k1(2) v(5) by simp
  have a1: "paging_ok v1" "cr3 v1 = kernel_directory v1" "\<not> present (pde (mem v1) (kernel_directory v1) 4)"
    using v k1 m1 by simp_all
  have "self_mapped v1 (span (kernel_directory v1) 4096)" using v(7) k1 by (simp add: self_mapped_def)
  note faults = heap_init_faults [OF a1 this un [folded fv]]
  show ?thesis unfolding case_prod_beta Let_def
    by (intro exI [of _ v] conjI v(1,3) faults [unfolded v1_def])
qed

section \<open>Machines for the demonstrations\<close>

text \<open>
  32 MB, the information block at 0x9000, one available region
  of \<open>n\<close> blocks from 0x1000 on, the kernel ending at 2 MB.
\<close>

definition pc :: platform where
  "pc = \<lparr>kernel_end = 0x200000, gdt_address = 0x103000, tss_address = 0x103100, tss_stack_top = 0x106000,
     idt_address = 0x104000, handlers = \<lparr>isr14 = 0x101000, timer_stub = 0x101100, keyboard_handler = 0x101200,
       isr128 = 0x101300\<rparr>, devices = (\<lambda>_. 0xB8)\<rparr>"

definition pc_memory :: "nat \<Rightarrow> memory" where
  "pc_memory n = boot_info 0x1000 0 (of_nat (4096 * n)) (store32 (store32 (\<lambda>_. 0) 0x9004 0) 0x9008 0x8000)"

definition powered_on :: "nat \<Rightarrow> kernel" where
  "powered_on n = keyboard.extend (typist\<lparr>mem := pc_memory n\<rparr>) \<lparr>interrupts = False\<rparr>"

lemma powered_on_fields:
  "mem (powered_on n) = pc_memory n" "gdt_entries (powered_on n) = replicate 6 (packed 0 0 0 0)"
  "idt_table (powered_on n) = replicate 256 (gate 0 0 0)" "current_args (powered_on n) = replicate 16 0"
  "shell_buffer (powered_on n) = replicate 256 0" "buffer_idx (powered_on n) = 0" "next_pid (powered_on n) = 1"
  by (simp_all add: powered_on_def typist_def idle_def blank_def keyboard.extend_def shell.extend_def timer.extend_def)

lemma powered_on_cold: "cold (powered_on n)"
  by (simp add: cold_def powered_on_fields)

lemma pc_memory_loads:
  "mb_flags (pc_memory n) 0x9000 = 0x40" "mb_mmap_addr (pc_memory n) 0x9000 = 0x9100"
  "mb_mmap_length (pc_memory n) 0x9000 = 24" "total_ram_size (pc_memory n) 0x9000 = 0x2000000"
  by (simp_all add: pc_memory_def mb_flags_def mb_mmap_addr_def mb_mmap_length_def boot_info_loads
      total_ram_size_def mb_mem_lower_def mb_mem_upper_def) (simp add: boot_info_def load32_store32_sep sep_def)

abbreviation pc_entry :: "nat \<Rightarrow> mmap_entry" where
  "pc_entry n \<equiv> boot_entry 0x1000 0 (of_nat (4096 * n))"

lemma pc_map: "map_at (pc_memory n) 0x9100 (0x9100 + 24) [pc_entry n]"
  by (simp add: pc_memory_def boot_info_loads entry_at_def mmap_defs load64_def boot_entry_def del: of_nat_mult)

lemma pc_entry_fields:
  assumes "n < 1024"
  shows "unat (e_addr (pc_entry n)) = 0x1000" "unat (e_len (pc_entry n)) = 4096 * n" "e_type (pc_entry n) = 1"
  using assms by (simp_all add: boot_entry_def unat_of_nat unsigned_ucast_eq take_bit_nat_eq_self del: of_nat_mult)

lemma pc_available:
  assumes n: "n < 1024"
  shows "available [pc_entry n] = {1..n}"
proof -
  have u: "unat (e_addr (pc_entry n) + e_len (pc_entry n)) = 4096 * (n + 1)"
    using pc_entry_fields [OF n] n by (simp add: unat_word_ariths)
  have "region_blocks (e_addr (pc_entry n)) (e_len (pc_entry n)) = {1..n}"
  proof (intro set_eqI iffI)
    fix b assume "b \<in> region_blocks (e_addr (pc_entry n)) (e_len (pc_entry n))"
    then obtain k where "k < n" "b = (0x1000 + 4096 * k) mod 2 ^ 32 div 4096"
      unfolding region_blocks_def u pc_entry_fields [OF n] by auto
    then show "b \<in> {1..n}" using n by simp
  next
    fix b :: nat assume "b \<in> {1..n}"
    then show "b \<in> region_blocks (e_addr (pc_entry n)) (e_len (pc_entry n))"
      unfolding region_blocks_def u pc_entry_fields [OF n] using n
      by (auto intro!: exI [of _ "b - 1"])
  qed
  then show ?thesis using pc_entry_fields(3) [OF n] by (simp add: available_def)
qed

lemma pc_bitmap: "bitmap_span (locked_start pc 0x9000 (powered_on n)) = span 0x200000 1024"
  "managed (locked_start pc 0x9000 (powered_on n)) = 8192"
proof -
  have "total_blocks (locked_start pc 0x9000 (powered_on n)) = 8192" "pmm_bitmap (locked_start pc 0x9000 (powered_on n)) = 0x200000"
    by (simp_all add: locked_start_def powered_on_fields pc_memory_loads pc_def BLOCK_SIZE_def)
  then show "bitmap_span (locked_start pc 0x9000 (powered_on n)) = span 0x200000 1024"
    "managed (locked_start pc 0x9000 (powered_on n)) = 8192"
    by (auto simp: bitmap_span_def managed_def span_iff)
qed

lemma pc_usable: "n < 1024 \<Longrightarrow> usable pc 0x9000 [pc_entry n] (powered_on n) = {1..n}"
  unfolding usable_def pc_bitmap pc_available by auto

lemma low_apart_2M: "unat a + n \<le> 0x200000 \<Longrightarrow> span a n \<inter> span 0x200000 1024 = {}"
proof -
  assume a: "unat a + n \<le> 0x200000"
  have "x \<notin> span 0x200000 1024" if x: "x \<in> span a n" for x
  proof
    assume "x \<in> span 0x200000 1024"
    then obtain j where j: "j < 1024" "x = 0x200000 + of_nat j" by (auto simp: span_def)
    obtain i where i: "i < n" "x = a + of_nat i" using x by (auto simp: span_def)
    have "unat x = unat a + i" using a i by (simp add: unat_word_ariths unat_of_nat)
    moreover have "unat x = 0x200000 + j" using j by (simp add: unat_word_ariths unat_of_nat)
    ultimately show False using a i by simp
  qed
  then show ?thesis by blast
qed

lemma powered_on_sound:
  assumes n: "1 \<le> n" "n < 1024"
  shows "sound_map pc 0x9000 [pc_entry n] (powered_on n)" "low_usable pc 0x9000 [pc_entry n] (powered_on n) = {1..n}"
proof -
  have "span (0x9000 :: u32) 52 \<inter> span 0x200000 1024 = {}" "span (0x9100 :: u32) 24 \<inter> span 0x200000 1024 = {}"
    by (rule low_apart_2M; simp)+
  then have d: "(span 0x9000 52 \<union> map_bytes 0x9100 [pc_entry n]) \<inter> span 0x200000 1024 = {}" by auto
  have "span (of_nat b * BLOCK_SIZE) 4096 \<inter> span 0x200000 1024 = {}"
    if b: "b \<in> {1..n}" "card {c \<in> {1..n}. c < b} < 4" for b
  proof -
    have "{c \<in> {1..n}. c < b} = {1..<b}" using b by auto
    then have "b \<le> 4" using b(2) by simp
    then show ?thesis by (intro low_apart_2M) (simp add: BLOCK_SIZE_def unat_word_ariths unat_of_nat)
  qed
  moreover have "no_overflow [pc_entry n]" using pc_entry_fields [OF n(2)] n by (simp add: no_overflow_def)
  moreover have "\<forall>a \<in> span (0x200000 :: u32) 1024. unat a < 0x400000"
    by (auto simp: span_def unat_word_ariths unat_of_nat)
  ultimately show "sound_map pc 0x9000 [pc_entry n] (powered_on n)"
    unfolding sound_map_def pc_usable [OF n(2)] pc_bitmap powered_on_fields pc_memory_loads using pc_map d n
    by simp
  show "low_usable pc 0x9000 [pc_entry n] (powered_on n) = {1..n}"
    using n unfolding low_usable_def pc_usable [OF n(2)] by auto
qed

lemma powered_on_bootable:
  assumes n: "4 \<le> n" "n < 1024"
  shows "bootable pc 0x9000 [pc_entry n] (powered_on n)" "Min {1..n} = 1"
proof -
  have "1 \<le> n" using n by simp
  from powered_on_sound [OF this n(2)] n show "bootable pc 0x9000 [pc_entry n] (powered_on n)"
    by (simp add: bootable_def)
  show "Min {1..n} = 1" using n by (intro Min_eqI) auto
qed

section \<open>Properties\<close>

text \<open>C1: \<open>kernel_main\<close> starts the system: with the magic number of a multiboot loader, a well-formed memory
  map and four usable blocks in the first four megabytes it runs through every initialization without a fault and comes to
  rest in \<open>kernel_shell\<close>, with interrupts on and paging on, the first four megabytes mapped onto
  themselves, a heap that holds one block, the task structure of process \<open>next_pid\<close> alone in the ring
  of the scheduler, the descriptor tables as \<open>gdt_init\<close> and \<open>idt_init\<close> leave them, an empty command
  line, and the screen showing the prompt with the cursor locked behind it.\<close>

theorem kernel_main_boots:
  fixes s :: "'a kernel_scheme"
  assumes "cold s" and "bootable pf mb es s"
  shows "\<exists>t. kernel_main pf MULTIBOOT_NUMBER_CHECK mb s = Some (Halts t) \<and>
     interrupts t \<and> bit (cr0 t) 31 \<and> cr3 t = kernel_directory t \<and>
     kernel_directory t = of_nat (Min (usable pf mb es s)) * BLOCK_SIZE \<and>
     (\<forall>a. unat a < 0x400000 \<longrightarrow> translate t a = Some a) \<and>
     ring_of heap_page t [(0x100000C, 0)] \<and> t_id t 0x100000C = next_pid s \<and> heap_holds [16] t \<and>
     kbd_ok t \<and> pending t = [] \<and> echoed t \<and> vga_index t = 13 \<and>
     gdt_entries t = gdt_entries (gdt_init (gdt_address pf) (tss_address pf) (tss_stack_top pf) s) \<and>
     idt_table t = idt_table (idt_init (devices pf) (idt_address pf) (handlers pf) s)"
proof -
  obtain t where t: "kernel_main pf MULTIBOOT_NUMBER_CHECK mb s = Some (Halts t)"
    "interrupts t" "bit (cr0 t) 31" "cr3 t = kernel_directory t"
    "kernel_directory t = of_nat (Min (usable pf mb es s)) * BLOCK_SIZE"
    "\<forall>a. unat a < 0x400000 \<longrightarrow> translate t a = Some a"
    "ring_of heap_page t [(0x100000C, 0)]" "t_id t 0x100000C = next_pid s" "heap_holds [16] t"
    "current_args t = current_args s" "shell_buffer t = shell_buffer s" "buffer_idx t = buffer_idx s"
    "vga_index t = 13" "vga_limit t = 13"
    "gdt_entries t = gdt_entries (gdt_init (gdt_address pf) (tss_address pf) (tss_stack_top pf) s)"
    "idt_table t = idt_table (idt_init (devices pf) (idt_address pf) (handlers pf) s)"
    using kernel_main_up [OF assms] by (elim exE conjE) (rule that)
  have "kbd_ok t" "pending t = []" using assms(1) t(10-12) by (simp_all add: kbd_ok_def pending_def cold_def)
  moreover have "echoed t" using t(13,14) \<open>pending t = []\<close> by (simp add: echoed_def)
  ultimately show ?thesis using t by (intro exI [of _ t] conjI)
qed

theorem kernel_main_boots_witness:
  "\<exists>t. kernel_main pc 0x2BADB002 0x9000 (powered_on 8) = Some (Halts t) \<and> interrupts t \<and> cr3 t = 0x1000 \<and>
     translate t 0x101000 = Some 0x101000"
proof -
  have n: "4 \<le> (8 :: nat)" "8 < (1024 :: nat)" by simp_all
  have d: "of_nat (Min (usable pc 0x9000 [pc_entry 8] (powered_on 8))) * BLOCK_SIZE = 0x1000"
    unfolding pc_usable [OF n(2)] powered_on_bootable(2) [OF n] by (simp add: BLOCK_SIZE_def)
  obtain t where "kernel_main pc MULTIBOOT_NUMBER_CHECK 0x9000 (powered_on 8) = Some (Halts t)" "interrupts t"
    "cr3 t = kernel_directory t" "kernel_directory t = of_nat (Min (usable pc 0x9000 [pc_entry 8] (powered_on 8))) * BLOCK_SIZE"
    "\<forall>a. unat a < 0x400000 \<longrightarrow> translate t a = Some a"
    using kernel_main_boots [OF powered_on_cold powered_on_bootable(1) [OF n]] by (elim exE conjE) (rule that)
  then show ?thesis unfolding d MULTIBOOT_NUMBER_CHECK_def by (intro exI [of _ t]) simp
qed

text \<open>C29: The loop that opens the directory to ring 3 also makes its empty slots present, and they all
  point to the page at physical address 0. After the start an address outside the first four
  megabytes and the four of the heap does not fault as an unmapped address should: it is
  translated by a word of the page at 0 (the interrupt vectors of the BIOS), and whenever that
  word has its lowest and third bits set, ring 3 can use it.\<close>

theorem kernel_main_opens_empty_slots:
  fixes s :: "'a kernel_scheme"
  assumes "cold s" and "bootable pf mb es s"
  shows "\<exists>t. kernel_main pf MULTIBOOT_NUMBER_CHECK mb s = Some (Halts t) \<and>
     (\<forall>a. dix a \<noteq> 0 \<longrightarrow> dix a \<noteq> 4 \<longrightarrow>
        (let e = load32 (mem t) (4 * of_nat (tix a)) in
           translate t a = (if present e then Some (frame_of e OR (a AND 0xFFF)) else None) \<and>
           user_page (mem t) (cr3 t) a = (present e \<and> bit e 2)))"
proof -
  obtain t where t: "kernel_main pf MULTIBOOT_NUMBER_CHECK mb s = Some (Halts t)"
    "\<forall>a. dix a \<noteq> 0 \<longrightarrow> dix a \<noteq> 4 \<longrightarrow>
        (let e = load32 (mem t) (4 * of_nat (tix a)) in
           translate t a = (if present e then Some (frame_of e OR (a AND 0xFFF)) else None) \<and>
           user_page (mem t) (cr3 t) a = (present e \<and> bit e 2))"
    using kernel_main_up [OF assms] by (elim exE conjE) (rule that)
  then show ?thesis by blast
qed

theorem kernel_main_opens_empty_slots_witness:
  "\<exists>t. kernel_main pc MULTIBOOT_NUMBER_CHECK 0x9000 (powered_on 8) = Some (Halts t) \<and>
     translate t 0xC0000123 = (if present (load32 (mem t) 0)
       then Some (frame_of (load32 (mem t) 0) OR 0x123) else None)"
proof -
  have n: "4 \<le> (8 :: nat)" "8 < (1024 :: nat)" by simp_all
  obtain t where t: "kernel_main pc MULTIBOOT_NUMBER_CHECK 0x9000 (powered_on 8) = Some (Halts t)"
    "\<forall>a. dix a \<noteq> 0 \<longrightarrow> dix a \<noteq> 4 \<longrightarrow>
        (let e = load32 (mem t) (4 * of_nat (tix a)) in
           translate t a = (if present e then Some (frame_of e OR (a AND 0xFFF)) else None) \<and>
           user_page (mem t) (cr3 t) a = (present e \<and> bit e 2))"
    using kernel_main_opens_empty_slots [OF powered_on_cold powered_on_bootable(1) [OF n]] by blast
  have "dix 0xC0000123 = 768" "tix 0xC0000123 = 0" by (simp_all add: dix_def tix_def drop_bit_eq_div)
  with t(2) [THEN spec, of "0xC0000123"] have "translate t 0xC0000123 = (if present (load32 (mem t) 0)
       then Some (frame_of (load32 (mem t) 0) OR 0x123) else None)" by (simp add: Let_def)
  with t(1) show ?thesis by blast
qed

text \<open>C30: The start releases the memory of the kernel itself: when an available region of the map covers
  the end of the kernel, where the allocator keeps its bitmap, the block of the bitmap is free
  after the map was read, and a run of as many allocations as there are free blocks hands it out.\<close>

theorem boot_releases_bitmap:
  fixes s :: "'a kernel_scheme"
  assumes "cold s" and "bootable pf mb es s"
    and "e \<in> set es" and "e_type e = 1" and "4096 dvd unat (e_addr e)"
    and "unat (e_addr e) \<le> unat (kernel_end pf)" and "unat (kernel_end pf) < unat (e_addr e) + unat (e_len e)"
    and "4096 \<le> unat (kernel_end pf)" and "block_of (kernel_end pf) < managed (locked_start pf mb s)"
  shows "\<exists>t. parse_memory_map mb (frames_locked pf mb (timer_programmed (tables_loaded pf s))) = Some t \<and>
     (let u = pmm_lock_memory 0 t in block_of (kernel_end pf) \<in> free_blocks u \<and>
        kernel_end pf \<in> bitmap_span u \<and>
        of_nat (block_of (kernel_end pf)) * BLOCK_SIZE \<in> set (fst (alloc_many pmm_alloc_block (card (free_blocks u)) u)))"
proof -
  let ?k = "unat (kernel_end pf)" and ?a = "unat (e_addr e)"
  have le: "?a + unat (e_len e) < 2 ^ 64" using assms(2,3,4) by (auto simp: bootable_def sound_map_def no_overflow_def)
  obtain q where q: "?a = 4096 * q" using assms(5) by (auto elim: dvdE)
  define b where "b = ?k div 4096"
  have b: "q \<le> b" "4096 * b \<le> ?k" "?k < 2 ^ 32" using assms(6) q unat_less_32 [of "kernel_end pf"] by (simp_all add: b_def)
  have "?a + 4096 * (b - q) < unat (e_addr e + e_len e)" "(?a + 4096 * (b - q)) mod 2 ^ 32 div 4096 = b"
    using b q assms(7) le by (simp_all add: unat_word_ariths diff_mult_distrib2)
  then have "b \<in> region_blocks (e_addr e) (e_len e)" unfolding region_blocks_def by force
  then have "b \<in> available es" using assms(3,4) by (auto simp: available_def)
  moreover have "b \<noteq> 0" using assms(8) by (simp add: b_def div_eq_0_iff)
  ultimately have bu: "b \<in> usable pf mb es s" using assms(9) by (simp add: usable_def b_def)
  then have une: "usable pf mb es s \<noteq> {}" by blast
  obtain t where t: "parse_memory_map mb (frames_locked pf mb (timer_programmed (tables_loaded pf s))) = Some t"
    "pmm_ok (pmm_lock_memory 0 t)" "free_blocks (pmm_lock_memory 0 t) = usable pf mb es s"
    "bitmap_span (pmm_lock_memory 0 t) = bitmap_span (locked_start pf mb s)"
    using memory_mapped [OF assms(1) _ une] assms(2) unfolding bootable_def by blast
  define u where "u = pmm_lock_memory 0 t"
  note t = t [folded u_def]
  have c: "card (free_addresses u) = card (free_blocks u)"
    unfolding free_addresses_def by (rule card_image [OF free_address_inj [OF t(2)]])
  from pma.many [OF t(2), of "card (free_blocks u)"] c
  have "set (fst (alloc_many pmm_alloc_block (card (free_blocks u)) u)) = free_addresses u"
    using pma.finite_avail [OF t(2)] by (intro card_subset_eq) (auto simp: distinct_card)
  then have "of_nat b * BLOCK_SIZE \<in> set (fst (alloc_many pmm_alloc_block (card (free_blocks u)) u))"
    using bu t(3) by (simp add: free_addresses_def)
  moreover have "kernel_end pf \<in> bitmap_span u"
  proof -
    have "0 < managed (locked_start pf mb s)" using assms(9) by simp
    then show ?thesis by (simp add: t(4)) (auto simp: bitmap_span_def managed_def locked_start_def)
  qed
  ultimately show ?thesis using t(1,3) bu by (intro exI [of _ t]) (simp add: u_def b_def Let_def)
qed

theorem boot_releases_bitmap_witness:
  "\<exists>t. parse_memory_map 0x9000 (frames_locked pc 0x9000 (timer_programmed (tables_loaded pc (powered_on 1023)))) = Some t \<and>
     512 \<in> free_blocks (pmm_lock_memory 0 t)"
proof -
  have n: "4 \<le> (1023 :: nat)" "1023 < (1024 :: nat)" by simp_all
  have k: "kernel_end pc = 0x200000" by (simp add: pc_def)
  show ?thesis
    using boot_releases_bitmap [OF powered_on_cold powered_on_bootable(1) [OF n], of "pc_entry 1023"]
      pc_entry_fields [OF n(2)] by (simp add: pc_bitmap k Let_def del: of_nat_mult) blast
qed

text \<open>C32: Memory that is too short, with one to three usable blocks in the first four megabytes. When there are no
  others and fewer than two of these, the start stops in the endless loop of \<open>paging_init\<close>, with paging and interrupts
  as they were. Otherwise, however much memory there is above, paging is turned on, and the start then ends in a page
  fault: \<open>heap_init\<close> has a frame and calls \<open>map_page\<close>, which clears its new page table, the next frame of the
  allocator or its failure value, at an address that is not mapped.\<close>

theorem kernel_main_short_of_memory:
  fixes s :: "'a kernel_scheme"
  assumes "cold s" and "sound_map pf mb es s" and "low_usable pf mb es s \<noteq> {}" and "card (low_usable pf mb es s) < 4"
  shows "if card (usable pf mb es s) < 2
     then \<exists>t. kernel_main pf MULTIBOOT_NUMBER_CHECK mb s = Some (Halts t) \<and> cr0 t = cr0 s \<and> interrupts t = interrupts s
     else kernel_main pf MULTIBOOT_NUMBER_CHECK mb s = None \<and>
       (\<exists>u v. parse_memory_map mb (frames_locked pf mb (timer_programmed (tables_loaded pf s))) = Some u \<and>
          paging_init (pmm_lock_memory 0 u) = Returns v \<and> bit (cr0 v) 31 \<and>
          (let (f, h) = pmm_alloc_block (klog_ok (lit ''Paging Initialized.\<newline>'') v)
           in map_page 0x1000000 f h = None \<and> translate h (fst (pmm_alloc_block h)) = None))"
proof -
  define F where "F = usable pf mb es s"
  have fF: "finite F" and une: "usable pf mb es s \<noteq> {}"
    using assms(3) by (auto simp: F_def usable_def low_usable_def)
  have mF: "Min F < 1024" using low_min(2) [OF fF, of "{}" 1024] assms(3) fF by (simp add: F_def low_usable_def card_gt_0_iff)
  obtain u0 where u0: "parse_memory_map mb (frames_locked pf mb (timer_programmed (tables_loaded pf s))) = Some u0"
    and u: "pmm_ok (pmm_lock_memory 0 u0)" "free_blocks (pmm_lock_memory 0 u0) = F"
    "bitmap_span (pmm_lock_memory 0 u0) = bitmap_span (locked_start pf mb s)"
    "idt.more (pmm_lock_memory 0 u0) = idt.more s" "cr0 (pmm_lock_memory 0 u0) = cr0 s"
    using memory_mapped [OF assms(1,2) une] unfolding F_def by blast
  define u where "u = pmm_lock_memory 0 u0"
  note u = u [folded u_def]
  have la: "low_apart 4 u" using assms(2) u(2,3) by (simp add: low_apart_def sound_map_def F_def)
  have run: "kernel_main pf MULTIBOOT_NUMBER_CHECK mb s =
      (case paging_init u of Halts s \<Rightarrow> Some (Halts s) | Returns s \<Rightarrow> Option.bind (heap_and_task s) opened_up)"
    using u0 by (simp add: kernel_main_eq u_def)
  show ?thesis
  proof (cases "card F < 2")
    case True
    have "low_apart 1 u" by (rule low_apart_mono [OF la]) simp
    from paging_init_out_of_memory [OF u(1) True [folded u(2)] this] obtain t where
      t: "paging_init u = Halts t" "cr0 t = cr0 u" by blast
    have "paging.more t = paging.more u" by (rule paging_init_halts_more [OF t(1)])
    then have "interrupts t = interrupts u" by (cases t; cases u; simp)
    moreover have "interrupts u = interrupts s" using u(4) by (cases u; cases s; simp)
    ultimately show ?thesis using True t u(5) run by (simp add: F_def)
  next
    case False
    have "low_apart 2 u" by (rule low_apart_mono [OF la]) simp
    from heap_start_faults [OF u(1) _ this, of "lit ''Paging Initialized.\<newline>''"] False mF assms(4) obtain v where
      v: "paging_init u = Returns v" "bit (cr0 v) 31" "heap_init (klog_ok (lit ''Paging Initialized.\<newline>'') v) = None"
      "let (f, h) = pmm_alloc_block (klog_ok (lit ''Paging Initialized.\<newline>'') v)
       in map_page 0x1000000 f h = None \<and> translate h (fst (pmm_alloc_block h)) = None"
      by (auto simp: u(2) low_usable_def F_def)
    then have "kernel_main pf MULTIBOOT_NUMBER_CHECK mb s = None" using run by (simp add: heap_and_task_def)
    with False u0 v(1,2,4) show ?thesis by (auto simp: F_def u_def)
  qed
qed

theorem kernel_main_short_of_memory_witness:
  "(\<exists>t. kernel_main pc MULTIBOOT_NUMBER_CHECK 0x9000 (powered_on 1) = Some (Halts t) \<and> \<not> interrupts t) \<and>
   kernel_main pc MULTIBOOT_NUMBER_CHECK 0x9000 (powered_on 3) = None"
proof -
  have n: "1 \<le> (1 :: nat)" "(1 :: nat) < 1024" "1 \<le> (3 :: nat)" "(3 :: nat) < 1024" by simp_all
  have i: "interrupts (powered_on 1) = False" by (simp add: powered_on_def keyboard.extend_def)
  have c: "low_usable pc 0x9000 [pc_entry 1] (powered_on 1) \<noteq> {}" "card (low_usable pc 0x9000 [pc_entry 1] (powered_on 1)) < 4"
    "low_usable pc 0x9000 [pc_entry 3] (powered_on 3) \<noteq> {}" "card (low_usable pc 0x9000 [pc_entry 3] (powered_on 3)) < 4"
    unfolding powered_on_sound(2) [OF n(1,2)] powered_on_sound(2) [OF n(3,4)] by simp_all
  from kernel_main_short_of_memory [OF powered_on_cold powered_on_sound(1) [OF n(1,2)] c(1,2)]
    kernel_main_short_of_memory [OF powered_on_cold powered_on_sound(1) [OF n(3,4)] c(3,4)] i
  show ?thesis unfolding pc_usable [OF n(2)] pc_usable [OF n(4)] by auto
qed

text \<open>C31: If the calls of \<open>create_task\<close> that \<open>kernel.c\<close> has in a comment behind \<open>task_init\<close> were
  made, the kernel would lose its heap: on every machine that boots, the heap page lies in the first four
  megabytes, and the stacks of the task are opened to ring 3 by mapping the page at 16 MB onto
  itself. From then on every byte of the heap page, the structure of the running task and the
  chunk headers included, is the byte that the frame at 16 MB happens to hold.\<close>

theorem create_task_after_boot_loses_heap:
  fixes s :: "'a kernel_scheme"
  assumes "cold s" and "bootable pf mb es s"
  shows "\<exists>x r t. first_task pf mb s = Some x \<and> ring_of heap_page x [(0x100000C, 0)] \<and> task_stacks x = Some (r, t) \<and>
     current_task t = 0x100000C \<and>
     (\<forall>a \<in> heap_page. unat (phys x a) < 0x400000 \<and> translate t a = Some a \<and> vmem t a = mem x a)"
proof -
  obtain x where x: "first_task pf mb s = Some x" "ring_of heap_page x [(0x100000C, 0)]" "heap_holds [16] x" "paging_ok x"
    "bit (cr0 x) 31" "sees_tables 0x1000000 x"
    "\<forall>a \<in> heap_page. 4096 \<le> unat (phys x a) \<and> unat (phys x a) < 0x400000"
    "\<forall>f \<in> frames (mem x) (kernel_directory x). unat f + 4096 \<le> 0x400000"
    using first_task_started [OF assms] by (elim exE conjE) (rule that)
  have "extent [16] + 2084 \<le> 4096" by simp
  from create_task_loses_heap [OF x(3) this x(5,4,6)] obtain r t where t: "task_stacks x = Some (r, t)"
    "\<forall>a \<in> heap_page. translate t a = Some a" "current_task t = current_task x"
    "\<forall>a \<in> heap_page. a \<notin> phys x ` heap_page \<longrightarrow> a \<notin> frame_bytes (frames (mem x) (kernel_directory x)) \<longrightarrow> vmem t a = mem x a"
    by blast
  have "vmem t a = mem x a" if a: "a \<in> heap_page" for a
  proof -
    have hi: "\<not> unat a < 0x400000" using lowfar a by blast
    have "a \<notin> phys x ` heap_page" using x(7) hi by auto
    moreover have "a \<notin> frame_bytes (frames (mem x) (kernel_directory x))"
    proof
      assume "a \<in> frame_bytes (frames (mem x) (kernel_directory x))"
      then obtain f where f: "f \<in> frames (mem x) (kernel_directory x)" "a \<in> span f 4096" by (auto simp: frame_bytes_def)
      then obtain i where "i < 4096" "a = f + of_nat i" by (auto simp: span_def)
      then show False using x(8) f(1) hi by (auto simp: unat_word_ariths unat_of_nat)
    qed
    ultimately show ?thesis using t(4) a by blast
  qed
  moreover have "current_task x = 0x100000C" using x(2) by (simp add: ring_of_def)
  ultimately show ?thesis using x(1,2,7) t(1-3) by (intro exI [of _ x] exI [of _ r] exI [of _ t]) simp
qed

theorem create_task_after_boot_loses_heap_witness:
  "\<exists>x r t. first_task pc 0x9000 (powered_on 8) = Some x \<and> task_stacks x = Some (r, t) \<and>
     translate x 0x100000C \<noteq> Some 0x100000C \<and> translate t 0x100000C = Some 0x100000C"
proof -
  have n: "4 \<le> (8 :: nat)" "8 < (1024 :: nat)" by simp_all
  have h: "(0x100000C :: u32) \<in> heap_page" by (simp add: span_iff)
  obtain x r t where t: "first_task pc 0x9000 (powered_on 8) = Some x" "task_stacks x = Some (r, t)"
    "\<forall>a \<in> heap_page. unat (phys x a) < 0x400000 \<and> translate t a = Some a \<and> vmem t a = mem x a"
    using create_task_after_boot_loses_heap [OF powered_on_cold powered_on_bootable(1) [OF n]] by blast
  from t(3) h have "unat (phys x 0x100000C) < 0x400000" "translate t 0x100000C = Some 0x100000C" by blast+
  then have "translate x 0x100000C \<noteq> Some 0x100000C" by (auto simp: phys_def)
  with t(1,2) \<open>translate t 0x100000C = Some 0x100000C\<close> show ?thesis by blast
qed

text \<open>\<open>kernel_main\<close> returns to the boot code exactly when the magic number of the loader is
  wrong, and then it has printed to the screen and done nothing else.\<close>

theorem kernel_main_checks_magic:
  "((\<exists>t. kernel_main pf magic mb s = Some (Returns t)) \<longleftrightarrow> magic \<noteq> MULTIBOOT_NUMBER_CHECK) \<and>
   (\<forall>t. kernel_main pf magic mb s = Some (Returns t) \<longrightarrow>
      mem t = mem s \<and> out_log t = out_log s \<and> vga.more t = vga.more s)"
proof (cases "magic = MULTIBOOT_NUMBER_CHECK")
  case True
  have "Option.bind (heap_and_task u) opened_up \<noteq> Some (Returns t)" for u t :: "'a kernel_scheme"
    by (auto simp: opened_up_def kernel_shell_def Let_def bind_eq_Some_conv)
  then have "kernel_main pf magic mb s \<noteq> Some (Returns t)" for t
    by (auto simp: True kernel_main_eq bind_eq_Some_conv split: outcome.splits)
  with True show ?thesis by simp
next
  case False
  then show ?thesis by (simp add: bad_magic)
qed

theorem kernel_main_checks_magic_witness:
  "\<exists>t. kernel_main pc 0x1BADB002 0x9000 (powered_on 8) = Some (Returns t) \<and> mem t = pc_memory 8"
proof -
  have "(0x1BADB002 :: u32) \<noteq> MULTIBOOT_NUMBER_CHECK" by (simp add: MULTIBOOT_NUMBER_CHECK_def)
  then show ?thesis
    using kernel_main_checks_magic [of pc "0x1BADB002" "0x9000" "powered_on 8"] powered_on_fields(1) by metis
qed

end
