(* ===== verification/Loader.thy ===== *)
theory Loader
  imports Kernel
begin

text \<open>
  The entry of the kernel (\<open>_start\<close> of \<open>boot/boot.asm\<close>), where the boot loader jumps with its magic
  number in EAX and the address of its information in EBX, with paging off: it takes the stack of the
  kernel image, hands both to \<open>kernel_main\<close> and freezes the machine when that returns.
\<close>

text \<open>The state in which the machine comes to rest, in the loop around \<open>hlt\<close> of \<open>kernel_main\<close> or in the one behind
  its call; \<open>ret\<close> is the return address that \<open>call\<close> pushes.\<close>

definition boot_start :: "platform \<Rightarrow> u32 \<Rightarrow> u32 \<Rightarrow> u32 \<Rightarrow> u32 \<Rightarrow> 'a kernel_scheme \<Rightarrow> 'a kernel_scheme option" where
  "boot_start pf stack_top ret eax ebx s = do {
     let esp = stack_top;
     (esp, s) \<leftarrow> push ebx esp s;
     (esp, s) \<leftarrow> push eax esp s;
     let s = s\<lparr>interrupts := False\<rparr>;
     (esp, s) \<leftarrow> push ret esp s;
     magic \<leftarrow> vload32 (esp + 4) s;
     mb_info \<leftarrow> vload32 (esp + 8) s;
     r \<leftarrow> kernel_main pf magic mb_info s;
     Some (case r of Returns s \<Rightarrow> s\<lparr>interrupts := False\<rparr> | Halts s \<Rightarrow> s)
   }"

text \<open>The state in which \<open>kernel_main\<close> is entered.\<close>

definition stacked :: "u32 \<Rightarrow> u32 \<Rightarrow> u32 \<Rightarrow> u32 \<Rightarrow> memory \<Rightarrow> memory" where
  "stacked sp ret eax ebx m = store32 (store32 (store32 m (sp - 4) ebx) (sp - 8) eax) (sp - 12) ret"

definition handed_over :: "memory \<Rightarrow> 'a kernel_scheme \<Rightarrow> 'a kernel_scheme" where
  "handed_over m s = s\<lparr>mem := m, interrupts := False\<rparr>"

interpretation ho: console_stranger "handed_over m" for m
  by unfold_locales (simp_all add: handed_over_def)

lemma boot_start_enters:
  assumes "\<not> bit (cr0 s) 31"
  shows "boot_start pf sp ret eax ebx s = do { r \<leftarrow> kernel_main pf eax ebx (handed_over (stacked sp ret eax ebx (mem s)) s);
     Some (case r of Returns s \<Rightarrow> s\<lparr>interrupts := False\<rparr> | Halts s \<Rightarrow> s) }"
proof -
  have off: "vload32 a t = Some (load32 (mem t) a)" "vstore32 a v t = Some (t\<lparr>mem := store32 (mem t) a v\<rparr>)"
    if "\<not> bit (cr0 t) 31" for a v and t :: "'a kernel_scheme"
    using that by (simp_all add: identity_access translate_def)
  have sep: "sep 4 (sp - 12) 4 (sp - 8)" "sep 4 (sp - 12) 4 (sp - 4)" "sep 4 (sp - 8) 4 (sp - 4)" by (simp_all add: sep_def)
  have e: "sp - 12 + 8 = sp - 4" "sp - 12 + 4 = sp - 8" by simp_all
  have ld: "load32 (stacked sp ret eax ebx m) (sp - 4) = ebx" "load32 (stacked sp ret eax ebx m) (sp - 8) = eax" for m
    using load32_store32_sep [OF sep(1)] load32_store32_sep [OF sep(2)] load32_store32_sep [OF sep(3)]
    by (simp_all add: stacked_def load32_store32_same)
  have "s\<lparr>mem := m, interrupts := False, mem := m'\<rparr> = handed_over m' s"
    "cr0 (handed_over m s) = cr0 s" "mem (handed_over m s) = m" for m m' by (simp_all add: handed_over_def)
  then show ?thesis using assms
    by (simp add: boot_start_def push_def Let_def off e ld stacked_def [symmetric])
qed

lemma stacked_bytes: "a \<notin> span (sp - 12) 12 \<Longrightarrow> stacked sp ret eax ebx m a = m a"
proof -
  have sub: "span (sp - 4) 4 \<subseteq> span (sp - 12) 12" "span (sp - 8) 4 \<subseteq> span (sp - 12) 12" "span (sp - 12) 4 \<subseteq> span (sp - 12) 12"
    using span_sub [of 8 4 12 "sp - 12"] span_sub [of 4 4 12 "sp - 12"] span_sub [of 0 4 12 "sp - 12"] by simp_all
  assume "a \<notin> span (sp - 12) 12"
  then have d: "span (sp - 4) 4 \<inter> {a} = {}" "span (sp - 8) 4 \<inter> {a} = {}" "span (sp - 12) 4 \<inter> {a} = {}" using sub by auto
  show ?thesis
    using store32_agree [OF d(1)] store32_agree [OF d(2)] store32_agree [OF d(3)] by (simp add: stacked_def agree_def)
qed

text \<open>The words on the stack do not touch what the kernel reads of the boot loader.\<close>

lemma handed_over_bootable:
  fixes s :: "'a kernel_scheme" and sp ret eax ebx :: u32
  assumes b: "bootable pf mb es s"
    and d: "span (sp - 12) 12 \<inter> (span mb 52 \<union> map_bytes (mb_mmap_addr (mem s) mb) es) = {}"
  defines "t \<equiv> handed_over (stacked sp ret eax ebx (mem s)) s"
  shows "bootable pf mb es t" "usable pf mb es t = usable pf mb es s"
proof -
  let ?t = "handed_over (stacked sp ret eax ebx (mem s)) s" and ?M = "span mb 52 \<union> map_bytes (mb_mmap_addr (mem s) mb) es"
  have ag: "agree ?M (mem s) (mem ?t)"
    using d stacked_bytes [of _ sp ret eax ebx "mem s"] by (auto simp: agree_def handed_over_def)
  have mb: "agree (span mb 52) (mem s) (mem ?t)" by (rule agree_mono [OF ag]) simp
  have f: "mb_flags (mem ?t) mb = mb_flags (mem s) mb" "mb_mmap_addr (mem ?t) mb = mb_mmap_addr (mem s) mb"
    "mb_mmap_length (mem ?t) mb = mb_mmap_length (mem s) mb" "total_ram_size (mem ?t) mb = total_ram_size (mem s) mb"
    using load32_agree [OF mb, of 0] load32_agree [OF mb, of 4] load32_agree [OF mb, of 8] load32_agree [OF mb, of 44]
      load32_agree [OF mb, of 48]
    by (simp_all add: mb_flags_def mb_mmap_addr_def mb_mmap_length_def total_ram_size_def mb_mem_lower_def mb_mem_upper_def
      add.commute)
  have "total_blocks (locked_start pf mb ?t) = total_blocks (locked_start pf mb s)"
    "pmm_bitmap (locked_start pf mb ?t) = pmm_bitmap (locked_start pf mb s)"
    by (simp_all add: locked_start_def f)
  then have l: "managed (locked_start pf mb ?t) = managed (locked_start pf mb s)"
    "bitmap_span (locked_start pf mb ?t) = bitmap_span (locked_start pf mb s)"
    by (simp_all add: managed_def bitmap_span_def)
  have us: "usable pf mb es ?t = usable pf mb es s" by (simp add: usable_def l)
  then show "usable pf mb es t = usable pf mb es s" by (simp add: t_def)
  have "map_at (mem ?t) (mb_mmap_addr (mem s) mb) (mb_mmap_addr (mem s) mb + mb_mmap_length (mem s) mb) es"
    by (rule map_at_agree [OF _ agree_mono [OF ag]]) (use b in \<open>simp_all add: bootable_def sound_map_def\<close>)
  then show "bootable pf mb es t" using b by (simp add: t_def bootable_def sound_map_def low_usable_def f l us)
qed

section \<open>Properties\<close>

text \<open>C12: From the boot loader on, with paging off: with a wrong magic number the machine freezes with interrupts off,
  having cleared the screen, printed the message and written the two arguments and the return address on the stack,
  and nothing else has changed. With the right one, on a machine that can start (\<open>bootable\<close>) and with these three words
  outside the information of the loader, it comes to rest in the shell with interrupts and paging on.\<close>

theorem boot_start_runs:
  fixes s :: "'a kernel_scheme"
  assumes "\<not> bit (cr0 s) 31"
  shows "(eax \<noteq> MULTIBOOT_NUMBER_CHECK \<longrightarrow> boot_start pf sp ret eax ebx s =
       Some ((vga_print (lit ''FATAL ERROR: Invalid Multiboot Magic Number.\<newline>'') (vga_clear_screen s))
         \<lparr>mem := store32 (store32 (store32 (mem s) (sp - 4) ebx) (sp - 8) eax) (sp - 12) ret, interrupts := False\<rparr>)) \<and>
     (eax = MULTIBOOT_NUMBER_CHECK \<and> cold s \<and> bootable pf ebx es s \<and>
      span (sp - 12) 12 \<inter> (span ebx 52 \<union> map_bytes (mb_mmap_addr (mem s) ebx) es) = {} \<longrightarrow>
        (\<exists>t. boot_start pf sp ret eax ebx s = Some t \<and> interrupts t \<and> bit (cr0 t) 31 \<and>
           cr3 t = of_nat (Min (usable pf ebx es s)) * BLOCK_SIZE \<and> ring_of heap_page t [(0x100000C, 0)] \<and> kbd_ok t))"
proof (intro conjI impI)
  note start = boot_start_enters [OF assms, of pf sp ret eax ebx]
  let ?m = "stacked sp ret eax ebx (mem s)"
  let ?s = "handed_over ?m s"
  show "boot_start pf sp ret eax ebx s =
       Some ((vga_print (lit ''FATAL ERROR: Invalid Multiboot Magic Number.\<newline>'') (vga_clear_screen s))
         \<lparr>mem := store32 (store32 (store32 (mem s) (sp - 4) ebx) (sp - 8) eax) (sp - 12) ret, interrupts := False\<rparr>)"
    if "eax \<noteq> MULTIBOOT_NUMBER_CHECK"
    using that by (simp add: start bad_magic ho.console) (simp add: handed_over_def stacked_def)
  assume g: "eax = MULTIBOOT_NUMBER_CHECK \<and> cold s \<and> bootable pf ebx es s \<and>
      span (sp - 12) 12 \<inter> (span ebx 52 \<union> map_bytes (mb_mmap_addr (mem s) ebx) es) = {}"
  then have c: "cold ?s" by (simp add: cold_def handed_over_def)
  note b = handed_over_bootable [of pf ebx es s sp]
  obtain t where "kernel_main pf MULTIBOOT_NUMBER_CHECK ebx ?s = Some (Halts t)" "interrupts t" "bit (cr0 t) 31"
    "cr3 t = kernel_directory t" "kernel_directory t = of_nat (Min (usable pf ebx es ?s)) * BLOCK_SIZE"
    "ring_of heap_page t [(0x100000C, 0)]" "kbd_ok t"
    using kernel_main_boots [OF c b(1)] g by blast
  then show "\<exists>t. boot_start pf sp ret eax ebx s = Some t \<and> interrupts t \<and> bit (cr0 t) 31 \<and>
     cr3 t = of_nat (Min (usable pf ebx es s)) * BLOCK_SIZE \<and> ring_of heap_page t [(0x100000C, 0)] \<and> kbd_ok t"
    using g b(2) start by simp
qed

theorem boot_start_runs_witness:
  "(\<exists>t. boot_start pc 0x80000 0x100010 0x2BADB002 0x9000 (powered_on 8) = Some t \<and> interrupts t \<and> cr3 t = 0x1000) \<and>
   (\<exists>t. boot_start pc 0x80000 0x100010 0 0x9000 (powered_on 8) = Some t \<and> \<not> interrupts t)"
proof -
  have n: "4 \<le> (8 :: nat)" "8 < (1024 :: nat)" by simp_all
  have "map_bytes (mb_mmap_addr (mem (powered_on 8)) 0x9000) [pc_entry 8] = span 0x9100 24"
    by (simp add: powered_on_fields pc_memory_loads)
  moreover have "span 0x7FFF4 12 \<inter> (span 0x9000 52 \<union> span 0x9100 24) = ({} :: u32 set)"
    by (auto simp: span_def word_unat_eq_iff unat_word_ariths unat_of_nat)
  moreover have "\<not> bit (cr0 (powered_on 8)) 31"
    by (simp add: powered_on_def typist_def idle_def blank_def keyboard.extend_def shell.extend_def timer.extend_def)
  ultimately show ?thesis
    using boot_start_runs [of "powered_on 8" "0x2BADB002" pc "0x80000" "0x100010" "0x9000" "[pc_entry 8]"]
      boot_start_runs [of "powered_on 8" 0 pc "0x80000" "0x100010" "0x9000" "[pc_entry 8]"]
      powered_on_cold powered_on_bootable [OF n] pc_usable [OF n(2)] powered_on_fields
    by (auto simp: MULTIBOOT_NUMBER_CHECK_def BLOCK_SIZE_def)
qed

end
