(* ===== verification/Run.thy ===== *)
theory Run
  imports Kernel
begin

text \<open>
  The running system: after \<open>kernel_main\<close> the processor sleeps in \<open>hlt\<close> and everything that happens
  is an interrupt. The two open lines of the interrupt controller lead to \<open>timer_stub\<close> and
  \<open>keyboard_handler\<close> of \<open>interrupt.asm\<close>, which save the registers and call \<open>timer_handler_main\<close> and
  \<open>keyboard_handler_main\<close>. Their gates clear the interrupt flag, so a handler is not interrupted, and
  \<open>iret\<close> sets it again: events follow one another. A handler that does not return (a page fault)
  leaves no successor state.
\<close>

section \<open>Events\<close>

text \<open>A tick carries the stack pointer of the interrupted code, a key what the keyboard ports answer.\<close>

datatype event = Tick u32 | Key "u16 \<Rightarrow> u8"

text \<open>The C handlers alone, as the stubs call them; the frames that processor and stubs push are in \<open>Alive\<close>.\<close>

fun dispatch :: "(u32 \<Rightarrow> u32) \<Rightarrow> event \<Rightarrow> 'a kernel_scheme \<Rightarrow> 'a kernel_scheme option" where
  "dispatch kst (Tick e) s = map_option snd (timer_handler_main kst e s)"
| "dispatch kst (Key dev) s = keyboard_handler_main dev s"

inductive reached :: "(u32 \<Rightarrow> u32) \<Rightarrow> 'a kernel_scheme \<Rightarrow> 'a kernel_scheme \<Rightarrow> bool" for kst s where
  start: "reached kst s s"
| tick: "reached kst s t \<Longrightarrow> interrupts t \<Longrightarrow> e \<noteq> 0 \<Longrightarrow> dispatch kst (Tick e) t = Some u \<Longrightarrow> reached kst s u"
| key: "reached kst s t \<Longrightarrow> interrupts t \<Longrightarrow> dispatch kst (Key dev) t = Some u \<Longrightarrow> reached kst s u"

section \<open>What the handlers leave alone\<close>

lemma screen_only:
  fixes s t :: "'a vga_scheme"
  assumes "same_but_screen s t"
  shows "t = s\<lparr>vga_buff := vga_buff t, vga_index := vga_index t\<rparr>"
  using assms by (cases s; cases t) (simp add: same_but_screen_def)

text \<open>The fields that the line editor and the shell own: the screen and the command line.\<close>

definition console_step :: "'a kernel_scheme \<Rightarrow> 'a kernel_scheme \<Rightarrow> bool" where
  "console_step s t \<longleftrightarrow> t = s\<lparr>vga_buff := vga_buff t, vga_index := vga_index t, vga_limit := vga_limit t,
     current_args := current_args t, shell_buffer := shell_buffer t, buffer_idx := buffer_idx t\<rparr>"

lemma console_step_vga:
  fixes s t :: "'a kernel_scheme"
  assumes "mem t = mem s" "out_log t = out_log s" "vga.more t = vga.more s"
  shows "console_step s t"
  using assms unfolding console_step_def by (cases s; cases t) simp

lemma console_step_trans:
  fixes s t u :: "'a kernel_scheme"
  shows "console_step s t \<Longrightarrow> console_step t u \<Longrightarrow> console_step s u"
  unfolding console_step_def by (cases s; cases t; cases u) simp

lemma console_step_line:
  fixes s :: "'a kernel_scheme"
  shows "console_step s (s\<lparr>shell_buffer := line\<rparr>)" "console_step s (s\<lparr>buffer_idx := k\<rparr>)"
    "console_step s (s\<lparr>current_args := a\<rparr>)"
  by (simp_all add: console_step_def)

lemma run_words_console:
  assumes "run_words ws s = Some t"
  shows "console_step s t"
  using run_words_frame [OF assms] by (intro console_step_vga) (simp_all add: same_but_screen_def)


lemma printing_console:
  fixes s :: "'a kernel_scheme"
  shows "console_step s (vga_print str s)" "console_step s (vga_print_color str k s)" "console_step s (vga_lock_cursor s)"
  by (rule console_step_vga; simp)+

lemma key_console:
  fixes s :: "'a kernel_scheme"
  assumes ok: "kbd_ok s" and k: "key_pressed c s = Some t"
  shows "console_step s t"
proof -
  consider "c = newline" | "c = backspace" "c \<noteq> newline" | "c \<noteq> newline" "c \<noteq> backspace" by blast
  then show ?thesis
  proof cases
    case 1
    then obtain u where u: "run_words (take 16 (tokens (pending s))) (entered s) = Some u"
      "t = prompt (u\<lparr>shell_buffer := cut ((shell_buffer s)[buffer_idx s := 0]), buffer_idx := 0\<rparr>)"
      using k enter_runs_words [OF ok] by auto
    have "console_step s (entered s)" unfolding entered_def Let_def
      by (rule console_step_trans [OF console_step_trans [OF console_step_line(1) printing_console(1)] console_step_line(3)])
    moreover have "console_step (entered s) u" using run_words_console [OF u(1)] .
    moreover have "console_step u t" unfolding u(2) prompt_def
      by (rule console_step_trans [OF console_step_trans [OF console_step_trans [OF console_step_line(1) console_step_line(2)]
            printing_console(2)] printing_console(3)])
    ultimately show ?thesis by (blast intro: console_step_trans)
  next
    case 2
    then show ?thesis
      using k console_step_trans [OF console_step_line(2) printing_console(1)]
      by (auto simp: key_pressed_def Let_def console_step_def split: if_splits)
  next
    case 3
    have "console_step s (vga_print [c, 0] (s\<lparr>shell_buffer := (shell_buffer s)[buffer_idx s := c], buffer_idx := buffer_idx s + 1\<rparr>))"
      by (rule console_step_trans [OF console_step_trans [OF console_step_line(1) console_step_line(2)] printing_console(1)])
    then show ?thesis using 3 k by (auto simp: key_pressed_def Let_def split: if_splits) (simp add: console_step_def)+
  qed
qed
text \<open>What both handlers keep: everything but the memory, the registers of the task switch and the console.\<close>

definition same_system :: "'a kernel_scheme \<Rightarrow> 'a kernel_scheme \<Rightarrow> bool" where
  "same_system s t \<longleftrightarrow> total_blocks t = total_blocks s \<and> pmm_bitmap t = pmm_bitmap s \<and>
     kernel_directory t = kernel_directory s \<and> cr0 t = cr0 s \<and> cr3 t = cr3 s \<and> heap_first t = heap_first s \<and>
     gdt_entries t = gdt_entries s \<and> idt_table t = idt_table s \<and> interrupts t = interrupts s"

lemma same_system_trans: "same_system s t \<Longrightarrow> same_system t u \<Longrightarrow> same_system s u"
  by (simp add: same_system_def)

lemma console_step_system:
  fixes s t :: "'a kernel_scheme"
  assumes "console_step s t"
  shows "same_system s t" "mem t = mem s" "translate t = translate s" "phys t = phys s" "ring_of W t q = ring_of W s q"
proof -
  have e: "t = s\<lparr>vga_buff := vga_buff t, vga_index := vga_index t, vga_limit := vga_limit t,
     current_args := current_args t, shell_buffer := shell_buffer t, buffer_idx := buffer_idx t\<rparr>"
    using assms by (simp only: console_step_def)
  show s: "same_system s t" by (subst e) (simp add: same_system_def)
  show m: "mem t = mem s" by (subst e) simp
  have c: "current_task t = current_task s" by (subst e) simp
  have v: "translate t = translate s" "vmem t = vmem s" "window W t = window W s" "phys t = phys s" for W
    by (rule view_cong; use s m in \<open>simp add: same_system_def\<close>)+
  then show "translate t = translate s" "phys t = phys s" by simp_all
  show "ring_of W t q = ring_of W s q" using s v c by (intro ring_cong) (simp_all add: same_system_def)
qed

lemma put32_mem: "put32 a v s = s\<lparr>mem := mem (put32 a v s)\<rparr>"
  by (simp add: put32_def)

lemma tick_system:
  fixes s :: "'a kernel_scheme"
  assumes r: "ring_of W s [(p, x)]" and e: "e \<noteq> 0" and t: "timer_handler_main kst e s = Some (r, t)"
  shows "r = e" "ring_of W t [(p, e)]" "same_system s t" "translate t = translate s"
    "b \<notin> phys s ` span (p + 4) 4 \<Longrightarrow> mem t b = mem s b" "kbd_ok t = kbd_ok s" "pending t = pending s"
    "on_screen k t = on_screen k s"
proof -
  have nz: "\<forall>x \<in> set (tl [(p, x)]). snd x \<noteq> 0" by simp
  obtain u where u: "timer_handler_main kst e s = Some (e, u)" "ring_of W u [(p, e)]" "cr3 u = cr3 s"
    using timer_tick [OF r e nz, of kst] by (auto simp: switch_def)
  then show re: "r = e" and rt: "ring_of W t [(p, e)]" using t by simp_all
  have cur: "current_task s = p" "p \<noteq> 0" and w: "window W s" and own: "span p 16 \<subseteq> W" using ring_in [OF r] by simp_all
  define s1 where "s1 = outb 0x20 0x20 (s\<lparr>tick := tick s + 1\<rparr>)"
  define v where "v = put32 (p + 4) e s1"
  have w1: "window W s1" using w by (simp add: s1_def)
  note o = owns_struct [OF own]
  have vs: "vstore32 (p + 4) e s1 = Some v" using window_mapped [OF w1] o by (simp add: vstore32_def v_def)
  have c1: "current_task s1 = p" using cur by (simp add: s1_def)
  have tv: "t = v\<lparr>current_task := current_task t, tss := tss t, cr3 := cr3 t\<rparr>"
    using t unfolding timer_handler_main_def s1_def [symmetric] Let_def
    by (auto simp: c1 cur vs switch_page_directory_def split: if_splits bind_splits)
  have v: "v = s1\<lparr>mem := mem v\<rparr>" unfolding v_def by (rule put32_mem)
  have c3: "cr3 t = cr3 s" using u t by simp
  show sys: "same_system s t"
    by (subst tv, subst v) (simp add: same_system_def c3 s1_def outb_def)
  have l: "shell_buffer t = shell_buffer s" "buffer_idx t = buffer_idx s" "current_args t = current_args s"
    by (subst tv, subst v, simp add: s1_def outb_def)+
  have "vga_buff t = vga_buff s" "vga_index t = vga_index s" by (subst tv, subst v, simp add: s1_def outb_def)+
  then show "on_screen k t = on_screen k s" by (simp add: on_screen_def)
  from l show "kbd_ok t = kbd_ok s" "pending t = pending s" by (simp_all add: kbd_ok_def pending_def)
  have m: "mem t = mem v" by (subst tv) simp
  have ts: "translate s1 = translate s" "phys s1 = phys s" by (rule view_cong; simp add: s1_def outb_def)+
  have "translate t x = translate v x" for x
    using sys m v by (simp add: translate_def same_system_def) (simp add: v_def s1_def outb_def)
  then show "translate t = translate s" using window_put(2) [OF w1, of "p + 4" e] o ts by (auto simp: v_def)
  assume "b \<notin> phys s ` span (p + 4) 4"
  then have "b \<notin> phys s1 ` span (p + 4) 4" using ts by simp
  then show "mem t b = mem s b" unfolding m v_def span4 by (simp add: put32_def) (simp add: s1_def)
qed
section \<open>The invariant of the running system\<close>

text \<open>
  \<open>running s t\<close>: since \<open>s\<close> the ring has stayed the one task, the line editor is in order,
  interrupts are on, the descriptor tables and all translations are as they were, and of the
  memory only the saved stack pointer of the task may differ.
\<close>

definition running :: "'a kernel_scheme \<Rightarrow> 'a kernel_scheme \<Rightarrow> bool" where
  "running s t \<longleftrightarrow> (\<exists>x. ring_of heap_page t [(0x100000C, x)]) \<and> kbd_ok t \<and> interrupts t \<and> same_system s t \<and>
     translate t = translate s \<and> (\<forall>b. b \<notin> phys s ` span 0x1000010 4 \<longrightarrow> mem t b = mem s b)"

lemma outb_kernel:
  fixes s :: "'a kernel_scheme"
  shows "same_system s (outb p v s)" "translate (outb p v s) = translate s" "ring_of W (outb p v s) q = ring_of W s q"
proof -
  show "translate (outb p v s) = translate s" by (rule view_cong; simp add: outb_def)
  show "same_system s (outb p v s)" by (simp add: same_system_def outb_def)
  show "ring_of W (outb p v s) q = ring_of W s q" by (rule ring_cong) simp_all
qed

lemma key_running:
  assumes r: "running s t" and k: "keyboard_handler_main dev t = Some u"
  shows "running s u"
proof -
  obtain x where x: "ring_of heap_page t [(0x100000C, x)]" using r by (auto simp: running_def)
  obtain v where v: "key_pressed (key_char dev) t = Some v" "u = outb 0x20 0x20 v"
    using k by (auto simp: handler_key_pressed)
  have ok: "kbd_ok t" using r by (simp add: running_def)
  note c = console_step_system [OF key_console [OF ok v(1)]]
  have "ring_of heap_page u [(0x100000C, x)]" using x c(5) by (simp add: v(2) outb_kernel)
  moreover have "same_system t u" using same_system_trans [OF c(1) outb_kernel(1)] by (simp add: v(2))
  then have "same_system s u" "interrupts u"
    using r same_system_trans [of s t u] by (simp_all add: running_def) (simp add: same_system_def)
  moreover have "kbd_ok u" "mem u = mem t" using handler_step [OF ok k] by simp_all
  moreover have "translate u = translate t" using c(3) by (simp add: v(2) outb_kernel)
  ultimately show ?thesis using r by (auto simp: running_def)
qed

lemma tick_running:
  assumes r: "running s t" and e: "e \<noteq> 0"
  shows "\<exists>u. timer_handler_main kst e t = Some (e, u) \<and> running s u"
proof -
  obtain x where x: "ring_of heap_page t [(0x100000C, x)]" using r by (auto simp: running_def)
  have nz: "\<forall>y \<in> set (tl [(0x100000C :: u32, x)]). snd y \<noteq> 0" by simp
  obtain u where u: "timer_handler_main kst e t = Some (e, u)"
    using timer_tick [OF x e nz, of kst] by (auto simp: switch_def)
  note t = tick_system [OF x e u]
  have tr: "translate t = translate s" using r by (simp add: running_def)
  then have ph: "phys t = phys s" by (simp add: phys_def fun_eq_iff)
  have "mem u b = mem s b" if "b \<notin> phys s ` span 0x1000010 4" for b
    using t(5) [of b] that ph r by (simp add: running_def)
  moreover have "same_system s u" using r same_system_trans [OF _ t(3)] by (simp add: running_def)
  moreover have "interrupts u" using r t(3) by (simp add: running_def same_system_def)
  ultimately have "running s u" using r t(2,4,6) tr unfolding running_def by auto
  with u show ?thesis by blast
qed

lemma reached_running: "reached kst s t \<Longrightarrow> running s s \<Longrightarrow> running s t"
proof (induction rule: reached.induct)
  case (tick t e u)
  then show ?case using tick_running [of s t e kst] by auto
next
  case (key t dev u)
  then show ?case using key_running [of s t dev u] by simp
qed

section \<open>Commands that do not return\<close>

lemma run_words_none:
  "run_words ws s = None \<longleftrightarrow> (\<exists>a r. ws = lit ''peek'' # a # r \<and> \<not> mapped s (textohex a))"
  by (auto simp: run_words_def lit_def vload32_def split: list.split)

lemma keyboard_stops:
  fixes t :: "'a kernel_scheme"
  assumes ok: "kbd_ok t"
  shows "keyboard_handler_main dev t = None \<longleftrightarrow> key_char dev = newline \<and>
    (\<exists>a r. take 16 (tokens (pending t)) = lit ''peek'' # a # r \<and> \<not> mapped t (textohex a))"
proof (cases "key_char dev = newline")
  case True
  have "console_step t (entered t)" unfolding entered_def Let_def
    by (rule console_step_trans [OF console_step_trans [OF console_step_line(1) printing_console(1)] console_step_line(3)])
  then have "translate (entered t) = translate t" by (rule console_step_system)
  then have "mapped (entered t) a = mapped t a" for a by (simp add: mapped_def)
  then show ?thesis
    using True enter_runs_words [OF ok] by (simp add: handler_key_pressed run_words_none)
next
  case False
  then show ?thesis using key_pressed_returns [of "key_char dev" t] by (simp add: handler_key_pressed)
qed

lemma booted_running:
  fixes s t :: "'a kernel_scheme"
  assumes c: "cold s" and b: "bootable pf mb es s"
    and k: "kernel_main pf MULTIBOOT_NUMBER_CHECK mb s = Some (Halts t)"
  shows "running t t"
proof -
  obtain u where u: "kernel_main pf MULTIBOOT_NUMBER_CHECK mb s = Some (Halts u)" "interrupts u"
    "ring_of heap_page u [(0x100000C, 0)]" "current_args u = current_args s" "shell_buffer u = shell_buffer s"
    "buffer_idx u = buffer_idx s"
    using kernel_main_up [OF c b] by (elim exE conjE) (rule that)
  with k have "u = t" by simp
  with u c show ?thesis by (auto simp: running_def same_system_def kbd_ok_def pending_def cold_def)
qed

section \<open>The shape of the state\<close>

text \<open>The cursor stays on the screen and nothing is written behind it, whatever is typed and run.\<close>

lemma on_screen_updates [simp]:
  fixes s :: "'a kernel_scheme"
  shows "on_screen b (s\<lparr>shell_buffer := l\<rparr>) = on_screen b s" "on_screen b (s\<lparr>buffer_idx := n\<rparr>) = on_screen b s"
    "on_screen b (s\<lparr>current_args := a\<rparr>) = on_screen b s" "on_screen b (vga_lock_cursor s) = on_screen b s"
  by (simp_all add: on_screen_def vga_lock_cursor_def)

lemma on_screen_clear: "on_screen b s \<Longrightarrow> on_screen b (vga_clear_screen s)"
  by (auto simp: on_screen_def clear_apply word_le_nat_alt)

lemma run_words_screen: "on_screen b s \<Longrightarrow> run_words ws s = Some t \<Longrightarrow> on_screen b t"
  by (auto simp: run_words_def on_screen_clear scr.print split: list.splits if_splits)

lemma key_screen:
  fixes s :: "'a kernel_scheme"
  assumes ok: "kbd_ok s" and i: "on_screen b s" and k: "key_pressed c s = Some t"
  shows "on_screen b t"
proof (cases "c = newline")
  case True
  then obtain u where u: "run_words (take 16 (tokens (pending s))) (entered s) = Some u"
    "t = prompt (u\<lparr>shell_buffer := cut ((shell_buffer s)[buffer_idx s := 0]), buffer_idx := 0\<rparr>)"
    using k enter_runs_words [OF ok] by auto
  have "on_screen b (entered s)" using i by (simp add: entered_def Let_def scr.print)
  from run_words_screen [OF this u(1)] show ?thesis by (simp add: u(2) prompt_def scr.print_color)
next
  case False
  then show ?thesis using i k by (auto simp: key_pressed_def Let_def scr.print split: if_splits)
qed

lemma reached_screen:
  assumes "reached kst s t" "running s s" "on_screen b s"
  shows "on_screen b t"
  using assms
proof (induction rule: reached.induct)
  case (tick t e u)
  have "running s t" by (rule reached_running [OF tick.hyps(1) tick.prems(1)])
  then obtain x where "ring_of heap_page t [(0x100000C, x)]" by (auto simp: running_def)
  moreover obtain r where "timer_handler_main kst e t = Some (r, u)" using tick.hyps by auto
  ultimately show ?case using tick_system(8) tick by blast
next
  case (key t dev u)
  have ok: "kbd_ok t" using reached_running [OF key.hyps(1) key.prems(1)] by (simp add: running_def)
  obtain v where v: "key_pressed (key_char dev) t = Some v" "u = outb 0x20 0x20 v"
    using key.hyps(3) by (auto simp: handler_key_pressed)
  have "on_screen b v" by (rule key_screen [OF ok _ v(1)]) (use key in simp)
  then show ?case by (simp add: v(2) on_screen_def outb_def)
qed

section \<open>Properties\<close>

text \<open>C2: The started system keeps answering: in every state that ticks and keys lead to after
  \<open>kernel_main\<close>, a timer interrupt comes back with the very stack pointer it was entered with (the
  only task never loses the processor and the stub never loads a null stack), and a keyboard
  interrupt comes back too, except when Enter runs \<open>peek\<close> with an address that is not mapped.\<close>

theorem running_system_answers:
  fixes s t u :: "'a kernel_scheme"
  assumes "cold s" and "bootable pf mb es s"
    and "kernel_main pf MULTIBOOT_NUMBER_CHECK mb s = Some (Halts t)" and "reached kst t u"
  shows "(\<forall>e. e \<noteq> 0 \<longrightarrow> (\<exists>v. timer_handler_main kst e u = Some (e, v))) \<and>
    (\<forall>dev. keyboard_handler_main dev u = None \<longleftrightarrow> key_char dev = newline \<and>
       (\<exists>a r. take 16 (tokens (pending u)) = lit ''peek'' # a # r \<and> \<not> mapped u (textohex a)))"
proof -
  have r: "running t u" by (rule reached_running [OF assms(4) booted_running [OF assms(1-3)]])
  then have ok: "kbd_ok u" by (simp add: running_def)
  show ?thesis
  proof (intro conjI allI impI)
    fix e :: u32 assume "e \<noteq> 0"
    from tick_running [OF r this, of kst] show "\<exists>v. timer_handler_main kst e u = Some (e, v)" by blast
  qed (rule keyboard_stops [OF ok])
qed

theorem running_system_answers_witness:
  "\<exists>t u v. kernel_main pc MULTIBOOT_NUMBER_CHECK 0x9000 (powered_on 8) = Some (Halts t) \<and>
     keyboard_handler_main (key_port 0x1E) t = Some u \<and> timer_handler_main (\<lambda>_. 0) 0x90000 u = Some (0x90000, v)"
proof -
  have n: "4 \<le> (8 :: nat)" "8 < (1024 :: nat)" by simp_all
  note b = powered_on_bootable(1) [OF n]
  obtain t where t: "kernel_main pc MULTIBOOT_NUMBER_CHECK 0x9000 (powered_on 8) = Some (Halts t)"
    using kernel_main_up [OF powered_on_cold b] by blast
  have "key_char (key_port 0x1E) \<noteq> newline" by (simp add: key_char_port kbd_us_keys newline_def)
  then obtain u where u: "keyboard_handler_main (key_port 0x1E) t = Some u"
    using running_system_answers [OF powered_on_cold b t reached.start] by (cases "keyboard_handler_main (key_port 0x1E) t") auto
  have "interrupts t" using booted_running [OF powered_on_cold b t] by (simp add: running_def)
  then have "reached (\<lambda>_. 0) t u" using u by (intro reached.key [OF reached.start, where dev = "key_port 0x1E"]) simp_all
  from running_system_answers [OF powered_on_cold b t this] have "\<exists>v. timer_handler_main (\<lambda>_. 0) 0x90000 u = Some (0x90000, v)"
    by simp
  with t u show ?thesis by blast
qed

text \<open>C33: The running system keeps the shape of its state: the tables have the entries that the processor
  was told of, the index into the command line leaves room for the terminating zero, the line
  holds no zero before it, the array of words has its 16 places, the cursor is on the screen and
  no cell behind the 2000 of the screen is ever written.\<close>

theorem running_system_shape:
  fixes s t u :: "'a kernel_scheme"
  assumes "cold s" and "bootable pf mb es s"
    and "kernel_main pf MULTIBOOT_NUMBER_CHECK mb s = Some (Halts t)" and "reached kst t u"
  shows "length (gdt_entries u) = 6 \<and> length (idt_table u) = 256 \<and> length (shell_buffer u) = 256 \<and>
    buffer_idx u \<le> 255 \<and> 0 \<notin> set (pending u) \<and> length (current_args u) = 16 \<and> vga_index u < 2000 \<and>
    (\<forall>i. 2000 \<le> i \<longrightarrow> vga_buff u i = vga_buff t i)"
proof -
  note b = booted_running [OF assms(1-3)]
  have r: "running t u" by (rule reached_running [OF assms(4) b])
  obtain v where v: "kernel_main pf MULTIBOOT_NUMBER_CHECK mb s = Some (Halts v)" "vga_index v = 13"
    "gdt_entries v = gdt_entries (gdt_init (gdt_address pf) (tss_address pf) (tss_stack_top pf) s)"
    "idt_table v = idt_table (idt_init (devices pf) (idt_address pf) (handlers pf) s)"
    using kernel_main_up [OF assms(1,2)] by (elim exE conjE) (rule that)
  have t: "vga_index t = 13" "length (gdt_entries t) = 6" "length (idt_table t) = 256"
    using v assms(1,3) by (simp_all add: cold_def gdt_init_eq idt_init_table)
  then have "on_screen (vga_buff t) t" by (simp add: on_screen_def)
  from reached_screen [OF assms(4) b this] have "on_screen (vga_buff t) u" .
  then show ?thesis using r t by (simp add: on_screen_def running_def same_system_def kbd_ok_def)
qed

theorem running_system_shape_witness:
  "\<exists>t u. kernel_main pc MULTIBOOT_NUMBER_CHECK 0x9000 (powered_on 8) = Some (Halts t) \<and>
     keyboard_handler_main (key_port 0x1E) t = Some u \<and> vga_index u < 2000 \<and> length (shell_buffer u) = 256"
proof -
  have n: "4 \<le> (8 :: nat)" "8 < (1024 :: nat)" by simp_all
  note b = powered_on_bootable(1) [OF n]
  obtain t where t: "kernel_main pc MULTIBOOT_NUMBER_CHECK 0x9000 (powered_on 8) = Some (Halts t)"
    using kernel_main_up [OF powered_on_cold b] by blast
  have i: "interrupts t" "kbd_ok t" using booted_running [OF powered_on_cold b t] by (simp_all add: running_def)
  have "key_char (key_port 0x1E) \<noteq> newline" by (simp add: key_char_port kbd_us_keys newline_def)
  then obtain u where u: "keyboard_handler_main (key_port 0x1E) t = Some u"
    using keyboard_stops [OF i(2), of "key_port 0x1E"] by auto
  then have "reached (\<lambda>_. 0) t u" using i
    by (intro reached.key [OF reached.start, where dev = "key_port 0x1E"]) simp_all
  from running_system_shape [OF powered_on_cold b t this] t u show ?thesis by blast
qed

end
