(* ===== verification/Alive.thy ===== *)
theory Alive
  imports Run Switch
begin

text \<open>
  The running system once more, now with the registers of the processor: the interrupts pass
  through the stubs of \<open>interrupt.asm\<close>, which write their frames on the stack of the kernel that
  sleeps in \<open>hlt\<close>. The compiled handlers' own use of the stack, below these frames, is left out.
\<close>

section \<open>The keyboard stub\<close>

definition keyboard_stub :: "(u16 \<Rightarrow> u8) \<Rightarrow> cpu \<Rightarrow> u16 \<times> 'a kernel_scheme \<Rightarrow> (cpu \<times> u16 \<times> 'a kernel_scheme) option" where
  "keyboard_stub dev c = (\<lambda>(ds, s). do {
     (c, s) \<leftarrow> pusha c s;
     s \<leftarrow> (if null_selector ds then None else keyboard_handler_main dev s);
     c \<leftarrow> popa c s;
     c \<leftarrow> iret c s;
     Some (c, ds_after c ds s, s)
   })"

definition keyboard_interrupt :: "(u16 \<Rightarrow> u8) \<Rightarrow> cpu \<Rightarrow> u16 \<times> 'a kernel_scheme \<Rightarrow> (cpu \<times> u16 \<times> 'a kernel_scheme) option" where
  "keyboard_interrupt dev c = (\<lambda>(ds, s). do {
     (c, s) \<leftarrow> deliver c s;
     keyboard_stub dev c (ds, s)
   })"

text \<open>States of processor and system that interrupts lead to, while the interrupt flag is set.\<close>

inductive lives :: "(u32 \<Rightarrow> u32) \<Rightarrow> cpu \<times> u16 \<times> 'a kernel_scheme \<Rightarrow> cpu \<times> u16 \<times> 'a kernel_scheme \<Rightarrow> bool" for kst z where
  start: "lives kst z z"
| tick: "lives kst z (c, y) \<Longrightarrow> bit (r_eflags c) 9 \<Longrightarrow> timer_interrupt kst c y = Some w \<Longrightarrow> lives kst z w"
| key: "lives kst z (c, y) \<Longrightarrow> bit (r_eflags c) 9 \<Longrightarrow> keyboard_interrupt dev c y = Some w \<Longrightarrow> lives kst z w"

section \<open>What the frames leave alone\<close>

lemma edits_kernel:
  fixes s t :: "'a kernel_scheme"
  assumes e: "edits W H s t" and w: "window W s"
  shows "same_system s t" "kbd_ok t = kbd_ok s" "interrupts t = interrupts s" "translate t = translate s" "phys t = phys s"
    "b \<notin> phys s ` H \<Longrightarrow> mem t b = mem s b"
proof -
  have t: "t = s\<lparr>mem := mem t\<rparr>" using e unfolding edits_def by blast
  show "same_system s t" by (subst t) (simp add: same_system_def)
  show "kbd_ok t = kbd_ok s" by (subst t) (simp add: kbd_ok_def pending_def)
  show "interrupts t = interrupts s" by (subst t) simp
  show tr: "translate t = translate s" using e by (simp add: edits_def fun_eq_iff)
  then show ph: "phys t = phys s" by (simp add: phys_def fun_eq_iff)
  assume b: "b \<notin> phys s ` H"
  show "mem t b = mem s b"
  proof (cases "b \<in> phys s ` W")
    case True
    then obtain x where x: "x \<in> W" "b = phys s x" by blast
    then have "translate s x = Some b" using w by (auto simp: window_def phys_def)
    moreover have "vmem t x = vmem s x" using e x b by (auto simp: edits_def)
    ultimately show ?thesis using tr by (simp add: vmem_def)
  next
    case False
    then show ?thesis using e by (auto simp: edits_def agree_def)
  qed
qed

lemma edits_pending: "edits W H s t \<Longrightarrow> pending t = pending (s :: 'a kernel_scheme)"
proof -
  assume "edits W H s t"
  then have t: "t = s\<lparr>mem := mem t\<rparr>" unfolding edits_def by blast
  show "pending t = pending s" by (subst t) (simp add: pending_def)
qed

text \<open>
  \<open>awake W H s t\<close>: since \<open>s\<close> only the saved stack pointer of the one task and the bytes of \<open>H\<close>, the
  part of the stack below the sleeping kernel, have changed in memory.
\<close>

definition awake :: "u32 set \<Rightarrow> u32 set \<Rightarrow> 'a kernel_scheme \<Rightarrow> 'a kernel_scheme \<Rightarrow> bool" where
  "awake W H s t \<longleftrightarrow> (\<exists>x. ring_of W t [(0x100000C, x)]) \<and> kbd_ok t \<and> interrupts t \<and> same_system s t \<and>
     translate t = translate s \<and> (\<forall>b. b \<notin> phys s ` (span 0x1000010 4 \<union> H) \<longrightarrow> mem t b = mem s b)"

lemma awake_edits:
  assumes a: "awake W H s t" and e: "edits W K t u" and K: "K \<subseteq> H" "span 0x100000C 16 \<inter> H = {}"
  shows "awake W H s u"
proof -
  obtain x where x: "ring_of W t [(0x100000C, x)]" using a by (auto simp: awake_def)
  note k = edits_kernel [OF e ring_in(2) [OF x]]
  have "current_task u = current_task t" using edits_task_fields(1) [OF e] .
  then have "ring_of W u [(0x100000C, x)]"
    using K by (intro ring_keeps [OF x keeps_edits [OF e]]) auto
  moreover have "phys t = phys s" using a by (simp add: awake_def phys_def fun_eq_iff)
  then have "mem u b = mem t b" if "b \<notin> phys s ` (span 0x1000010 4 \<union> H)" for b using k(6) [of b] that K(1) by auto
  ultimately show ?thesis using a k(1-4) same_system_trans [OF _ k(1)] by (auto simp: awake_def)
qed

lemma awake_tick:
  fixes t :: "'a kernel_scheme"
  assumes a: "awake W H s t" and e: "e \<noteq> 0"
  shows "\<exists>u. timer_handler_main kst e t = Some (e, u) \<and> awake W H s u \<and> keeps W (span 0x1000010 4) t u"
proof -
  obtain x where x: "ring_of W t [(0x100000C, x)]" using a by (auto simp: awake_def)
  have nz: "\<forall>y \<in> set (tl [(0x100000C :: u32, x)]). snd y \<noteq> 0" by simp
  obtain u where u: "timer_handler_main kst e t = Some (e, u)" "keeps W (span 0x1000010 4) t u"
    using timer_tick [OF x e nz, of kst] by (auto simp: switch_def)
  note k = tick_system [OF x e u(1)]
  have "phys t = phys s" using a by (simp add: awake_def phys_def fun_eq_iff)
  then have "mem u b = mem s b" if "b \<notin> phys s ` (span 0x1000010 4 \<union> H)" for b
    using k(5) [of b] that a by (auto simp: awake_def)
  moreover have "interrupts u" using a k(3) by (simp add: awake_def same_system_def)
  ultimately have "awake W H s u" using a k(2,4,6) same_system_trans [OF _ k(3)] by (auto simp: awake_def)
  with u show ?thesis by blast
qed

lemma awake_key:
  fixes t :: "'a kernel_scheme"
  assumes a: "awake W H s t" and k: "keyboard_handler_main dev t = Some u"
  shows "awake W H s u" "keeps W {} t u"
proof -
  obtain x where x: "ring_of W t [(0x100000C, x)]" using a by (auto simp: awake_def)
  obtain v where v: "key_pressed (key_char dev) t = Some v" "u = outb 0x20 0x20 v"
    using k by (auto simp: handler_key_pressed)
  have ok: "kbd_ok t" using a by (simp add: awake_def)
  note c = console_step_system [OF key_console [OF ok v(1)]] and h = handler_step [OF ok k]
  have r: "ring_of W u [(0x100000C, x)]" using x c(5) by (simp add: v(2) outb_kernel)
  have sys: "same_system t u" using same_system_trans [OF c(1) outb_kernel(1)] by (simp add: v(2))
  moreover have tr: "translate u = translate t" using c(3) by (simp add: v(2) outb_kernel)
  moreover have "interrupts u" using a sys by (simp add: awake_def same_system_def)
  ultimately show "awake W H s u" using a r h(1,4) same_system_trans [OF _ sys] by (auto simp: awake_def)
  show "keeps W {} t u"
    using keeps_view [OF keeps_refl [OF ring_in(2) [OF x]], of u] sys h(4) by (simp add: same_system_def)
qed

section \<open>The sleeping kernel\<close>

text \<open>The kernel in ring 0, with the data segment 0x10 and 48 bytes of stack in \<open>S\<close>.\<close>

definition sleeper :: "u32 set \<Rightarrow> cpu \<Rightarrow> bool" where
  "sleeper S c \<longleftrightarrow> sel_rpl (r_cs c) = 0 \<and> r_ss c = 0x10 \<and> r_esp c \<noteq> 44 \<and> span (r_esp c - 48) 48 \<subseteq> S"

abbreviation below_esp :: "cpu \<Rightarrow> u32 set" where
  "below_esp c \<equiv> span (r_esp c - 48) 48"

lemma sleeper_frame:
  assumes "sleeper S c"
  shows "room s c = below_esp c" "frame_at s c = r_esp c - 44" "kernel_ss s c" "r_esp c - 44 \<noteq> 0" "frame_size c = 44"
    "span (r_esp c - 44) 44 \<subseteq> below_esp c" "below_esp c \<subseteq> S"
proof -
  show "room s c = below_esp c" "frame_at s c = r_esp c - 44" "kernel_ss s c" "r_esp c - 44 \<noteq> 0" "frame_size c = 44"
    "below_esp c \<subseteq> S"
    using assms by (simp_all add: sleeper_def room_def frame_at_def entry_stack_def frame_size_def kernel_ss_def)
  show "span (r_esp c - 44) 44 \<subseteq> below_esp c" using span_sub [of 4 44 48 "r_esp c - 48"] by simp
qed

lemma ds_kept: "sel_rpl (r_cs c) = 0 \<Longrightarrow> length (gdt_entries s) = 6 \<Longrightarrow> ds_after c 0x10 s = 0x10"
  by (simp add: ds_after_def sel_index_def drop_bit_eq_div)

lemma not_null_10: "\<not> null_selector 0x10"
  by (simp add: null_selector_def sel_index_def drop_bit_eq_div)

lemma sleeper_resumes:
  assumes c: "sleeper S c" "S \<subseteq> W" and f: "suspended W t (r_esp c - 44) c" and k: "keeps W K t u"
    and K: "K \<inter> S = {}" and g: "length (gdt_entries u) = 6"
    and d: "r_esp d = r_esp c - 44" "r_ss d = 0x10"
  shows "do { d \<leftarrow> popa d u; d \<leftarrow> iret d u; Some (d, ds_after d 0x10 u, u) } = Some (c, 0x10, u)"
proof -
  note fr = sleeper_frame [OF c(1)]
  have "suspended W u (r_esp c - 44) c" using suspended_keeps [OF k f] fr(5-7) K by auto
  from suspended_resumes [OF keeps_window [OF k] this d(1)] d(2)
  have "do { d \<leftarrow> popa d u; iret d u } = Some c" by simp
  then obtain x where "popa d u = Some x" "iret x u = Some c" by (auto split: bind_splits)
  then show ?thesis using ds_kept [OF _ g] c(1) by (simp add: sleeper_def)
qed

lemma sleeper_tick:
  fixes t :: "'a kernel_scheme"
  assumes a: "awake W (below_esp c) s t" and c: "sleeper S c" "S \<subseteq> W" "S \<inter> heap_page = {}" and g: "length (gdt_entries s) = 6"
  shows "\<exists>u. timer_interrupt kst c (0x10, t) = Some (c, 0x10, u) \<and> awake W (below_esp c) s u"
proof -
  note fr = sleeper_frame [OF c(1)]
  obtain x where "ring_of W t [(0x100000C, x)]" using a by (auto simp: awake_def)
  note w = ring_in(2) [OF this]
  have hp: "span 0x100000C 16 \<subseteq> heap_page" "span 0x1000010 4 \<subseteq> heap_page"
    using heap_page_sub [of 12 16] heap_page_sub [of 16 4] by simp_all
  have rm: "room t c = below_esp c" "frame_at t c = r_esp c - 44" "kernel_ss t c"
    using sleeper_frame(1-3) [OF c(1), where s = t] by simp_all
  have rW: "room t c \<subseteq> W" using rm(1) fr(7) c(2) by simp
  obtain d v where v: "timer_interrupt kst c (0x10, t) =
       do { (eax, u) \<leftarrow> timer_handler_main kst (r_esp c - 44) v;
            d \<leftarrow> popa (d\<lparr>r_esp := eax\<rparr>) u; d \<leftarrow> iret d u; Some (d, ds_after d 0x10 u, u) }"
     "r_ss d = 0x10" "edits W (below_esp c) t v" "suspended W v (r_esp c - 44) c"
    using stub_saves [OF w rW rm(3), of kst "0x10"] not_null_10 rm(1,2) by auto
  have av: "awake W (below_esp c) s v" by (rule awake_edits [OF a v(3)]) (use hp(1) fr(7) c(3) in blast)+
  obtain u where u: "timer_handler_main kst (r_esp c - 44) v = Some (r_esp c - 44, u)" "awake W (below_esp c) s u"
    "keeps W (span 0x1000010 4) v u" using awake_tick [OF av fr(4), of kst] by blast
  have "length (gdt_entries u) = 6" using u(2) g by (simp add: awake_def same_system_def)
  from sleeper_resumes [OF c(1,2) v(4) u(3) _ this, of "d\<lparr>r_esp := r_esp c - 44\<rparr>"] hp(2) c(3) v(1,2) u(1)
  have "timer_interrupt kst c (0x10, t) = Some (c, 0x10, u)" by auto
  with u(2) show ?thesis by blast
qed

text \<open>A keyboard interrupt meets the handler with the frame pushed, which it does not see.\<close>

lemma sleeper_key_pushed:
  fixes t :: "'a kernel_scheme"
  assumes a: "awake W (below_esp c) s t" and c: "sleeper S c" "S \<subseteq> W" "S \<inter> heap_page = {}" and g: "length (gdt_entries s) = 6"
  shows "\<exists>v. v = t\<lparr>mem := mem v\<rparr> \<and> kbd_ok t \<and> kbd_ok v \<and> pending v = pending t \<and> translate v = translate t \<and>
     (keyboard_handler_main dev v = None \<longrightarrow> keyboard_interrupt dev c (0x10, t) = None) \<and>
     (\<forall>u. keyboard_handler_main dev v = Some u \<longrightarrow>
        keyboard_interrupt dev c (0x10, t) = Some (c, 0x10, u) \<and> awake W (below_esp c) s u)"
proof -
  note fr = sleeper_frame [OF c(1)]
  obtain x where "ring_of W t [(0x100000C, x)]" using a by (auto simp: awake_def)
  note w = ring_in(2) [OF this]
  have hp: "span 0x100000C 16 \<subseteq> heap_page" using heap_page_sub [of 12 16] by simp
  have rm: "frame_at t c = r_esp c - 44" "kernel_ss t c"
    using sleeper_frame(2,3) [OF c(1), where s = t] by simp_all
  have fW: "span (frame_at t c) (frame_size c) \<subseteq> W" using rm(1) fr(5-7) c(2) by auto
  from enters [OF w fW rm(2)] obtain d v where v: "do { (c, s) \<leftarrow> deliver c t; pusha c s } = Some (d, v)"
    "r_esp d = r_esp c - 44" "r_ss d = 0x10" "edits W (span (r_esp c - 44) 44) t v" "suspended W v (r_esp c - 44) c"
    unfolding rm(1) fr(5) by blast
  obtain d0 v0 where d0: "deliver c t = Some (d0, v0)" "pusha d0 v0 = Some (d, v)" using v(1) by (auto split: bind_splits)
  have av: "awake W (below_esp c) s v" by (rule awake_edits [OF a v(4) fr(6)]) (use hp fr(7) c(3) in blast)
  have "keyboard_interrupt dev c (0x10, t) = Some (c, 0x10, u) \<and> awake W (below_esp c) s u"
    if u: "keyboard_handler_main dev v = Some u" for u
  proof -
    note au = awake_key [OF av u]
    have "length (gdt_entries u) = 6" using au(1) g by (simp add: awake_def same_system_def)
    from sleeper_resumes [OF c(1,2) v(5) au(2) _ this v(2,3)]
    show ?thesis using d0 u not_null_10 au(1) by (simp add: keyboard_interrupt_def keyboard_stub_def)
  qed
  moreover have "keyboard_handler_main dev v = None \<longrightarrow> keyboard_interrupt dev c (0x10, t) = None"
    using d0 not_null_10 by (simp add: keyboard_interrupt_def keyboard_stub_def)
  moreover have "pending v = pending t" "translate v = translate t"
    using edits_kernel(1,4) [OF v(4) w] edits_pending [OF v(4)] by simp_all
  moreover have "kbd_ok t" "kbd_ok v" using a av by (simp_all add: awake_def)
  moreover have "v = t\<lparr>mem := mem v\<rparr>" using v(4) unfolding edits_def by blast
  ultimately show ?thesis by (intro exI [of _ v] conjI allI impI) simp_all
qed

lemma sleeper_key:
  fixes t :: "'a kernel_scheme"
  assumes a: "awake W (below_esp c) s t" and c: "sleeper S c" "S \<subseteq> W" "S \<inter> heap_page = {}" and g: "length (gdt_entries s) = 6"
    and k: "keyboard_interrupt dev c (0x10, t) = Some z"
  shows "\<exists>u. z = (c, 0x10, u) \<and> awake W (below_esp c) s u"
proof -
  obtain v where v: "keyboard_handler_main dev v = None \<longrightarrow> keyboard_interrupt dev c (0x10, t) = None"
    "\<forall>u. keyboard_handler_main dev v = Some u \<longrightarrow>
        keyboard_interrupt dev c (0x10, t) = Some (c, 0x10, u) \<and> awake W (below_esp c) s u"
    using sleeper_key_pushed [OF a c g, of dev] by (elim exE conjE) (rule that)
  show ?thesis using k v by (cases "keyboard_handler_main dev v") auto
qed

lemma sleeper_keyed:
  fixes t :: "'a kernel_scheme"
  assumes a: "awake W (below_esp c) s t" and c: "sleeper S c" "S \<subseteq> W" "S \<inter> heap_page = {}" and g: "length (gdt_entries s) = 6"
    and k: "keyboard_handler_main dev t \<noteq> None"
  shows "\<exists>u. keyboard_interrupt dev c (0x10, t) = Some (c, 0x10, u)"
proof -
  obtain v where v: "pending v = pending t" "kbd_ok v" "kbd_ok t" "translate v = translate t"
    "\<forall>u. keyboard_handler_main dev v = Some u \<longrightarrow>
        keyboard_interrupt dev c (0x10, t) = Some (c, 0x10, u) \<and> awake W (below_esp c) s u"
    using sleeper_key_pushed [OF a c g, of dev] by (elim exE conjE) (rule that)
  have "mapped v = mapped t" using v(4) by (simp add: mapped_def fun_eq_iff)
  then have "keyboard_handler_main dev v = None \<longleftrightarrow> keyboard_handler_main dev t = None"
    by (simp add: keyboard_stops [OF v(2)] keyboard_stops [OF v(3)] v(1))
  with v(5) k show ?thesis by auto
qed

lemma lives_awake:
  fixes t :: "'a kernel_scheme"
  assumes c: "sleeper S c" "S \<subseteq> W" "S \<inter> heap_page = {}" and g: "length (gdt_entries s) = 6" and a: "awake W (below_esp c) s t"
    and l: "lives kst (c, 0x10, t) z"
  shows "\<exists>u. z = (c, 0x10, u) \<and> awake W (below_esp c) s u"
  using l
proof (induction rule: lives.induct)
  case start
  then show ?case using a by blast
next
  case (tick d y w)
  then obtain u where u: "d = c" "y = (0x10, u)" "awake W (below_esp c) s u" by auto
  with sleeper_tick [OF u(3) c g, of kst] tick.hyps(3) show ?case by auto
next
  case (key d y dev w)
  then obtain u where u: "d = c" "y = (0x10, u)" "awake W (below_esp c) s u" by auto
  with sleeper_key [OF u(3) c g] key.hyps(3) show ?case by blast
qed

text \<open>From a fresh start: the window of the heap and of the memory that the start leaves unused.\<close>

lemma booted_awake:
  fixes s t :: "'a kernel_scheme"
  assumes "cold s" and "bootable pf mb es s" and m: "kernel_main pf MULTIBOOT_NUMBER_CHECK mb s = Some (Halts t)"
  shows "awake (heap_page \<union> spare pf mb es s) H t t" "length (gdt_entries t) = 6"
    "\<And>a. unat a < 0x400000 \<Longrightarrow> phys t a = a"
proof -
  obtain v where v: "kernel_main pf MULTIBOOT_NUMBER_CHECK mb s = Some (Halts v)"
    "\<forall>a. unat a < 0x400000 \<longrightarrow> translate v a = Some a"
    "gdt_entries v = gdt_entries (gdt_init (gdt_address pf) (tss_address pf) (tss_stack_top pf) s)"
    "window (heap_page \<union> spare pf mb es s) v"
    using kernel_main_up [OF assms(1,2)] by (elim exE conjE) (rule that)
  then have vt: "v = t" using m by simp
  have r: "running t t" by (rule booted_running [OF assms])
  then obtain x where "ring_of heap_page t [(0x100000C, x)]" by (auto simp: running_def)
  from ring_mono [OF this _ v(4) [unfolded vt]] r show "awake (heap_page \<union> spare pf mb es s) H t t"
    by (auto simp: awake_def running_def)
  show "length (gdt_entries t) = 6" using v(3) assms(1) by (simp add: vt cold_def gdt_init_eq)
  show "\<And>a. unat a < 0x400000 \<Longrightarrow> phys t a = a" using v(2) by (simp add: vt phys_def)
qed

lemma spare_low: "S \<subseteq> spare pf mb es s \<Longrightarrow> (\<forall>a \<in> S. unat a < 0x400000) \<and> S \<inter> heap_page = {}"
  using lowfar by (auto simp: spare_def)

lemma booted_lives:
  fixes s t :: "'a kernel_scheme"
  assumes "cold s" and "bootable pf mb es s" and "kernel_main pf MULTIBOOT_NUMBER_CHECK mb s = Some (Halts t)"
    and "sleeper (spare pf mb es s) c" and "lives kst (c, 0x10, t) z"
  shows "\<exists>u. z = (c, 0x10, u) \<and> awake (heap_page \<union> spare pf mb es s) (below_esp c) t u \<and>
     phys t ` below_esp c = below_esp c"
proof -
  let ?S = "spare pf mb es s" and ?W = "heap_page \<union> spare pf mb es s"
  note b = booted_awake [OF assms(1-3)]
  note low = spare_low [OF subset_refl [of ?S]]
  have S: "?S \<subseteq> ?W" "?S \<inter> heap_page = {}" using low by auto
  have "below_esp c \<subseteq> ?S" by (rule sleeper_frame(7) [OF assms(4)])
  then have "phys t ` below_esp c = below_esp c" using low b(3) by (auto simp: subset_iff image_iff)
  then show ?thesis using lives_awake [OF assms(4) S b(2,1) assms(5)] by blast
qed

lemma booted_tick:
  fixes s t :: "'a kernel_scheme"
  assumes "cold s" and "bootable pf mb es s" and "kernel_main pf MULTIBOOT_NUMBER_CHECK mb s = Some (Halts t)"
    and "sleeper (spare pf mb es s) c" and "lives kst (c, 0x10, t) (c, 0x10, u)"
  shows "\<exists>v. timer_interrupt kst c (0x10, u) = Some (c, 0x10, v)"
proof -
  have "awake (heap_page \<union> spare pf mb es s) (below_esp c) t u" using booted_lives [OF assms] by blast
  moreover have "spare pf mb es s \<subseteq> heap_page \<union> spare pf mb es s" "spare pf mb es s \<inter> heap_page = {}"
    using spare_low [OF subset_refl [of "spare pf mb es s"]] by auto
  ultimately show ?thesis using sleeper_tick [OF _ assms(4) _ _ booted_awake(2) [OF assms(1-3)], where kst = kst] by blast
qed

text \<open>A kernel asleep on the machine of the witnesses, with its stack below 0x10000.\<close>

definition pc_sleeper :: cpu where
  "pc_sleeper = \<lparr>r_edi = 6, r_esi = 5, r_ebp = 0x10010, r_ebx = 2, r_edx = 4, r_ecx = 3, r_eax = 1,
     r_eip = 0x100200, r_eflags = 0x202, r_esp = 0x10000, r_cs = 0x08, r_ss = 0x10\<rparr>"

lemma lowest_interval: "a \<le> b \<Longrightarrow> lowest (Suc n) {a..b} = insert a (lowest n {Suc a..b})"
proof -
  assume ab: "a \<le> b"
  then have "Min {a..b} = a" by (intro Min_eqI) auto
  moreover have "{a..b} - {a} = {Suc a..b}" by auto
  ultimately show ?thesis by simp
qed

lemma pc_sleeper: "sleeper (spare pc 0x9000 [pc_entry 8] (powered_on 8)) pc_sleeper"
proof -
  have "(4 :: nat) = Suc (Suc (Suc (Suc 0)))" by simp
  then have low: "lowest 4 {1..8} = {1, 2, 3, 4}" by (simp only:) (simp add: lowest_interval numeral_eq_Suc del: lowest.simps(2))
  have "a \<in> spare pc 0x9000 [pc_entry 8] (powered_on 8)" if "a \<in> span 0xFFD0 48" for a
  proof -
    have n: "0xFFD0 \<le> unat a" "unat a < 0x10000"
      using that by (auto simp: span_def unat_word_ariths unat_of_nat)
    then have "block_of a = 15" by (simp add: unat_block)
    moreover have "a \<notin> span 0x200000 1024" using n by (auto simp: span_def unat_word_ariths unat_of_nat)
    ultimately show ?thesis using n low pc_usable [of 8] by (simp add: spare_def pc_bitmap)
  qed
  then show ?thesis by (auto simp: sleeper_def pc_sleeper_def sel_rpl_def)
qed

text \<open>C3: The started system is stable: whatever timer and keyboard interrupts come through their stubs while the kernel
  sleeps, the descriptor tables and every translation stay as the start left them, interrupts stay on, the line editor
  and the one-task ring stay in order, and in the whole memory nothing changes but the four bytes of the saved stack
  pointer in the task structure and the 48 bytes below the stack pointer, where processor and stub push their frame
  (what the compiled handlers push below it is not part of the model).\<close>

theorem running_system_stable:
  fixes s t u :: "'a kernel_scheme"
  assumes "cold s" and "bootable pf mb es s" and "kernel_main pf MULTIBOOT_NUMBER_CHECK mb s = Some (Halts t)"
    and "sleeper (spare pf mb es s) c" and "lives kst (c, 0x10, t) (d, ds, u)"
  shows "translate u = translate t \<and> gdt_entries u = gdt_entries t \<and> idt_table u = idt_table t \<and>
    cr0 u = cr0 t \<and> cr3 u = cr3 t \<and> interrupts u \<and> kbd_ok u \<and>
    (\<exists>x. ring_of (heap_page \<union> spare pf mb es s) u [(0x100000C, x)]) \<and>
    (\<forall>b. b \<notin> phys t ` span 0x1000010 4 \<union> below_esp c \<longrightarrow> mem u b = mem t b)"
proof -
  obtain v where v: "(d, ds, u) = (c, 0x10, v)" "awake (heap_page \<union> spare pf mb es s) (below_esp c) t v"
    "phys t ` below_esp c = below_esp c"
    using booted_lives [OF assms] by blast
  then show ?thesis by (auto simp: awake_def same_system_def image_Un)
qed

theorem running_system_stable_witness:
  "\<exists>t u. kernel_main pc MULTIBOOT_NUMBER_CHECK 0x9000 (powered_on 8) = Some (Halts t) \<and>
     timer_interrupt (\<lambda>_. 0) pc_sleeper (0x10, t) = Some (pc_sleeper, 0x10, u) \<and> translate u = translate t"
proof -
  have n: "4 \<le> (8 :: nat)" "8 < (1024 :: nat)" by simp_all
  note b = powered_on_cold powered_on_bootable(1) [OF n]
  obtain t where t: "kernel_main pc MULTIBOOT_NUMBER_CHECK 0x9000 (powered_on 8) = Some (Halts t)"
    using kernel_main_up [OF b] by blast
  obtain u where u: "timer_interrupt (\<lambda>_. 0) pc_sleeper (0x10, t) = Some (pc_sleeper, 0x10, u)"
    using booted_tick [OF b t pc_sleeper lives.start] by blast
  have "bit (r_eflags pc_sleeper) 9" by (simp add: pc_sleeper_def)
  from running_system_stable [OF b t pc_sleeper lives.tick [OF lives.start this u]] t u show ?thesis by blast
qed

text \<open>C9: The sleeping kernel is never disturbed: when it sleeps in \<open>hlt\<close> with its stack anywhere in the
  memory that the start leaves unused, then after any number of timer and keyboard interrupts
  every register and the data segment are what they were, every translation is the same, and
  memory has changed in the saved stack pointer of the one task and in the 48 bytes below the
  stack pointer only; and the next timer interrupt again comes back to the very same place, as does the next
  keyboard interrupt whose handler returns.\<close>

theorem sleeping_kernel_undisturbed:
  fixes s t :: "'a kernel_scheme"
  assumes "cold s" and "bootable pf mb es s" and "kernel_main pf MULTIBOOT_NUMBER_CHECK mb s = Some (Halts t)"
    and "sleeper (spare pf mb es s) c" and "lives kst (c, 0x10, t) z"
  shows "\<exists>u. z = (c, 0x10, u) \<and> translate u = translate t \<and>
     (\<forall>b. b \<notin> phys t ` span 0x1000010 4 \<union> below_esp c \<longrightarrow> mem u b = mem t b) \<and>
     (\<exists>v. timer_interrupt kst c (0x10, u) = Some (c, 0x10, v)) \<and>
     (\<forall>dev. keyboard_handler_main dev u \<noteq> None \<longrightarrow> (\<exists>v. keyboard_interrupt dev c (0x10, u) = Some (c, 0x10, v)))"
proof -
  obtain u where u: "z = (c, 0x10, u)" "awake (heap_page \<union> spare pf mb es s) (below_esp c) t u"
    "phys t ` below_esp c = below_esp c" using booted_lives [OF assms] by blast
  obtain v where v: "timer_interrupt kst c (0x10, u) = Some (c, 0x10, v)"
    using booted_tick [OF assms(1-4)] assms(5) u(1) by blast
  have "mem u b = mem t b" if "b \<notin> phys t ` span 0x1000010 4 \<union> below_esp c" for b
    using u(2,3) that by (simp add: awake_def image_Un)
  moreover have "spare pf mb es s \<inter> heap_page = {}" using spare_low [OF subset_refl [of "spare pf mb es s"]] by auto
  note sleeper_keyed [OF u(2) assms(4) _ this booted_awake(2) [OF assms(1-3)]]
  ultimately show ?thesis using u(1,2) v by (auto simp: awake_def)
qed

theorem sleeping_kernel_undisturbed_witness:
  "\<exists>t u v. kernel_main pc 0x2BADB002 0x9000 (powered_on 8) = Some (Halts t) \<and>
     timer_interrupt (\<lambda>_. 0) pc_sleeper (0x10, t) = Some (pc_sleeper, 0x10, u) \<and>
     timer_interrupt (\<lambda>_. 0) pc_sleeper (0x10, u) = Some (pc_sleeper, 0x10, v)"
proof -
  have n: "4 \<le> (8 :: nat)" "8 < (1024 :: nat)" by simp_all
  note b = powered_on_cold powered_on_bootable(1) [OF n]
  obtain t where t: "kernel_main pc MULTIBOOT_NUMBER_CHECK 0x9000 (powered_on 8) = Some (Halts t)"
    using kernel_main_up [OF b] by blast
  note undisturbed = sleeping_kernel_undisturbed [OF b t pc_sleeper]
  obtain u where u: "timer_interrupt (\<lambda>_. 0) pc_sleeper (0x10, t) = Some (pc_sleeper, 0x10, u)"
    using undisturbed [OF lives.start] by blast
  have "bit (r_eflags pc_sleeper) 9" by (simp add: pc_sleeper_def)
  from lives.tick [OF lives.start this u] obtain v where
    "timer_interrupt (\<lambda>_. 0) pc_sleeper (0x10, u) = Some (pc_sleeper, 0x10, v)"
    using undisturbed by blast
  with t u show ?thesis unfolding MULTIBOOT_NUMBER_CHECK_def by blast
qed

end
