(* ===== verification/Interleave.thy ===== *)
theory Interleave
  imports Alive
begin

text \<open>
  The order of events: timer interrupts may come between the keys at any point. They write their frame, the
  saved stack pointer of the task, the tick counter, the task state and the ports, and apart from \<open>peek\<close> no command
  reads any of these: with and without the ticks the keys leave the same screen and the same command line.
\<close>

section \<open>What a tick changes\<close>

text \<open>The parts of the state that a tick changes, taken from \<open>h\<close>.\<close>

definition overlay :: "'a kernel_scheme \<Rightarrow> 'a kernel_scheme \<Rightarrow> 'a kernel_scheme" where
  "overlay h s = s\<lparr>mem := mem h, out_log := out_log h, tss := tss h, tick := tick h\<rparr>"

interpretation hid: console_stranger "overlay h" for h
  by unfold_locales (simp_all add: overlay_def)

lemma overlay_fields [simp]:
  "shell_buffer (overlay h s) = shell_buffer s" "buffer_idx (overlay h s) = buffer_idx s"
  "current_args (overlay h s) = current_args s"
  "(overlay h s)\<lparr>shell_buffer := b\<rparr> = overlay h (s\<lparr>shell_buffer := b\<rparr>)"
  "(overlay h s)\<lparr>buffer_idx := i\<rparr> = overlay h (s\<lparr>buffer_idx := i\<rparr>)"
  "(overlay h s)\<lparr>current_args := a\<rparr> = overlay h (s\<lparr>current_args := a\<rparr>)"
  "pending (overlay h s) = pending s" "kbd_ok (overlay h s) = kbd_ok s"
  by (simp_all add: overlay_def pending_def kbd_ok_def)

lemma overlay_overlay [simp]: "overlay h (overlay g s) = overlay h s"
  by (simp add: overlay_def)

lemma overlay_outb: "outb p v (overlay h s) = overlay (outb p v (overlay h s)) (outb p v s)"
  by (simp add: overlay_def outb_def)

text \<open>Only \<open>peek\<close> reads memory.\<close>

definition reads_memory :: "u8 list list \<Rightarrow> bool" where
  "reads_memory ws \<longleftrightarrow> (case ws of [] \<Rightarrow> False | cmd # args \<Rightarrow> cmd = lit ''peek'')"

lemma overlay_run_words:
  assumes "\<not> reads_memory ws"
  shows "run_words ws (overlay h s) = map_option (overlay h) (run_words ws s)"
proof (cases ws)
  case (Cons c ws')
  then show ?thesis using assms by (simp add: reads_memory_def run_words_def hid.console)
qed (simp add: run_words_def)

lemma overlay_entered: "entered (overlay h s) = overlay h (entered s)"
  by (simp add: entered_def Let_def hid.console)

lemma overlay_prompt: "prompt (overlay h s) = overlay h (prompt s)"
  by (simp add: prompt_def hid.console)

lemma overlay_key:
  assumes ok: "kbd_ok s" and pk: "c = newline \<Longrightarrow> \<not> reads_memory (take 16 (tokens (pending s)))"
  shows "key_pressed c (overlay h s) = map_option (overlay h) (key_pressed c s)"
proof (cases "c = newline")
  case True
  have ok': "kbd_ok (overlay h s)" using ok by simp
  have "run_words (take 16 (tokens (pending s))) (entered (overlay h s)) =
      map_option (overlay h) (run_words (take 16 (tokens (pending s))) (entered s))"
    unfolding overlay_entered by (rule overlay_run_words [OF pk [OF True]])
  then show ?thesis using enter_runs_words [OF ok] enter_runs_words [OF ok'] True
    by (simp add: option.map_comp comp_def overlay_prompt)
next
  case False
  then show ?thesis by (simp add: key_pressed_def Let_def hid.console)
qed

section \<open>Runs of interrupts\<close>

datatype irq_line = Clock | Board "u16 \<Rightarrow> u8"

fun irq :: "(u32 \<Rightarrow> u32) \<Rightarrow> irq_line \<Rightarrow> cpu \<times> u16 \<times> 'a kernel_scheme \<Rightarrow> (cpu \<times> u16 \<times> 'a kernel_scheme) option" where
  "irq kst Clock (c, y) = timer_interrupt kst c y"
| "irq kst (Board dev) (c, y) = keyboard_interrupt dev c y"

primrec irqs :: "(u32 \<Rightarrow> u32) \<Rightarrow> irq_line list \<Rightarrow> cpu \<times> u16 \<times> 'a kernel_scheme \<Rightarrow> (cpu \<times> u16 \<times> 'a kernel_scheme) option" where
  "irqs kst [] z = Some z"
| "irqs kst (l # ls) z = do { z \<leftarrow> irq kst l z; irqs kst ls z }"

fun is_key :: "irq_line \<Rightarrow> bool" where
  "is_key Clock = False"
| "is_key (Board dev) = True"

text \<open>No line that the keys enter, with \<open>p\<close> typed before, is a \<open>peek\<close> command.\<close>

fun no_peek :: "irq_line list \<Rightarrow> u8 list \<Rightarrow> bool" where
  "no_peek [] p = True"
| "no_peek (Clock # ls) p = no_peek ls p"
| "no_peek (Board dev # ls) p =
     ((key_char dev = newline \<longrightarrow> \<not> reads_memory (take 16 (tokens p))) \<and> no_peek ls (edit (key_char dev) p))"

section \<open>Ticks are not seen\<close>

definition mem_only :: "'a machine_scheme \<Rightarrow> 'a machine_scheme \<Rightarrow> bool" where
  "mem_only s t \<longleftrightarrow> (\<exists>m. t = s\<lparr>mem := m\<rparr>)"

lemma mem_only_refl: "mem_only s s"
  unfolding mem_only_def by (rule exI [of _ "mem s"]) simp

lemma mem_only_trans: "mem_only s t \<Longrightarrow> mem_only t u \<Longrightarrow> mem_only s u"
  by (auto simp: mem_only_def)

lemma pushes_mem: "pushes vs sp s = Some (sp', t) \<Longrightarrow> mem_only s t"
proof (induction vs arbitrary: sp s)
  case (Cons v vs)
  then obtain sp1 u where u: "push v sp s = Some (sp1, u)" "pushes vs sp1 u = Some (sp', t)" by (auto split: bind_splits)
  then have "mem_only s u" by (auto simp: mem_only_def push_def vstore32_def put32_def Let_def split: if_splits bind_splits)
  then show ?case by (rule mem_only_trans) (rule Cons.IH [OF u(2)])
qed (simp add: mem_only_refl)

lemma push_all_mem: "push_all vs c s = Some (d, t) \<Longrightarrow> mem_only s t"
  by (auto simp: push_all_def simp del: pushes.simps split: bind_splits dest: pushes_mem)

lemma deliver_mem: "deliver c s = Some (d, t) \<Longrightarrow> mem_only s t"
  by (auto simp: deliver_def split: if_splits bind_splits dest!: push_all_mem intro: mem_only_trans)

text \<open>A timer interrupt is the handler behind a frame in memory.\<close>

lemma timer_interrupt_handler:
  assumes "timer_interrupt kst c (ds, t) = Some (d, ds', u)"
  shows "\<exists>v e r. mem_only t v \<and> timer_handler_main kst e v = Some (r, u)"
proof -
  obtain c1 s1 c2 s2 c3 s3 r where "deliver c t = Some (c1, s1)" "push_all [r_eax c1, r_ecx c1, r_edx c1, r_ebx c1, r_esp c1, r_ebp c1,
      r_esi c1, r_edi c1] c1 s1 = Some (c2, s2)" "push_all [r_esp c2] c2 s2 = Some (c3, s3)"
    "timer_handler_main kst (r_esp c2) s3 = Some (r, u)"
    using assms by (auto simp: timer_interrupt_def timer_stub_def pusha_def Let_def split: bind_splits if_splits)
  then have "mem_only t s1" "mem_only s1 s2" "mem_only s2 s3" "timer_handler_main kst (r_esp c2) s3 = Some (r, u)"
    using deliver_mem push_all_mem by blast+
  then show ?thesis using mem_only_trans by blast
qed

text \<open>A tick of the sleeping kernel changes what \<open>overlay\<close> takes.\<close>

lemma tick_overlay:
  fixes t :: "'a kernel_scheme"
  assumes a: "awake W H s t" "awake W H s u" and t: "timer_interrupt kst c (ds, t) = Some (d, ds', u)"
  shows "u = overlay u t"
proof -
  obtain x y where r: "ring_of W t [(0x100000C, x)]" "ring_of W u [(0x100000C, y)]" using a by (auto simp: awake_def)
  have "current_task u = current_task t" using ring_in(3) [OF r(1)] ring_in(3) [OF r(2)] by simp
  moreover have "cr3 u = cr3 t" using a by (simp add: awake_def same_system_def)
  moreover obtain v e z where v: "mem_only t v" "timer_handler_main kst e v = Some (z, u)"
    using timer_interrupt_handler [OF t] by blast
  have "u = v\<lparr>mem := mem u, out_log := out_log u, tss := tss u, tick := tick u, current_task := current_task u, cr3 := cr3 u\<rparr>"
    using v(2) by (auto simp: timer_handler_main_def Let_def vstore32_def put32_def outb_def switch_page_directory_def
        split: if_splits bind_splits)
  then have "u = t\<lparr>mem := mem u, out_log := out_log u, tss := tss u, tick := tick u,
      current_task := current_task u, cr3 := cr3 u\<rparr>" using v(1) by (auto simp: mem_only_def)
  ultimately show ?thesis by (simp add: overlay_def)
qed

text \<open>The states \<open>u\<close> and \<open>v\<close> of the two runs: alike but for what ticks write.\<close>

definition alike :: "u32 set \<Rightarrow> u32 set \<Rightarrow> 'a kernel_scheme \<Rightarrow> 'a kernel_scheme \<Rightarrow> 'a kernel_scheme \<Rightarrow> bool" where
  "alike W H t u v \<longleftrightarrow> awake W H t u \<and> awake W H t v \<and> v = overlay v u"

lemma overlay_mem: "v = overlay v u \<Longrightarrow> overlay (v\<lparr>mem := m\<rparr>) (u\<lparr>mem := m'\<rparr>) = v\<lparr>mem := m\<rparr>"
proof -
  assume "v = overlay v u"
  then have "v\<lparr>mem := m\<rparr> = (overlay v u)\<lparr>mem := m\<rparr>" by (rule arg_cong)
  then show ?thesis by (simp add: overlay_def)
qed

lemma key_alike:
  fixes t :: "'a kernel_scheme"
  assumes a: "alike W (below_esp c) t u v" and c: "sleeper S c" "S \<subseteq> W" "S \<inter> heap_page = {}" and g: "length (gdt_entries t) = 6"
    and pk: "key_char dev = newline \<Longrightarrow> \<not> reads_memory (take 16 (tokens (pending u)))"
  shows "\<exists>u' v'. keyboard_interrupt dev c (0x10, u) = Some (c, 0x10, u') \<and>
     keyboard_interrupt dev c (0x10, v) = Some (c, 0x10, v') \<and> alike W (below_esp c) t u' v' \<and>
     pending u' = edit (key_char dev) (pending u)"
proof -
  have al: "awake W (below_esp c) t u" "awake W (below_esp c) t v" "v = overlay v u" using a by (simp_all add: alike_def)
  obtain u1 where u1: "u1 = u\<lparr>mem := mem u1\<rparr>" "kbd_ok u1" "pending u1 = pending u"
    "\<forall>w. keyboard_handler_main dev u1 = Some w \<longrightarrow>
        keyboard_interrupt dev c (0x10, u) = Some (c, 0x10, w) \<and> awake W (below_esp c) t w"
    using sleeper_key_pushed [OF al(1) c g, of dev] by (elim exE conjE) (rule that)
  obtain v1 where v1: "v1 = v\<lparr>mem := mem v1\<rparr>"
    "\<forall>w. keyboard_handler_main dev v1 = Some w \<longrightarrow>
        keyboard_interrupt dev c (0x10, v) = Some (c, 0x10, w) \<and> awake W (below_esp c) t w"
    using sleeper_key_pushed [OF al(2) c g, of dev] by (elim exE conjE) (rule that)
  have o: "v1 = overlay v1 u1" using overlay_mem [OF al(3), of "mem v1" "mem u1"] u1(1) v1(1) by simp
  have pk1: "key_char dev = newline \<Longrightarrow> \<not> reads_memory (take 16 (tokens (pending u1)))" using pk u1(3) by simp
  have "keyboard_handler_main dev u1 \<noteq> None"
    using pk1 by (auto simp: keyboard_stops [OF u1(2)] reads_memory_def)
  then obtain y where y: "key_pressed (key_char dev) u1 = Some y" by (auto simp: handler_key_pressed)
  have "key_pressed (key_char dev) v1 = Some (overlay v1 y)"
    using overlay_key [OF u1(2) pk1, where h = v1] o y by simp
  then have k: "keyboard_handler_main dev u1 = Some (outb 0x20 0x20 y)"
    "keyboard_handler_main dev v1 = Some (outb 0x20 0x20 (overlay v1 y))" using y by (simp_all add: handler_key_pressed)
  have "pending (outb 0x20 0x20 y) = edit (key_char dev) (pending u)"
    using key_pressed_step [OF u1(2) y] u1(3) by (simp add: pending_def outb_def)
  with u1(4) v1(2) k overlay_outb [of "0x20" "0x20" v1 y] show ?thesis by (simp add: alike_def)
qed

lemma irqs_alike:
  fixes t :: "'a kernel_scheme"
  assumes c: "sleeper S c" "S \<subseteq> W" "S \<inter> heap_page = {}" and g: "length (gdt_entries t) = 6"
  shows "alike W (below_esp c) t u v \<Longrightarrow> no_peek ls (pending u) \<Longrightarrow>
     \<exists>u' v'. irqs kst ls (c, 0x10, u) = Some (c, 0x10, u') \<and>
       irqs kst (filter is_key ls) (c, 0x10, v) = Some (c, 0x10, v') \<and> alike W (below_esp c) t u' v'"
proof (induction ls arbitrary: u v)
  case (Cons l ls)
  have a: "awake W (below_esp c) t u" "v = overlay v u" using Cons.prems(1) by (simp_all add: alike_def)
  show ?case
  proof (cases l)
    case Clock
    obtain w where w: "timer_interrupt kst c (0x10, u) = Some (c, 0x10, w)" "awake W (below_esp c) t w"
      using sleeper_tick [OF a(1) c g, of kst] by blast
    have o: "w = overlay w u" by (rule tick_overlay [OF a(1) w(2,1)])
    then have "overlay v w = overlay v u" by (metis overlay_overlay)
    then have "alike W (below_esp c) t w v" using Cons.prems(1) w(2) by (simp add: alike_def)
    moreover have "pending w = pending u" by (subst o) simp
    then have "no_peek ls (pending w)" using Cons.prems(2) Clock by simp
    ultimately show ?thesis using Cons.IH [of w v] w(1) Clock by simp
  next
    case (Board dev)
    then have "key_char dev = newline \<Longrightarrow> \<not> reads_memory (take 16 (tokens (pending u)))" using Cons.prems(2) by simp
    then obtain u' v' where w: "keyboard_interrupt dev c (0x10, u) = Some (c, 0x10, u')"
      "keyboard_interrupt dev c (0x10, v) = Some (c, 0x10, v')" "alike W (below_esp c) t u' v'"
      "pending u' = edit (key_char dev) (pending u)"
      using key_alike [OF Cons.prems(1) c g, of dev] by blast
    have "no_peek ls (pending u')" using Cons.prems(2) Board w(4) by simp
    then show ?thesis using Cons.IH [OF w(3)] w(1,2) Board by simp
  qed
qed simp

text \<open>C11: Timer interrupts are not seen at the console: wherever they come between the keys of a run of the sleeping
  kernel, through their stubs, the keys alone, in their order, leave the same screen, the same cursor and the same
  command line, and both runs come back to the registers of the kernel. The one command that can show their traces,
  \<open>peek\<close>, is left out: no line that the keys enter begins with it.\<close>

theorem ticks_not_seen:
  fixes s t :: "'a kernel_scheme"
  assumes "cold s" and "bootable pf mb es s" and "kernel_main pf MULTIBOOT_NUMBER_CHECK mb s = Some (Halts t)"
    and "sleeper (spare pf mb es s) c" and "no_peek ls []"
  shows "\<exists>u v. irqs kst ls (c, 0x10, t) = Some (c, 0x10, u) \<and> irqs kst (filter is_key ls) (c, 0x10, t) = Some (c, 0x10, v) \<and>
     vga_buff v = vga_buff u \<and> vga_index v = vga_index u \<and> vga_limit v = vga_limit u \<and>
     shell_buffer v = shell_buffer u \<and> buffer_idx v = buffer_idx u \<and> current_args v = current_args u"
proof -
  let ?W = "heap_page \<union> spare pf mb es s"
  note b = booted_awake [OF assms(1-3)]
  have "spare pf mb es s \<subseteq> ?W" "spare pf mb es s \<inter> heap_page = {}"
    using spare_low [OF subset_refl [of "spare pf mb es s"]] by auto
  note run = irqs_alike [OF assms(4) this b(2), of t t ls kst]
  have "alike ?W (below_esp c) t t t" using b(1) by (simp add: alike_def overlay_def)
  moreover have "buffer_idx t = 0" using kernel_main_up [OF assms(1,2)] assms(1,3) by (auto simp: cold_def)
  then have "pending t = []" by (simp add: pending_def)
  ultimately obtain u v where u: "irqs kst ls (c, 0x10, t) = Some (c, 0x10, u)"
    "irqs kst (filter is_key ls) (c, 0x10, t) = Some (c, 0x10, v)" "v = overlay v u"
    using run assms(5) by (auto simp: alike_def)
  have "vga_buff (overlay v u) = vga_buff u \<and> vga_index (overlay v u) = vga_index u \<and> vga_limit (overlay v u) = vga_limit u"
    by (simp add: overlay_def)
  with u show ?thesis by (metis overlay_fields(1-3))
qed

theorem ticks_not_seen_witness:
  "\<exists>t u v. kernel_main pc MULTIBOOT_NUMBER_CHECK 0x9000 (powered_on 8) = Some (Halts t) \<and>
     irqs (\<lambda>_. 0) [Clock, Board (key_port 0x1E), Clock, Board (key_port 0x1C)] (pc_sleeper, 0x10, t) = Some (pc_sleeper, 0x10, u) \<and>
     irqs (\<lambda>_. 0) [Board (key_port 0x1E), Board (key_port 0x1C)] (pc_sleeper, 0x10, t) = Some (pc_sleeper, 0x10, v) \<and>
     vga_buff v = vga_buff u"
proof -
  have n: "4 \<le> (8 :: nat)" "8 < (1024 :: nat)" by simp_all
  note b = powered_on_cold powered_on_bootable(1) [OF n]
  obtain t where t: "kernel_main pc MULTIBOOT_NUMBER_CHECK 0x9000 (powered_on 8) = Some (Halts t)"
    using kernel_main_up [OF b] by blast
  have k: "key_char (key_port 0x1E) = 97" "key_char (key_port 0x1C) = newline"
    by (simp_all add: key_char_port kbd_us_keys newline_def)
  have "no_peek [Clock, Board (key_port 0x1E), Clock, Board (key_port 0x1C)] []"
    by (simp add: k edit_def newline_def ctrl_defs reads_memory_def lit_def)
  from ticks_not_seen [OF b t pc_sleeper this, of "\<lambda>_. 0"] t show ?thesis by auto
qed

end
