(* ===== verification/Spec2Isabelle.thy ===== *)
theory Spec2Isabelle
  imports Syscall Loader Interleave
begin

text \<open>
  A model of NG-OS, a 32-bit kernel for the PC written in C (\<open>src/src/*.c\<close>), and the theorems that
  make it correct, from the memory map of the boot loader to the running command line.

  The parts. The boot loader enters \<open>kernel_main\<close> (\<open>kernel.c\<close>). It builds the descriptor tables
  (\<open>gdt.c\<close>, \<open>idt.c\<close>), programs the interrupt controllers and the timer (\<open>idt.c\<close>, \<open>pit.c\<close>), takes stock
  of the memory (\<open>pmm.c\<close>, \<open>memory.c\<close>), turns paging on (\<open>paging.c\<close>), makes a heap of one page at
  16 MB (\<open>heap.c\<close>) and the first task (\<open>task.c\<close>), prints a prompt (\<open>vga.c\<close>) and sleeps. From then on
  everything is an interrupt: the timer rotates the ring of tasks (\<open>timer.c\<close>), the keyboard edits a
  line (\<open>keyboard.c\<close>) and hands it to the command interpreter (\<open>shell.c\<close>).

  Theories, in the order of the code; each imports those it calls:
  \<^item> \<open>Prelude\<close>: machine words, characters and C strings, byte memory with 32-bit and 64-bit accesses
    (\<open>load32\<close>, \<open>store32\<close>), filled arrays, regions (\<open>span\<close>, \<open>agree\<close>), the locale \<open>cell_store\<close>.
  \<^item> \<open>Machine\<close>: the record \<open>machine\<close> (memory, log of \<open>outb\<close>), ports, \<open>memcpy\<close>, serial port, \<open>pit_init\<close>.
  \<^item> \<open>Vga\<close>: the text console; locale \<open>console_invariant\<close> for what every printing routine keeps, locale
    \<open>console_stranger\<close> for changes that printing neither sees nor undoes, and the refinement of the 25 rows to a
    window on an unbounded text.
  \<^item> \<open>Pmm\<close>: the block allocator and its bitmap; locale \<open>block_allocator\<close>.
  \<^item> \<open>Memmap\<close>: \<open>parse_memory_map\<close>.
  \<^item> \<open>Paging\<close>: \<open>paging_init\<close>, the page walk of the processor (\<open>walk\<close>) as specification, and what entering
    a page in the tables does (\<open>remapped\<close>).
  \<^item> \<open>Mmu\<close>: accesses through the page tables (\<open>vload32\<close>, \<open>vstore32\<close>) and \<open>map_page\<close>, refined to
    \<open>remapped\<close> where the tables are mapped onto themselves (\<open>sees_tables\<close>); locale \<open>faulting_store\<close> for the
    windows of memory that one user owns.
  \<^item> \<open>Heap\<close>: \<open>heap_init\<close>, \<open>kmalloc\<close>, \<open>kfree\<close> on the linked headers, refined to a list of chunks.
  \<^item> \<open>Gdt\<close>, \<open>Idt\<close>: the descriptor tables and the interrupt controllers, with what the processor and the
    controllers read from them.
  \<^item> \<open>Task\<close>, \<open>Ring\<close>, \<open>Timer\<close>: \<open>task_init\<close> and \<open>create_task\<close>; the ring of task structures in memory as a
    list (\<open>ring_of\<close>); the timer handler, an instance of the locale \<open>round_robin\<close>.
  \<^item> \<open>Cpu\<close>, \<open>Switch\<close>: the registers of the processor, entering a gate, \<open>pusha\<close>, \<open>popa\<close> and \<open>iret\<close>, and
    the timer stub of \<open>interrupt.asm\<close> around the handler: on programs with their registers it is an
    instance of \<open>round_robin\<close> again. \<open>Spawn\<close>, \<open>Multitask\<close>: what a created task first runs, and how programs
    take turns. \<open>Syscall\<close>: the other stubs, \<open>isr128\<close>, \<open>isr14\<close> and \<open>jump_to_usermode\<close>.
  \<^item> \<open>Shell\<close>, \<open>Keyboard\<close>: the command interpreter and the line editor.
  \<^item> \<open>Kernel\<close>, \<open>Loader\<close>: \<open>kernel_main\<close> and the state it leaves; \<open>_start\<close> of \<open>boot.asm\<close> before it.
  \<^item> \<open>Run\<close>: the interrupts after the start, as an inductive relation \<open>reached\<close> on states. \<open>Alive\<close>: the
    same interrupts through their stubs, with the registers of the sleeping kernel (\<open>lives\<close>).
    \<open>Interleave\<close>: runs with ticks between the keys and without them.

  State and results. Every component extends the record of the one before by its own globals, so
  an operation of \<open>pmm.c\<close> is a function on \<open>'a pmm_scheme\<close> and runs unchanged in the kernel's state.
  Memory is a function from 32-bit addresses to bytes; page tables, the bitmap, heap headers, task
  structures and forged stacks are bytes in it, at the addresses and with the wrap-around of the C
  code. The screen and the small globals of the kernel image are record fields. \<open>outcome\<close> tells a
  function that returns from one that stops the machine in a loop around \<open>hlt\<close>. The result \<open>None\<close>
  means that the code does not come back: a page fault (whose handler never returns), a division
  by zero, or a loop that runs forever. Loops over an array recurse over its indices; the loops
  over linked structures (\<open>mmap_loop\<close>, \<open>free_range\<close>, \<open>kmalloc_loop\<close>, \<open>find_previous\<close>) are
  \<open>partial_function (option)\<close>, and the theorems about them prove that they return. No fuel is used.

  What the theorems show.
  \<^item> Start and run: \<open>kernel_main\<close> comes to rest with the system set up; afterwards every tick and
    every key is answered, apart from \<open>peek\<close> at an unmapped address, and nothing in memory changes but
    the saved stack pointer and the frames of the interrupts; tables, command line and cursor keep their bounds. The loop over the
    directory makes all empty slots present, the memory of the kernel itself is released, and with
    one to three usable blocks in the first four megabytes the start halts or faults. Through the
    stubs, no interrupt changes a register of the kernel that sleeps in \<open>hlt\<close>, and where the ticks
    come between the keys makes no difference to the screen or the command line while no \<open>peek\<close> is entered.
    From \<open>_start\<close> on the machine ends in that state, or frozen when the magic number is wrong.
  \<^item> Memory: allocations are the lowest free blocks and never overlap, the counter is exact up to the blocks
    of an incomplete last word of the bitmap, which are lost, the
    memory map is read as it says (up to addresses above 4 GB), \<open>paging_init\<close> and \<open>map_page\<close> change
    exactly the translations they should, \<open>kmalloc\<close> and \<open>kfree\<close> are first fit and merging on a list of
    chunks; with the sizes that go wrong at the end of the page and without memory.
  \<^item> Tasks: one tick is one step of round robin. As long as no two tasks are interrupted on the same stack, every
    program goes on in its turn with the registers it was interrupted with; with the one ring 0 stack of the code this
    is the kernel and one task of ring 3, which must load a data segment before its first interrupt. A created task
    starts in ring 3 at its entry point. What keeps more from working as the code stands: a second task of ring 3
    overwrites the first on the shared stack, the data segment of the kernel is lost on the first return to ring 3, and
    \<open>create_task\<close> loses the heap where it is not mapped onto itself, which is so after every start. The stub of
    the system call does keep the data segment, and its frame is the \<open>registers_t\<close> of \<open>isr.h\<close>.
  \<^item> Tables: descriptors and gates decode to what they were built from, and every open interrupt
    line has a present gate into ring 0 code.
  \<^item> Console: printing is printing on an unbounded text, numbers are printed right, a line is cut
    into its words, a command depends on its words only, hexadecimal input inverts hexadecimal
    output, keys are steps of a line editor, and the screen shows the line.

  Parameters: the addresses that the linker and the assembly files fix and what ports answer
  (record \<open>platform\<close>, arguments \<open>dev\<close>), the faulting address in CR2, the value the timer handler
  reads from the field \<open>kernel_stack_top\<close>, which \<open>task_t\<close> does not have (argument \<open>kst\<close>), and
  \<open>isr_handler\<close>, which the stub of the system call calls and no file defines.

  Not modelled: the boot sectors of the first phase (16-bit code around BIOS calls, replaced by
  \<open>boot.asm\<close>), the linker script, what the compiled handlers themselves push below the interrupt
  frame, the unused declarations of \<open>fs.h\<close>, the bytes of the kernel image and of the screen (code, the globals that
  are record fields, and the cells at 0xB8000 are not part of the memory: \<open>peek\<close> at their addresses and blocks of the
  image that the allocator hands out show the bytes of \<open>mem\<close>, not the live values), the processor's cache of translations, and interrupts
  between \<open>sti\<close> and the first \<open>hlt\<close>. Heap, tasks, \<open>map_page\<close> and the
  loop over the directory access memory through the page tables. The allocator accesses its bitmap
  at the physical address, which is the virtual one as long as the bitmap lies in the first four
  megabytes; \<open>sound_map\<close> asks for that.
\<close>

end
